(* ===== verification/AZ_Prelude.thy ===== *)
theory AZ_Prelude
  imports Main "HOL-Library.Word" "HOL-Library.Char_ord" "HOL-Library.List_Lexorder"
    "HOL-Library.Sublist"
begin

text \<open>
  Shared vocabulary of the development. It holds the names of the machine types that the Go
  code uses, Go errors as values, big-endian integers in byte slices (the standard package
  \<open>encoding/binary\<close>), and the facts on words, lists and maps that several components use.

  A Go \<open>string\<close> and a Go \<open>[]byte\<close> are both a \<^typ>\<open>char list\<close>: a \<^typ>\<open>char\<close> is an 8-bit
  byte, so \<open>len\<close> is \<^const>\<open>length\<close>, the conversion between the two types is the identity, and
  \<open>bytes.Compare\<close> is the lexicographic order that \<open>List_Lexorder\<close> puts on lists
  (\<open>bytes.HasPrefix\<close> is \<^const>\<open>prefix\<close> with the arguments swapped). Instants and durations are
  nanoseconds in \<^typ>\<open>int\<close>.
\<close>

type_synonym u8 = "8 word"
type_synonym u16 = "16 word"
type_synonym u32 = "32 word"
type_synonym u64 = "64 word"
type_synonym bytes = "char list"
type_synonym time = int
type_synonym duration = int

named_theorems word_nat "facts that move a goal about words to natural numbers"
named_theorems result_split "splitting rules for error and option results"

declare sum.splits [result_split] option.splits [result_split] prod.splits [result_split]

section \<open>Errors as values\<close>

text \<open>
  \<open>errors.New\<close> is \<open>Err\<close>, \<open>fmt.Errorf\<close> with the verb \<open>%w\<close> is \<open>Wrap\<close>, \<open>errors.Join\<close> is \<open>Join\<close>;
  \<open>Panic\<close> is a run-time panic, which ends the operation where it is raised.
  A Go result \<open>(v, err)\<close> is \<open>Inl err\<close> when the error is not nil and \<open>Inr v\<close> otherwise; a Go
  result that is only an error is an \<open>error option\<close>.
\<close>

datatype error = Err string | Wrap string error | Join "error list" | Panic string

text \<open>\<open>errors.Is\<close>: the error itself or one that it wraps or joins.\<close>

fun errors_is :: "error \<Rightarrow> error \<Rightarrow> bool" where
  "errors_is (Err s) t \<longleftrightarrow> Err s = t"
| "errors_is (Wrap s e) t \<longleftrightarrow> Wrap s e = t \<or> errors_is e t"
| "errors_is (Panic s) t \<longleftrightarrow> Panic s = t"
| "errors_is (Join es) t \<longleftrightarrow> Join es = t \<or> (\<exists>e \<in> set es. errors_is e t)"

section \<open>Big-endian integers\<close>

text \<open>\<open>be_put k n\<close> is the \<open>k\<close> bytes of \<open>n\<close> (modulo \<open>256 ^ k\<close>), most significant first;
  \<open>be_get\<close> reads them back.\<close>

fun be_put :: "nat \<Rightarrow> nat \<Rightarrow> bytes" where
  "be_put 0 n = []"
| "be_put (Suc k) n = be_put k (n div 256) @ [char_of n]"

definition be_get :: "bytes \<Rightarrow> nat" where
  "be_get bs = foldl (\<lambda>n c. n * 256 + of_char c) 0 bs"

lemma length_be_put [simp]: "length (be_put k n) = k"
  by (induction k arbitrary: n) auto

lemma be_get_snoc [simp]: "be_get (bs @ [c]) = be_get bs * 256 + of_char c"
  by (simp add: be_get_def)

lemma be_get_Nil [simp]: "be_get [] = 0"
  by (simp add: be_get_def)

lemma be_get_put: "be_get (be_put k n) = n mod 256 ^ k"
proof (induction k arbitrary: n)
  case (Suc k)
  have "n mod 256 ^ Suc k = (n div 256 mod 256 ^ k) * 256 + n mod 256"
    using mod_mult2_eq [of n 256 "256 ^ k"] by (simp add: mult.commute)
  then show ?case by (simp add: Suc.IH)
qed simp

lemma be_get_put_small: "n < 256 ^ k \<Longrightarrow> be_get (be_put k n) = n"
  by (simp add: be_get_put)

lemma be_get_less: "be_get bs < 256 ^ length bs"
proof (induction bs rule: rev_induct)
  case (snoc c bs)
  have "of_char c < (256::nat)" by (rule nat_of_char_less_256)
  with snoc have "of_char c + be_get bs * 256 < 256 * 256 ^ length bs" by linarith
  then show ?case by (simp add: add.commute)
qed simp

lemma be_put_get: "be_put (length bs) (be_get bs) = bs"
proof (induction bs rule: rev_induct)
  case (snoc c bs)
  have "of_char c < (256::nat)" by (rule nat_of_char_less_256)
  then have "(be_get bs * 256 + of_char c) div 256 = be_get bs" by simp
  moreover have "char_of (be_get bs * 256 + of_char c :: nat) = c"
    by (metis char_of_mod_256 char_of_char mod_mult_self3)
  ultimately show ?case using snoc by simp
qed simp

section \<open>Words\<close>

lemma word_suc_less [word_nat]:
  fixes a b :: "'a::len word"
  assumes "a < b"
  shows "unat (a + 1) = Suc (unat a)"
proof -
  have "unat a < unat b" using assms by (simp add: word_less_nat_alt)
  moreover have "unat b < 2 ^ LENGTH('a)" by (rule unsigned_less)
  ultimately have "Suc (unat a) < 2 ^ LENGTH('a)" by linarith
  then show ?thesis by (simp add: unat_word_ariths)
qed

lemma word_suc_le:
  fixes a b :: "'a::len word"
  assumes "a < b"
  shows "a + 1 \<le> b"
  using assms by (simp add: inc_le)

lemma word_less_suc_iff:
  fixes a b c :: "'a::len word"
  assumes "a < b"
  shows "c < a + 1 \<longleftrightarrow> c \<le> a"
  using assms by (simp add: word_less_nat_alt word_le_nat_alt word_suc_less less_Suc_eq_le)

lemma word_suc_le_iff:
  fixes a b c :: "'a::len word"
  assumes "a < b"
  shows "a + 1 \<le> c \<longleftrightarrow> a < c"
  using word_less_suc_iff [OF assms, of c] by (simp flip: not_less)

lemma word_le_or: "(a :: 'a::len word) \<le> or a b"
proof -
  have "uint a \<le> or (uint a) (uint b)" by (rule or_greater_eq) simp
  then show ?thesis by (simp add: word_le_def unsigned_or_eq)
qed

lemma drop_bit_minus_one: "n \<le> LENGTH('a) \<Longrightarrow> drop_bit n (- 1 :: 'a::len word) = mask (LENGTH('a) - n)"
  by (rule bit_eqI) (auto simp: bit_drop_bit_eq bit_mask_iff)

text \<open>A half-open interval of words has as many elements as the difference of its ends.\<close>

lemma card_word_interval:
  fixes a b :: "'a::len word"
  assumes "a \<le> b"
  shows "card {x. a \<le> x \<and> x < b} = unat (b - a)"
proof -
  have small: "unat (word_of_nat n :: 'a word) = n" if "n < unat b" for n
  proof (rule of_nat_inverse)
    have "unat b < 2 ^ LENGTH('a)" by (rule unsigned_less)
    with that show "n < 2 ^ LENGTH('a)" by linarith
  qed simp
  have "unat ` {x. a \<le> x \<and> x < b} = {unat a..<unat b}"
  proof (intro set_eqI iffI)
    fix n assume n: "n \<in> {unat a..<unat b}"
    then show "n \<in> unat ` {x. a \<le> x \<and> x < b}"
      by (intro image_eqI [where x = "word_of_nat n"])
        (auto simp: small word_le_nat_alt word_less_nat_alt)
  qed (auto simp: word_le_nat_alt word_less_nat_alt)
  moreover have "card (unat ` {x. a \<le> x \<and> x < b}) = card {x. a \<le> x \<and> x < b}"
    by (intro card_image inj_onI) (simp add: word_unat_eq_iff)
  ultimately have "card {x. a \<le> x \<and> x < b} = card {unat a..<unat b}" by simp
  also have "\<dots> = unat (b - a)"
    using assms by (simp add: unat_sub)
  finally show ?thesis .
qed

section \<open>Prefixes and the byte order\<close>

lemma prefix_imp_le:
  fixes p s :: "'a::linorder list"
  assumes "prefix p s"
  shows "p \<le> s"
proof -
  obtain t where "s = p @ t" using assms by (auto elim: prefixE)
  moreover have "p \<le> p @ t" by (induction p) auto
  ultimately show ?thesis by simp
qed

text \<open>The keys that lie between a prefix and one of its extensions have that prefix too.\<close>

lemma prefix_interval:
  fixes p q k :: "'a::linorder list"
  assumes "p \<le> q" and "q \<le> k" and "prefix p k"
  shows "prefix p q"
  using assms
proof (induction p arbitrary: q k)
  case (Cons a p)
  from Cons.prems(3) obtain k' where k: "k = a # k'" and p: "prefix p k'"
    by (cases k) auto
  from Cons.prems(1) obtain b q' where q: "q = b # q'" by (cases q) auto
  from Cons.prems(1,2) k q have "a = b" and "p \<le> q'" and "q' \<le> k'"
    by (auto simp: Cons_le_Cons)
  with Cons.IH p q show ?case by auto
qed simp

section \<open>Lists\<close>

lemma map_filter_cong:
  "(\<And>x. x \<in> set xs \<Longrightarrow> P x = Q x) \<Longrightarrow> (\<And>x. x \<in> set xs \<Longrightarrow> f x = g x) \<Longrightarrow>
     map f (filter P xs) = map g (filter Q xs)"
  by (induction xs) auto

section \<open>Decimal numbers\<close>

text \<open>\<open>strconv.FormatUint\<close> in base ten, which is also the verb \<open>%d\<close>.\<close>

definition digit :: "nat \<Rightarrow> char" where "digit n = char_of (48 + n)"

fun decimal :: "nat \<Rightarrow> string" where
  "decimal n = (if n < 10 then [digit n] else decimal (n div 10) @ [digit (n mod 10)])"

declare decimal.simps [simp del]

definition undecimal :: "string \<Rightarrow> nat" where
  "undecimal = foldl (\<lambda>n c. 10 * n + (of_char c - 48)) 0"

lemma of_digit: "n < 10 \<Longrightarrow> of_char (digit n) = (48 + n :: nat)"
  by (simp add: digit_def of_char_of)

lemma undecimal_decimal: "undecimal (decimal n) = n"
proof (induction n rule: decimal.induct)
  case (1 n)
  then show ?case
    by (subst decimal.simps) (auto simp: undecimal_def of_digit)
qed

lemma decimal_inj: "decimal m = decimal n \<longleftrightarrow> m = n"
  by (metis undecimal_decimal)

lemma decimal_digits: "c \<in> set (decimal n) \<Longrightarrow> 48 \<le> (of_char c :: nat) \<and> (of_char c :: nat) \<le> 57"
proof (induction n rule: decimal.induct)
  case (1 n)
  then show ?case by (subst (asm) (2) decimal.simps) (auto simp: of_digit split: if_splits)
qed

end
