(* ===== verification/Addr.thy ===== *)
theory Addr
  imports AZ_Prelude
begin

unbundle bit_operations_syntax

text \<open>
  IP addresses: the parts of the standard package \<open>net/netip\<close> that the program uses, and
  \<open>src/utils/net.go\<close>. A \<open>netip.Addr\<close> is the zero value, an IPv4 address of 32 bits, or an IPv6
  address of 128 bits with a zone.
\<close>

datatype addr = NoAddr | V4 u32 | V6 "128 word" string

section \<open>The standard package\<close>

fun Is4 :: "addr \<Rightarrow> bool" where
  "Is4 (V4 _) = True"
| "Is4 _ = False"

fun Is4In6 :: "addr \<Rightarrow> bool" where
  "Is4In6 (V6 a _) \<longleftrightarrow> drop_bit 32 a = 0xffff"
| "Is4In6 _ = False"

text \<open>\<open>Unmap\<close> turns an IPv4-mapped IPv6 address into the IPv4 address.\<close>

fun Unmap :: "addr \<Rightarrow> addr" where
  "Unmap (V6 a z) = (if Is4In6 (V6 a z) then V4 (ucast a) else V6 a z)"
| "Unmap a = a"

text \<open>\<open>As4\<close> panics (\<^const>\<open>None\<close>) on the zero address and on an IPv6 address that is not mapped.\<close>

fun As4 :: "addr \<Rightarrow> bytes option" where
  "As4 (V4 u) = Some (be_put 4 (unat u))"
| "As4 (V6 a z) = (if Is4In6 (V6 a z) then Some (be_put 4 (unat (ucast a :: u32))) else None)"
| "As4 NoAddr = None"

text \<open>\<open>AddrFrom4\<close> on an array of four bytes.\<close>

definition AddrFrom4 :: "bytes \<Rightarrow> addr" where
  "AddrFrom4 b = V4 (word_of_nat (be_get b))"

text \<open>The address of \<open>Masked()\<close> for an IPv4 prefix: the bits after the prefix length cleared.\<close>

definition masked4 :: "u32 \<Rightarrow> nat \<Rightarrow> u32" where
  "masked4 u bits = u AND NOT (mask (32 - bits))"

section \<open>\<open>utils/net.go\<close>\<close>

definition AddrToUint32 :: "addr \<Rightarrow> u32 option" where
  "AddrToUint32 a = map_option (\<lambda>b. word_of_nat (be_get b)) (As4 a)"

definition Uint32ToAddr :: "u32 \<Rightarrow> addr" where
  "Uint32ToAddr u = (let b = be_put 4 (unat u) in AddrFrom4 b)"

lemma word_of_be [simp]: "word_of_nat (be_get (be_put 4 (unat (u :: u32)))) = u"
proof -
  have "unat u < 2 ^ LENGTH(32)" by (rule unsigned_less)
  then have "unat u < 256 ^ 4" by simp
  then show ?thesis by (simp add: be_get_put_small)
qed

lemma AddrToUint32_V4 [simp]: "AddrToUint32 (V4 u) = Some u"
  by (simp add: AddrToUint32_def)

lemma Uint32ToAddr_V4 [simp]: "Uint32ToAddr u = V4 u"
  by (simp add: Uint32ToAddr_def AddrFrom4_def)

lemma AddrToUint32_Unmap: "AddrToUint32 (Unmap a) = AddrToUint32 a"
  by (cases a) (auto simp: AddrToUint32_def)

lemma Is4_iff: "Is4 a \<longleftrightarrow> (\<exists>u. a = V4 u)"
  by (cases a) auto

end
