(* ===== verification/Lease_Pool.thy ===== *)
theory Lease_Pool
  imports AZ_Prelude
begin

text \<open>
  The interface that the mapper expects of its address pool: what \<open>allocate\<close> and \<open>release\<close>
  promise about the set of leased addresses, stated without the representation. The client's
  side is here too: a client that gives back only what it holds, and what a whole session of
  such a client observes. \<open>src/server/mapper/pool_test.go\<close> tests one such session.
\<close>

datatype request = Allocate | Release u32

text \<open>
  A session serves a list of requests and keeps the addresses that the client holds. A request
  to release an address that the client does not hold is not made.
\<close>

fun session :: "('p \<Rightarrow> u32 option \<times> 'p) \<Rightarrow> (u32 \<Rightarrow> 'p \<Rightarrow> 'p) \<Rightarrow> request list \<Rightarrow> 'p \<times> u32 list \<Rightarrow> 'p \<times> u32 list"
where
  "session alloc rel [] s = s"
| "session alloc rel (Allocate # rs) (p, held) =
     (case alloc p of (None, p') \<Rightarrow> session alloc rel rs (p', held)
      | (Some ip, p') \<Rightarrow> session alloc rel rs (p', ip # held))"
| "session alloc rel (Release ip # rs) (p, held) =
     (if ip \<in> set held then session alloc rel rs (rel ip p, remove1 ip held)
      else session alloc rel rs (p, held))"

locale lease_pool =
  fixes alloc :: "'p \<Rightarrow> u32 option \<times> 'p"
    and rel :: "u32 \<Rightarrow> 'p \<Rightarrow> 'p"
    and inv :: "'p \<Rightarrow> bool"
    and range_of :: "'p \<Rightarrow> u32 set"
    and leased_of :: "'p \<Rightarrow> u32 set"
  assumes leased_in_range: "inv p \<Longrightarrow> leased_of p \<subseteq> range_of p"
    and alloc_Some: "inv p \<Longrightarrow> alloc p = (Some ip, p') \<Longrightarrow>
      inv p' \<and> range_of p' = range_of p \<and> ip \<in> range_of p - leased_of p \<and>
      leased_of p' = insert ip (leased_of p)"
    and alloc_None: "inv p \<Longrightarrow> alloc p = (None, p') \<Longrightarrow>
      inv p' \<and> range_of p' = range_of p \<and> leased_of p = range_of p \<and> leased_of p' = leased_of p"
    and rel_leased: "inv p \<Longrightarrow> ip \<in> leased_of p \<Longrightarrow>
      inv (rel ip p) \<and> range_of (rel ip p) = range_of p \<and> leased_of (rel ip p) = leased_of p - {ip}"
begin

text \<open>The client holds each of its addresses once, and what it holds is what is leased.\<close>

definition holds :: "'p \<Rightarrow> u32 list \<Rightarrow> bool" where
  "holds p held \<longleftrightarrow> inv p \<and> distinct held \<and> set held = leased_of p"

lemma holds_alloc:
  assumes "holds p held" and "alloc p = (r, p')"
  shows "holds p' (case r of None \<Rightarrow> held | Some ip \<Rightarrow> ip # held) \<and> range_of p' = range_of p"
  using assms alloc_None [of p p'] alloc_Some [of p _ p']
  by (cases r) (auto simp: holds_def)

lemma holds_rel:
  assumes "holds p held" and "ip \<in> set held"
  shows "holds (rel ip p) (remove1 ip held) \<and> range_of (rel ip p) = range_of p"
  using assms rel_leased [of p ip] by (simp add: holds_def)

lemma session_holds:
  "holds p held \<Longrightarrow> session alloc rel rs (p, held) = (p', held') \<Longrightarrow>
     holds p' held' \<and> range_of p' = range_of p"
proof (induction rs arbitrary: p held)
  case (Cons r rs)
  show ?case
  proof (cases r)
    case Allocate
    obtain a q where a: "alloc p = (a, q)" by force
    from holds_alloc [OF Cons.prems(1) a] Cons.IH Cons.prems(2) Allocate a
    show ?thesis by (cases a) fastforce+
  next
    case (Release ip)
    with holds_rel [OF Cons.prems(1), of ip] Cons show ?thesis
      by (fastforce split: if_splits)
  qed
qed simp

text \<open>Giving back several addresses, as the mapper does after a cleaning round.\<close>

lemma rel_all:
  "inv p \<Longrightarrow> distinct ips \<Longrightarrow> set ips \<subseteq> leased_of p \<Longrightarrow>
     inv (fold rel ips p) \<and> range_of (fold rel ips p) = range_of p \<and>
     leased_of (fold rel ips p) = leased_of p - set ips"
proof (induction ips arbitrary: p)
  case (Cons ip ips)
  from Cons.prems rel_leased [of p ip]
  have "inv (rel ip p)" "range_of (rel ip p) = range_of p" "leased_of (rel ip p) = leased_of p - {ip}"
    by auto
  moreover from this Cons.prems have "set ips \<subseteq> leased_of (rel ip p)" by auto
  ultimately show ?case using Cons.IH [of "rel ip p"] Cons.prems by auto
qed simp

lemma session_next:
  assumes "holds p held" and "alloc p = (r, p')"
  shows "case r of None \<Rightarrow> set held = range_of p | Some ip \<Rightarrow> ip \<in> range_of p - set held"
  using assms alloc_None [of p p'] alloc_Some [of p _ p']
  by (cases r) (auto simp: holds_def)

lemma session_bound:
  assumes "holds p held" and "finite (range_of p)"
  shows "length held \<le> card (range_of p)"
  using assms leased_in_range [of p] card_mono [of "range_of p" "set held"]
  by (simp add: holds_def flip: distinct_card)

end

end
