(* ===== verification/IP_Pool.thy ===== *)
theory IP_Pool
  imports Addr Lease_Pool
begin

text \<open>
  The pool of fake addresses, \<open>src/server/mapper/pool.go\<close>. The state is the struct \<open>ipPool\<close>
  without its mutex: every operation holds \<open>p.mu\<close> from its first to its last statement, so an
  operation is one atomic step. \<open>adopted\<close> is \<^const>\<open>None\<close> for the nil map.
\<close>

record ipPool =
  network :: u32
  cursor :: u32
  broadcast :: u32
  freed :: "u32 list"
  head :: nat
  adopted :: "u32 set option"
  maxAdopt :: u32

section \<open>Operations\<close>

definition newIPPool :: "u32 \<Rightarrow> nat \<Rightarrow> ipPool" where
  "newIPPool ip bits =
     (let net = masked4 ip bits; wildcard = drop_bit bits (- 1)
      in \<lparr>network = net, cursor = net, broadcast = net OR wildcard,
          freed = [], head = 0, adopted = None, maxAdopt = 0\<rparr>)"

definition inRange :: "ipPool \<Rightarrow> u32 \<Rightarrow> bool" where
  "inRange p ip \<longleftrightarrow> network p \<le> ip \<and> ip < broadcast p"

definition capacity :: "ipPool \<Rightarrow> u32" where
  "capacity p = broadcast p - network p"

definition isAdopted :: "ipPool \<Rightarrow> u32 \<Rightarrow> bool" where
  "isAdopted p ip \<longleftrightarrow> (case adopted p of None \<Rightarrow> False | Some a \<Rightarrow> ip \<in> a)"

definition markAdopted :: "u32 \<Rightarrow> ipPool \<Rightarrow> ipPool" where
  "markAdopted ip p =
     (let p = (if adopted p = None then p\<lparr>adopted := Some {}\<rparr> else p);
          p = p\<lparr>adopted := map_option (insert ip) (adopted p)\<rparr>
      in if ip > maxAdopt p then p\<lparr>maxAdopt := ip\<rparr> else p)"

text \<open>The second part of \<open>allocate\<close>: the loop that moves the cursor over adopted addresses.\<close>

function cursorLoop :: "ipPool \<Rightarrow> u32 option \<times> ipPool" where
  "cursorLoop p =
     (if cursor p < broadcast p then
        let ip = cursor p; p = p\<lparr>cursor := cursor p + 1\<rparr>
        in case adopted p of
             None \<Rightarrow> (Some ip, p)
           | Some a \<Rightarrow>
               let taken = ip \<in> a;
                   p = (if cursor p > maxAdopt p then p\<lparr>adopted := None\<rparr> else p)
               in if taken then cursorLoop p else (Some ip, p)
      else (None, p))"
  by pat_completeness auto
termination
proof (relation "measure (\<lambda>p. unat (broadcast p) - unat (cursor p))", goal_cases)
  case (2 p ip q a taken r)
  then have less: "cursor p < broadcast p" and r: "cursor r = cursor p + 1" "broadcast r = broadcast p"
    by (auto split: if_splits)
  have "unat (cursor p) < unat (broadcast p)"
    using less by (simp add: word_less_nat_alt)
  then show ?case using less r by (simp add: word_suc_less)
qed simp

declare cursorLoop.simps [simp del]

definition allocate :: "ipPool \<Rightarrow> u32 option \<times> ipPool" where
  "allocate p =
     (if head p < length (freed p) then
        let ip = freed p ! head p;
            p = p\<lparr>head := head p + 1\<rparr>;
            p = (if head p = length (freed p) then p\<lparr>freed := [], head := 0\<rparr> else p)
        in (Some ip, p)
      else cursorLoop p)"

text \<open>The comparison of \<open>compactFreed\<close> is on Go \<open>int\<close>, so the subtraction is one on \<^typ>\<open>int\<close>.\<close>

definition compactFreed :: "ipPool \<Rightarrow> ipPool" where
  "compactFreed p =
     (if head p > 0 \<and> int (head p) \<ge> int (length (freed p)) - int (head p)
      then p\<lparr>freed := drop (head p) (freed p), head := 0\<rparr> else p)"

definition release :: "u32 \<Rightarrow> ipPool \<Rightarrow> ipPool" where
  "release ip p = (let p = compactFreed p in p\<lparr>freed := freed p @ [ip]\<rparr>)"


section \<open>What the state means\<close>

text \<open>
  \<open>queue\<close> is the queue of released addresses, \<open>fresh\<close> the addresses that the cursor will still
  hand out. An address of the range that is in neither is leased: somebody holds it.
\<close>

definition queue :: "ipPool \<Rightarrow> u32 list" where
  "queue p = drop (head p) (freed p)"

definition fresh :: "ipPool \<Rightarrow> u32 set" where
  "fresh p = {ip. cursor p \<le> ip \<and> ip < broadcast p \<and> \<not> isAdopted p ip}"

definition space :: "ipPool \<Rightarrow> u32 set" where
  "space p = {ip. inRange p ip}"

definition leased :: "ipPool \<Rightarrow> u32 set" where
  "leased p = space p - set (queue p) - fresh p"

definition pool_inv :: "ipPool \<Rightarrow> bool" where
  "pool_inv p \<longleftrightarrow>
     network p \<le> cursor p \<and> cursor p \<le> broadcast p \<and>
     (head p < length (freed p) \<or> head p = 0) \<and>
     distinct (queue p) \<and> set (queue p) \<subseteq> space p \<and> set (queue p) \<inter> fresh p = {} \<and>
     (\<forall>a. adopted p = Some a \<longrightarrow> (\<forall>ip \<in> a. ip \<le> maxAdopt p))"

lemmas pool_defs = queue_def fresh_def space_def leased_def isAdopted_def inRange_def

lemma pool_inv_head: "pool_inv p \<Longrightarrow> head p \<le> length (freed p)"
  by (auto simp: pool_inv_def)

lemma fresh_subset_space: "pool_inv p \<Longrightarrow> fresh p \<subseteq> space p"
  by (auto simp: pool_inv_def pool_defs)

lemma leased_subset_space: "leased p \<subseteq> space p"
  by (auto simp: leased_def)

lemma card_space: "pool_inv p \<Longrightarrow> card (space p) = unat (capacity p)"
  by (auto simp: space_def inRange_def capacity_def pool_inv_def intro!: card_word_interval)

section \<open>A new pool, and adoption\<close>

lemma newIPPool_fields:
  assumes "bits \<le> 32"
  shows "network (newIPPool ip bits) = masked4 ip bits"
    and "broadcast (newIPPool ip bits) = masked4 ip bits + mask (32 - bits)"
proof -
  have "masked4 ip bits AND mask (32 - bits) = 0"
    by (simp add: masked4_def and.assoc)
  then show "broadcast (newIPPool ip bits) = masked4 ip bits + mask (32 - bits)"
    using assms by (simp add: newIPPool_def Let_def drop_bit_minus_one disjunctive_add_eq_or)
qed (simp add: newIPPool_def Let_def)

lemma newIPPool_inv: "pool_inv (newIPPool ip bits)"
  by (simp add: pool_inv_def newIPPool_def queue_def Let_def word_le_or)

lemma newIPPool_leased: "leased (newIPPool ip bits) = {}"
  by (auto simp: pool_defs newIPPool_def Let_def)

lemma newIPPool_capacity:
  assumes "bits \<le> 32"
  shows "capacity (newIPPool ip bits) = mask (32 - bits)"
  by (simp add: capacity_def newIPPool_fields [OF assms])

lemma markAdopted_frame [simp]:
  "network (markAdopted ip p) = network p" "broadcast (markAdopted ip p) = broadcast p"
  "cursor (markAdopted ip p) = cursor p" "queue (markAdopted ip p) = queue p"
  "freed (markAdopted ip p) = freed p" "head (markAdopted ip p) = head p"
  "space (markAdopted ip p) = space p"
  by (simp_all add: markAdopted_def Let_def queue_def space_def inRange_def)

lemma isAdopted_markAdopted [simp]:
  "isAdopted (markAdopted ip p) x \<longleftrightarrow> x = ip \<or> isAdopted p x"
  by (auto simp: markAdopted_def isAdopted_def Let_def split: option.splits)

lemma fresh_markAdopted: "fresh (markAdopted ip p) = fresh p - {ip}"
  by (auto simp: fresh_def)

lemma markAdopted_inv: "pool_inv p \<Longrightarrow> pool_inv (markAdopted ip p)"
  unfolding pool_inv_def fresh_markAdopted
  by (auto simp: markAdopted_def Let_def queue_def space_def inRange_def split: if_splits)
    (meson order.trans order.strict_implies_order linorder_not_less)+

lemma markAdopted_leased:
  assumes "pool_inv p" and "ip \<in> fresh p"
  shows "leased (markAdopted ip p) = insert ip (leased p)"
  using assms by (auto simp: leased_def fresh_markAdopted pool_inv_def space_def fresh_def inRange_def)

section \<open>Allocation\<close>

text \<open>One turn of the loop: the cursor moves, and the adopted set is dropped behind it.\<close>

definition bump :: "ipPool \<Rightarrow> ipPool" where
  "bump p = (let p = p\<lparr>cursor := cursor p + 1\<rparr>
             in if adopted p \<noteq> None \<and> cursor p > maxAdopt p then p\<lparr>adopted := None\<rparr> else p)"

lemma cursorLoop_bump:
  "cursorLoop p =
     (if cursor p < broadcast p
      then if isAdopted p (cursor p) then cursorLoop (bump p) else (Some (cursor p), bump p)
      else (None, p))"
  by (subst cursorLoop.simps) (simp add: bump_def isAdopted_def Let_def split: option.split)

lemma bump_frame [simp]:
  "network (bump p) = network p" "broadcast (bump p) = broadcast p" "queue (bump p) = queue p"
  "freed (bump p) = freed p" "head (bump p) = head p" "cursor (bump p) = cursor p + 1"
  "space (bump p) = space p"
  by (simp_all add: bump_def Let_def queue_def space_def inRange_def)

lemma isAdopted_bump:
  assumes "pool_inv p" and "cursor p < broadcast p" and "cursor p < x"
  shows "isAdopted (bump p) x \<longleftrightarrow> isAdopted p x"
proof (cases "adopted p")
  case (Some a)
  then have "\<forall>ip \<in> a. ip \<le> maxAdopt p" using assms(1) by (simp add: pool_inv_def)
  then have "x \<notin> a" if "maxAdopt p < cursor p + 1"
    using that assms(3) word_less_suc_iff [OF assms(2)] by force
  with Some show ?thesis by (auto simp: bump_def isAdopted_def Let_def)
qed (simp add: bump_def isAdopted_def Let_def)

lemma fresh_bump:
  assumes "pool_inv p" and "cursor p < broadcast p"
  shows "fresh (bump p) = fresh p - {cursor p}"
proof (rule set_eqI)
  fix x
  have "x \<in> fresh (bump p) \<longleftrightarrow> cursor p < x \<and> x < broadcast p \<and> \<not> isAdopted (bump p) x"
    by (simp add: fresh_def word_suc_le_iff [OF assms(2)])
  also have "\<dots> \<longleftrightarrow> cursor p < x \<and> x < broadcast p \<and> \<not> isAdopted p x"
    using isAdopted_bump [OF assms] by blast
  also have "\<dots> \<longleftrightarrow> x \<in> fresh p - {cursor p}"
    by (simp add: fresh_def less_le) blast
  finally show "x \<in> fresh (bump p) \<longleftrightarrow> x \<in> fresh p - {cursor p}" .
qed

lemma bump_inv:
  assumes "pool_inv p" and "cursor p < broadcast p"
  shows "pool_inv (bump p)"
proof -
  have "cursor p \<le> cursor p + 1"
    using word_less_suc_iff [OF assms(2), of "cursor p"] by simp
  moreover have "network p \<le> cursor p" using assms(1) by (simp add: pool_inv_def)
  ultimately have "network p \<le> cursor p + 1" by simp
  moreover have "\<forall>a. adopted (bump p) = Some a \<longrightarrow> (\<forall>ip \<in> a. ip \<le> maxAdopt (bump p))"
    using assms(1) by (auto simp: pool_inv_def bump_def Let_def)
  ultimately show ?thesis
    using assms(1) fresh_bump [OF assms] word_suc_le [OF assms(2)]
    by (simp add: pool_inv_def) blast
qed

text \<open>The turns of the loop end, so a property of the loop is proved by induction on them.\<close>

lemma cursorLoop_turns:
  assumes turn: "\<And>p. (cursor p < broadcast p \<Longrightarrow> isAdopted p (cursor p) \<Longrightarrow> P (bump p)) \<Longrightarrow> P p"
  shows "P p"
proof (induction "unat (broadcast p) - unat (cursor p)" arbitrary: p rule: less_induct)
  case less
  show ?case
  proof (rule turn)
    assume c: "cursor p < broadcast p"
    then have "unat (cursor p) < unat (broadcast p)" by (simp add: word_less_nat_alt)
    with c show "P (bump p)" by (intro less) (simp add: word_suc_less)
  qed
qed

lemma cursorLoop_frame:
  "cursorLoop p = (r, p') \<Longrightarrow>
     network p' = network p \<and> broadcast p' = broadcast p \<and> queue p' = queue p \<and>
     space p' = space p"
  by (induction p rule: cursorLoop_turns)
    (subst (asm) (2) cursorLoop_bump, auto split: if_splits)

text \<open>The loop takes the first fresh address, and gives up only when there is none.\<close>

lemma cursorLoop_fresh:
  "pool_inv p \<Longrightarrow> cursorLoop p = (r, p') \<Longrightarrow>
     pool_inv p' \<and>
     (case r of Some ip \<Rightarrow> ip \<in> fresh p \<and> fresh p' = fresh p - {ip}
      | None \<Rightarrow> fresh p = {} \<and> fresh p' = {})"
proof (induction p rule: cursorLoop_turns)
  case (1 p)
  consider (stop) "\<not> cursor p < broadcast p"
    | (taken) "cursor p < broadcast p" "isAdopted p (cursor p)"
    | (free) "cursor p < broadcast p" "\<not> isAdopted p (cursor p)"
    by blast
  then show ?case
  proof cases
    case stop
    then have "fresh p = {}" by (auto simp: fresh_def)
    moreover have "r = None \<and> p' = p"
      using stop "1.prems"(2) by (subst (asm) cursorLoop_bump) simp
    ultimately show ?thesis using "1.prems"(1) by simp
  next
    case taken
    have same: "fresh (bump p) = fresh p"
      using taken fresh_bump [OF "1.prems"(1)] by (auto simp: fresh_def)
    have "cursorLoop (bump p) = (r, p')"
      using taken "1.prems"(2) by (subst (asm) cursorLoop_bump) simp
    from "1.IH" [OF taken bump_inv [OF "1.prems"(1) taken(1)] this] show ?thesis
      by (simp only: same)
  next
    case free
    then have "r = Some (cursor p) \<and> p' = bump p"
      using "1.prems"(2) by (subst (asm) cursorLoop_bump) simp
    moreover have "cursor p \<in> fresh p" using free by (simp add: fresh_def)
    ultimately show ?thesis
      using fresh_bump [OF "1.prems"(1) free(1)] bump_inv [OF "1.prems"(1) free(1)] by simp
  qed
qed

lemma freed_frame [simp]:
  "fresh (p\<lparr>freed := f, head := h\<rparr>) = fresh p"
  "space (p\<lparr>freed := f, head := h\<rparr>) = space p"
  "queue (p\<lparr>freed := f, head := h\<rparr>) = drop h f"
  by (simp_all add: fresh_def isAdopted_def space_def inRange_def queue_def)

lemma allocate_queue:
  assumes "pool_inv p" and "queue p \<noteq> []" and "allocate p = (r, p')"
  shows "r = Some (hd (queue p))" and "queue p' = tl (queue p)" and "fresh p' = fresh p"
    and "space p' = space p" and "pool_inv p'"
proof -
  have h: "head p < length (freed p)"
    using assms(2) by (simp add: queue_def)
  then have r: "r = Some (freed p ! head p)"
    and p': "p' = p\<lparr>freed := (if Suc (head p) = length (freed p) then [] else freed p),
      head := (if Suc (head p) = length (freed p) then 0 else Suc (head p))\<rparr>"
    using assms(3) by (auto simp: allocate_def Let_def)
  show "r = Some (hd (queue p))" using h r by (simp add: hd_drop_conv_nth queue_def)
  have "queue p = freed p ! head p # drop (Suc (head p)) (freed p)"
    using h by (simp add: queue_def Cons_nth_drop_Suc)
  then show q: "queue p' = tl (queue p)" by (simp add: p')
  show f: "fresh p' = fresh p" and s: "space p' = space p" by (simp_all add: p')
  have "set (tl (queue p)) \<subseteq> set (queue p)" by (cases "queue p") auto
  with assms(1) q f s h show "pool_inv p'"
    by (auto simp: pool_inv_def distinct_tl p')
qed

lemma allocate_cursor: "queue p = [] \<Longrightarrow> allocate p = cursorLoop p"
  by (simp add: allocate_def queue_def)

section \<open>Release\<close>

lemma compactFreed_queue: "queue (compactFreed p) = queue p"
  by (simp add: compactFreed_def queue_def)

lemma release_frame:
  "fresh (release ip p) = fresh p" "space (release ip p) = space p"
  by (simp_all add: release_def compactFreed_def Let_def fresh_def isAdopted_def space_def inRange_def)

lemma release_queue: "head p \<le> length (freed p) \<Longrightarrow> queue (release ip p) = queue p @ [ip]"
  by (simp add: release_def compactFreed_def queue_def Let_def)

lemma release_inv:
  assumes "pool_inv p" and "ip \<in> leased p"
  shows "pool_inv (release ip p)"
proof -
  have "queue (release ip p) = queue p @ [ip]"
    using assms(1) by (simp add: release_queue pool_inv_head)
  moreover have "head (release ip p) < length (freed (release ip p))"
    using pool_inv_head [OF assms(1)] by (simp add: release_def compactFreed_def Let_def)
  moreover have "network (release ip p) = network p" "cursor (release ip p) = cursor p"
    "broadcast (release ip p) = broadcast p" "adopted (release ip p) = adopted p"
    "maxAdopt (release ip p) = maxAdopt p"
    by (simp_all add: release_def compactFreed_def Let_def)
  ultimately show ?thesis
    using assms by (auto simp: pool_inv_def release_frame leased_def)
qed

text \<open>
  The slice \<open>freed\<close> keeps consumed cells in front of the head. The compaction in \<open>release\<close>
  bounds that waste: right after a release the slice is at most twice as long as the queue.
\<close>

lemma release_compact:
  assumes "pool_inv p"
  shows "length (freed (release ip p)) \<le> 2 * length (queue (release ip p))"
  using pool_inv_head [OF assms]
  by (auto simp: release_def compactFreed_def queue_def Let_def)

section \<open>The pool implements the interface\<close>

lemma allocate_laws:
  assumes "pool_inv p" and "allocate p = (r, p')"
  shows "pool_inv p' \<and> space p' = space p \<and>
    (case r of Some ip \<Rightarrow> ip \<in> space p - leased p \<and> leased p' = insert ip (leased p)
     | None \<Rightarrow> leased p = space p \<and> leased p' = leased p)"
proof (cases "queue p = []")
  case True
  then have c: "cursorLoop p = (r, p')" using assms(2) by (simp add: allocate_cursor)
  with cursorLoop_frame [OF c] cursorLoop_fresh [OF assms(1) c] True fresh_subset_space [OF assms(1)]
  show ?thesis by (auto simp: leased_def split: option.splits)
next
  case False
  note q = allocate_queue [OF assms(1) False assms(2)]
  have "set (queue p) = insert (hd (queue p)) (set (tl (queue p)))" and
    "hd (queue p) \<notin> set (tl (queue p))" and "hd (queue p) \<in> set (queue p)"
    using False assms(1) by (cases "queue p"; auto simp: pool_inv_def)+
  moreover have "set (queue p) \<subseteq> space p" and "set (queue p) \<inter> fresh p = {}"
    using assms(1) by (simp_all add: pool_inv_def)
  ultimately show ?thesis using q by (auto simp: leased_def)
qed

interpretation pool: lease_pool allocate release pool_inv space leased
proof unfold_locales
  fix p ip p'
  assume "pool_inv p"
  show "leased p \<subseteq> space p" by (rule leased_subset_space)
  show "pool_inv p' \<and> space p' = space p \<and> ip \<in> space p - leased p \<and> leased p' = insert ip (leased p)"
    if "allocate p = (Some ip, p')"
    using allocate_laws [OF \<open>pool_inv p\<close> that] by simp
  show "pool_inv p' \<and> space p' = space p \<and> leased p = space p \<and> leased p' = leased p"
    if "allocate p = (None, p')"
    using allocate_laws [OF \<open>pool_inv p\<close> that] by simp
  show "pool_inv (release ip p) \<and> space (release ip p) = space p \<and>
      leased (release ip p) = leased p - {ip}" if "ip \<in> leased p"
    using release_inv [OF \<open>pool_inv p\<close> that] that
    by (auto simp: leased_def release_frame release_queue pool_inv_head \<open>pool_inv p\<close>)
qed

text \<open>A pool that adopted some addresses, as the mapper's constructor builds it.\<close>

definition adoptAll :: "u32 list \<Rightarrow> ipPool \<Rightarrow> ipPool" where
  "adoptAll ips p = fold markAdopted ips p"

lemma adoptAll_leased:
  "pool_inv p \<Longrightarrow> set ips \<subseteq> fresh p \<Longrightarrow> distinct ips \<Longrightarrow>
     pool_inv (adoptAll ips p) \<and> leased (adoptAll ips p) = leased p \<union> set ips \<and>
     space (adoptAll ips p) = space p"
proof (induction ips arbitrary: p)
  case (Cons ip ips)
  have "set ips \<subseteq> fresh (markAdopted ip p)"
    using Cons.prems by (auto simp: fresh_markAdopted)
  with Cons.IH [of "markAdopted ip p"] Cons.prems
  show ?case by (auto simp: adoptAll_def markAdopted_inv markAdopted_leased)
qed (simp add: adoptAll_def)

section \<open>The properties of the pool\<close>

text \<open>The addresses of a prefix, without the last one (the broadcast address).\<close>

definition prefix_range :: "u32 \<Rightarrow> nat \<Rightarrow> u32 set" where
  "prefix_range ip bits = {x. masked4 ip bits \<le> x \<and> x < masked4 ip bits + mask (32 - bits)}"

lemma newIPPool_space: "bits \<le> 32 \<Longrightarrow> space (newIPPool ip bits) = prefix_range ip bits"
  by (simp add: prefix_range_def space_def inRange_def newIPPool_fields)

lemma card_newIPPool:
  assumes "bits \<le> 32"
  shows "card (space (newIPPool ip bits)) = 2 ^ (32 - bits) - 1"
proof -
  have "uint (mask (32 - bits) :: u32) = 2 ^ (32 - bits) - 1"
    by (simp only: uint_mask_eq) (simp add: mask_eq_exp_minus_1)
  then have "unat (mask (32 - bits) :: u32) = nat (2 ^ (32 - bits) - 1)"
    by (simp only: unat_eq_nat_uint)
  then have "unat (mask (32 - bits) :: u32) = 2 ^ (32 - bits) - 1" by (simp add: nat_diff_distrib nat_power_eq)
  then show ?thesis
    using card_space [OF newIPPool_inv, of ip bits] newIPPool_capacity [OF assms, of ip] by simp
qed

lemma newIPPool_fresh: "fresh (newIPPool ip bits) = space (newIPPool ip bits)"
  by (auto simp: pool_defs newIPPool_def Let_def)

text \<open>A new pool that adopted \<open>ips\<close>, for a client that holds them.\<close>

lemma adopted_holds:
  assumes "set ips \<subseteq> space (newIPPool ip bits)" and "distinct ips"
  shows "pool.holds (adoptAll ips (newIPPool ip bits)) ips \<and>
    space (adoptAll ips (newIPPool ip bits)) = space (newIPPool ip bits)"
  using adoptAll_leased [OF newIPPool_inv, of ips ip bits] assms
  by (simp add: pool.holds_def newIPPool_leased newIPPool_fresh)

text \<open>
  C30. Over any sequence of \<open>allocate\<close> and \<open>release\<close> calls on a pool that adopted some addresses
  of its range at the start, the addresses that are out are pairwise different and lie in the
  range of the prefix (network address included, broadcast address excluded); the next \<open>allocate\<close>
  gives an address that is not out, and it fails only when every address of the range is out.
\<close>

theorem pool_session_safe:
  assumes "bits \<le> 32" and "set ips \<subseteq> {x. inRange (newIPPool ip bits) x}" and "distinct ips"
    and "session allocate release rs (adoptAll ips (newIPPool ip bits), ips) = (p, held)"
  shows "distinct held \<and> set held \<subseteq> prefix_range ip bits \<and> length held \<le> 2 ^ (32 - bits) - 1 \<and>
    (case fst (allocate p) of None \<Rightarrow> set held = prefix_range ip bits
     | Some x \<Rightarrow> x \<in> prefix_range ip bits - set held)"
proof -
  have "set ips \<subseteq> space (newIPPool ip bits)" using assms(2) by (simp add: space_def)
  note start = adopted_holds [OF this assms(3)]
  with pool.session_holds [OF _ assms(4)]
  have h: "pool.holds p held" and sp: "space p = space (newIPPool ip bits)" by auto
  have range: "space p = prefix_range ip bits" using sp newIPPool_space [OF assms(1)] by simp
  have "card (space p) = 2 ^ (32 - bits) - 1" using card_newIPPool [OF assms(1)] sp by simp
  with pool.session_bound [OF h] have "length held \<le> 2 ^ (32 - bits) - 1" by simp
  moreover obtain r p' where "allocate p = (r, p')" by force
  with pool.session_next [OF h this] range
  have "case fst (allocate p) of None \<Rightarrow> set held = prefix_range ip bits
     | Some x \<Rightarrow> x \<in> prefix_range ip bits - set held" by (cases r) simp_all
  moreover have "distinct held \<and> set held \<subseteq> prefix_range ip bits"
    using h pool.leased_in_range [of p] range by (simp add: pool.holds_def)
  ultimately show ?thesis by blast
qed

text \<open>A pool of the prefix \<open>10.30.0.0/30\<close> that adopted \<open>10.30.0.1\<close>.\<close>

lemma pool_session_safe_witness:
  "session allocate release [Allocate, Release 0x0A1E0001, Allocate]
     (adoptAll [0x0A1E0001] (newIPPool 0x0A1E0000 30), [0x0A1E0001]) =
     (\<lparr>network = 0x0A1E0000, cursor = 0x0A1E0001, broadcast = 0x0A1E0003, freed = [], head = 0,
       adopted = Some {0x0A1E0001}, maxAdopt = 0x0A1E0001\<rparr>, [0x0A1E0001, 0x0A1E0000]) \<and>
   set [0x0A1E0001, 0x0A1E0000] \<subseteq> {x :: u32. 0x0A1E0000 \<le> x \<and> x < 0x0A1E0003}"
proof -
  let ?p = "\<lparr>network = 0x0A1E0000, cursor = 0x0A1E0001, broadcast = 0x0A1E0003, freed = [], head = 0,
       adopted = Some {0x0A1E0001}, maxAdopt = 0x0A1E0001\<rparr>"
  have s: "session allocate release [Allocate, Release 0x0A1E0001, Allocate]
     (adoptAll [0x0A1E0001] (newIPPool 0x0A1E0000 30), [0x0A1E0001]) =
     (?p, [0x0A1E0001, 0x0A1E0000])"
    by (simp add: adoptAll_def newIPPool_def masked4_def markAdopted_def allocate_def release_def
        compactFreed_def Let_def cursorLoop.simps mask_eq_exp_minus_1)
  have "set [0x0A1E0001] \<subseteq> {x. inRange (newIPPool 0x0A1E0000 30) x}"
    by (simp add: inRange_def newIPPool_def Let_def masked4_def mask_eq_exp_minus_1)
  from pool_session_safe [OF _ this _ s] s show ?thesis
    by (simp add: prefix_range_def masked4_def mask_eq_exp_minus_1)
qed

text \<open>Several calls of \<open>allocate\<close> in a row.\<close>

fun allocateMany :: "nat \<Rightarrow> ipPool \<Rightarrow> u32 option list" where
  "allocateMany 0 p = []"
| "allocateMany (Suc n) p = (case allocate p of (r, p') \<Rightarrow> r # allocateMany n p')"

lemma allocateMany_queue:
  "pool_inv p \<Longrightarrow> n \<le> length (queue p) \<Longrightarrow> allocateMany n p = map Some (take n (queue p))"
proof (induction n arbitrary: p)
  case (Suc n)
  obtain r p' where a: "allocate p = (r, p')" by force
  have ne: "queue p \<noteq> []" using Suc.prems(2) by auto
  note q = allocate_queue [OF Suc.prems(1) ne a]
  have "allocateMany n p' = map Some (take n (tl (queue p)))"
    using Suc.IH [OF q(5)] Suc.prems(2) q(2) by simp
  with q(1) a ne show ?case by (cases "queue p") simp_all
qed simp

lemma queue_releases:
  "pool_inv p \<Longrightarrow> distinct ips \<Longrightarrow> set ips \<subseteq> leased p \<Longrightarrow>
     queue (fold release ips p) = queue p @ ips"
proof (induction ips arbitrary: p)
  case (Cons ip ips)
  then have "pool_inv (release ip p)" "set ips \<subseteq> leased (release ip p)"
    using pool.rel_leased [of p ip] by auto
  with Cons show ?case by (simp add: release_queue pool_inv_head)
qed simp

text \<open>
  Released addresses wait in first-in first-out order: after any releases, the next calls
  of \<open>allocate\<close> give out first the addresses that waited before, then the released ones, each
  in the order of its release, and no fresh address before them. The compaction of the slice
  does not disturb the order.
\<close>

lemma pool_fifo:
  assumes "pool_inv p" and "distinct ips" and "set ips \<subseteq> leased p"
  shows "allocateMany (length (queue p) + length ips) (fold release ips p) =
    map Some (queue p @ ips)"
proof -
  have "pool_inv (fold release ips p)" using pool.rel_all [OF assms] by simp
  with queue_releases [OF assms] show ?thesis
    using allocateMany_queue [of "fold release ips p" "length (queue p) + length ips"] by simp
qed

lemma pool_fifo_witness:
  "let p = snd (allocate (snd (allocate (newIPPool 0x0A1E0000 24))))
   in allocateMany 2 (fold release [0x0A1E0001, 0x0A1E0000] p) = [Some 0x0A1E0001, Some 0x0A1E0000]"
proof -
  let ?p = "snd (allocate (snd (allocate (newIPPool 0x0A1E0000 24))))"
  have p: "?p = \<lparr>network = 0x0A1E0000, cursor = 0x0A1E0002, broadcast = 0x0A1E00FF, freed = [],
      head = 0, adopted = None, maxAdopt = 0\<rparr>"
    by (simp add: newIPPool_def masked4_def allocate_def Let_def cursorLoop.simps mask_eq_exp_minus_1)
  have "pool_inv ?p" unfolding p by (simp add: pool_inv_def queue_def)
  moreover have "set [0x0A1E0001, 0x0A1E0000] \<subseteq> leased ?p"
    unfolding p by (simp add: pool_defs)
  ultimately have "allocateMany (length (queue ?p) + length [0x0A1E0001, 0x0A1E0000 :: u32])
      (fold release [0x0A1E0001, 0x0A1E0000] ?p) = map Some (queue ?p @ [0x0A1E0001, 0x0A1E0000])"
    by (intro pool_fifo) simp_all
  moreover have "queue ?p = []" unfolding p by (simp add: queue_def)
  ultimately show ?thesis by (simp add: numeral_2_eq_2 Let_def)
qed

text \<open>The bound on the slice is kept by both operations, so the pool is a lease pool with it.\<close>

definition compact :: "ipPool \<Rightarrow> bool" where
  "compact p \<longleftrightarrow> length (freed p) \<le> 2 * card (space p)"

lemma freed_allocate: "allocate p = (r, p') \<Longrightarrow> length (freed p') \<le> length (freed p)"
proof (cases "head p < length (freed p)")
  case False
  assume "allocate p = (r, p')"
  with False have "cursorLoop p = (r, p')" by (simp add: allocate_def)
  then show ?thesis
    by (induction p rule: cursorLoop_turns)
      (subst (asm) (2) cursorLoop_bump, auto split: if_splits)
qed (auto simp: allocate_def Let_def split: if_splits)

lemma compact_release:
  assumes "pool_inv p" and "ip \<in> leased p"
  shows "compact (release ip p)"
proof -
  have "pool_inv (release ip p)" by (rule release_inv [OF assms])
  then have "card (set (queue (release ip p))) \<le> card (space (release ip p))"
    and "distinct (queue (release ip p))"
    by (auto simp: pool_inv_def intro: card_mono)
  then have "length (queue (release ip p)) \<le> card (space (release ip p))"
    by (simp add: distinct_card)
  with release_compact [OF assms(1), of ip] show ?thesis by (simp add: compact_def)
qed

interpretation bounded: lease_pool allocate release "\<lambda>p. pool_inv p \<and> compact p" space leased
proof unfold_locales
  fix p ip p'
  assume i: "pool_inv p \<and> compact p"
  show "leased p \<subseteq> space p" by (rule leased_subset_space)
  show "(pool_inv p' \<and> compact p') \<and> space p' = space p \<and> ip \<in> space p - leased p \<and>
      leased p' = insert ip (leased p)" if "allocate p = (Some ip, p')"
    using pool.alloc_Some [of p, OF _ that] i freed_allocate [OF that] by (simp add: compact_def)
  show "(pool_inv p' \<and> compact p') \<and> space p' = space p \<and> leased p = space p \<and> leased p' = leased p"
    if "allocate p = (None, p')"
    using pool.alloc_None [of p, OF _ that] i freed_allocate [OF that] by (simp add: compact_def)
  show "(pool_inv (release ip p) \<and> compact (release ip p)) \<and> space (release ip p) = space p \<and>
      leased (release ip p) = leased p - {ip}" if "ip \<in> leased p"
    using pool.rel_leased [of p, OF _ that] i compact_release [of p, OF _ that] by simp
qed

text \<open>
  The slice of released addresses stays bounded: at any time of any session it has at most
  twice as many cells as the pool has addresses, although \<open>allocate\<close> leaves consumed cells in
  front of the head.
\<close>

lemma pool_freed_bounded:
  assumes "bits \<le> 32" and "session allocate release rs (newIPPool ip bits, []) = (p, held)"
  shows "length (freed p) \<le> 2 * (2 ^ (32 - bits) - 1)"
proof -
  have "compact (newIPPool ip bits)" by (simp add: compact_def newIPPool_def Let_def)
  then have "bounded.holds (newIPPool ip bits) []"
    by (simp add: bounded.holds_def newIPPool_inv newIPPool_leased)
  from bounded.session_holds [OF this assms(2)]
  have "compact p" and "space p = space (newIPPool ip bits)" by (simp_all add: bounded.holds_def)
  with card_newIPPool [OF assms(1)] show ?thesis by (simp add: compact_def)
qed

lemma pool_freed_bounded_witness:
  "length (freed (fst (session allocate release [Allocate, Release 0x0A1E0000, Allocate, Release 0x0A1E0000]
     (newIPPool 0x0A1E0000 31, [])))) \<le> 2"
proof -
  obtain p held where "session allocate release [Allocate, Release 0x0A1E0000, Allocate, Release 0x0A1E0000]
     (newIPPool 0x0A1E0000 31, []) = (p, held)" by force
  from pool_freed_bounded [OF _ this] this show ?thesis by simp
qed

end
