(* ===== verification/Mapping_Table.thy ===== *)
theory Mapping_Table
  imports AZ_Prelude
begin

text \<open>
  The table of live mappings, \<open>src/server/mapper/table.go\<close>: a Go map from real addresses to
  entries with the fake address and the instant of the last use. Every operation holds the
  table's lock from its first to its last statement. \<open>time.Now()\<close> is the parameter \<open>now\<close>, in
  nanoseconds.
\<close>

record mapping =
  mfake :: u32
  lastSeen :: time

record pair =
  preal :: u32
  pfake :: u32

type_synonym mappingTable = "u32 \<rightharpoonup> mapping"

definition newMappingTable :: mappingTable where
  "newMappingTable = Map.empty"

definition tget :: "time \<Rightarrow> u32 \<Rightarrow> mappingTable \<Rightarrow> u32 option \<times> mappingTable" where
  "tget now real t =
     (case t real of
        Some e \<Rightarrow> (Some (mfake e), t(real \<mapsto> e\<lparr>lastSeen := now\<rparr>))
      | None \<Rightarrow> (None, t))"

definition tset :: "time \<Rightarrow> u32 \<Rightarrow> u32 \<Rightarrow> mappingTable \<Rightarrow> mappingTable" where
  "tset now real fake t = t(real \<mapsto> \<lparr>mfake = fake, lastSeen = now\<rparr>)"

definition thas :: "u32 \<Rightarrow> mappingTable \<Rightarrow> bool" where
  "thas real t \<longleftrightarrow> t real \<noteq> None"

definition tLen :: "mappingTable \<Rightarrow> nat" where
  "tLen t = card (dom t)"

text \<open>
  \<open>expired\<close> ranges over the Go map. Go visits every key that is not removed during the loop
  once, in an order the language leaves open: the order is the parameter \<open>ks\<close>.
\<close>

fun expireLoop :: "time \<Rightarrow> u32 list \<Rightarrow> mappingTable \<Rightarrow> pair list \<Rightarrow> pair list \<times> mappingTable" where
  "expireLoop cutoff [] t out = (out, t)"
| "expireLoop cutoff (realU # ks) t out =
     (case t realU of
        Some e \<Rightarrow>
          if lastSeen e \<le> cutoff
          then expireLoop cutoff ks (t(realU := None)) (out @ [\<lparr>preal = realU, pfake = mfake e\<rparr>])
          else expireLoop cutoff ks t out
      | None \<Rightarrow> expireLoop cutoff ks t out)"

definition expired :: "time \<Rightarrow> duration \<Rightarrow> u32 list \<Rightarrow> mappingTable \<Rightarrow> pair list \<times> mappingTable" where
  "expired now ttl ks t = (let cutoff = now - ttl in expireLoop cutoff ks t [])"

definition key_order :: "u32 list \<Rightarrow> mappingTable \<Rightarrow> bool" where
  "key_order ks t \<longleftrightarrow> distinct ks \<and> set ks = dom t"

section \<open>What the table says\<close>

text \<open>The mapping that the table stands for, and the fake addresses it uses.\<close>

definition fake_of :: "mappingTable \<Rightarrow> u32 \<rightharpoonup> u32" where
  "fake_of t = map_option mfake \<circ> t"

definition due :: "time \<Rightarrow> mappingTable \<Rightarrow> u32 \<Rightarrow> bool" where
  "due cutoff t r \<longleftrightarrow> (case t r of None \<Rightarrow> False | Some e \<Rightarrow> lastSeen e \<le> cutoff)"

definition pair_of :: "mappingTable \<Rightarrow> u32 \<Rightarrow> pair" where
  "pair_of t r = \<lparr>preal = r, pfake = mfake (the (t r))\<rparr>"

lemma fake_of_tget [simp]: "tget now r t = (f, t') \<Longrightarrow> fake_of t' = fake_of t \<and> f = fake_of t r"
  by (auto simp: tget_def fake_of_def split: option.splits)

lemma fake_of_tset [simp]: "fake_of (tset now r f t) = (fake_of t)(r \<mapsto> f)"
  by (auto simp: tset_def fake_of_def fun_eq_iff)

lemma fake_of_empty [simp]: "fake_of newMappingTable = Map.empty"
  by (simp add: newMappingTable_def fake_of_def fun_eq_iff)

lemma dom_fake_of [simp]: "dom (fake_of t) = dom t"
  by (auto simp: fake_of_def dom_def)

lemma fake_of_None: "fake_of t r = None \<longleftrightarrow> t r = None"
  by (simp add: fake_of_def)

lemma thas_iff: "thas r t \<longleftrightarrow> r \<in> dom (fake_of t)"
  by (auto simp: thas_def fake_of_def)

text \<open>
  \<open>expired\<close> splits the table: the entries that are due go to the output, each once and with its
  own fake, and the others stay as they are.
\<close>

lemma expireLoop_table:
  "distinct ks \<Longrightarrow>
     snd (expireLoop cutoff ks t out) = (\<lambda>r. if r \<in> set ks \<and> due cutoff t r then None else t r)"
proof (induction ks arbitrary: t out)
  case (Cons k ks)
  then have "k \<notin> set ks" and "distinct ks" by auto
  with Cons.IH show ?case
    by (auto simp: fun_eq_iff due_def split: option.split)
qed simp

lemma expireLoop_due:
  "expireLoop cutoff (k # ks) t out =
     (if due cutoff t k then expireLoop cutoff ks (t(k := None)) (out @ [pair_of t k])
      else expireLoop cutoff ks t out)"
  by (simp add: due_def pair_of_def split: option.split)

lemma expireLoop_out:
  "distinct ks \<Longrightarrow>
     fst (expireLoop cutoff ks t out) = out @ map (pair_of t) (filter (due cutoff t) ks)"
proof (induction ks arbitrary: t out)
  case (Cons k ks)
  have "map (pair_of (t(k := None))) (filter (due cutoff (t(k := None))) ks) =
      map (pair_of t) (filter (due cutoff t) ks)"
    using Cons.prems by (intro map_filter_cong) (auto simp: due_def pair_of_def)
  with Cons show ?case by (simp add: expireLoop_due del: expireLoop.simps(2) fun_upd_apply)
qed simp

lemma expired_split:
  assumes "key_order ks t"
  shows "fst (expired now ttl ks t) = map (pair_of t) (filter (due (now - ttl) t) ks)"
    and "snd (expired now ttl ks t) = (\<lambda>r. if due (now - ttl) t r then None else t r)"
  using assms
  by (auto simp: expired_def Let_def key_order_def expireLoop_table expireLoop_out due_def fun_eq_iff
      split: option.splits)

end
