(* ===== verification/Firewall.thy ===== *)
theory Firewall
  imports Addr
begin

text \<open>
  The interface \<open>firewall.Manager\<close> of \<open>src/server/firewall/firewall.go\<close>, through which the mapper
  programs DNAT rules, and the backend \<open>src/server/firewall/noop/noop.go\<close>. A manager is a record
  of its operations over a state \<^typ>\<open>'w\<close>, which holds the kernel's rules and whatever else the
  backend keeps.
\<close>

record fwMapping =
  Fake :: addr
  Real :: addr

record 'w manager =
  mAdd :: "fwMapping \<Rightarrow> 'w \<Rightarrow> error option \<times> 'w"
  mDelete :: "fwMapping list \<Rightarrow> 'w \<Rightarrow> error option \<times> 'w"
  mList :: "'w \<Rightarrow> (error + fwMapping list) \<times> 'w"
  mClose :: "'w \<Rightarrow> error option \<times> 'w"

definition v4_mapping :: "fwMapping \<Rightarrow> bool" where
  "v4_mapping m \<longleftrightarrow> Is4 (Fake m) \<and> Is4 (Real m)"

section \<open>The contract\<close>

text \<open>
  \<open>rules w\<close> is the set of DNAT rules in force in the state \<open>w\<close>, and \<open>idle w\<close> says that the
  backend is between two operations. Every backend keeps the frame: an operation adds and removes
  only the rules it was asked to, a failed \<open>Add\<close> changes nothing, a failed \<open>Delete\<close> may have
  removed some of its rules. Where a rule of another real address has the same fake, only a
  \<open>Delete\<close> of rules that are all in force is exact.
\<close>

locale firewall_frame =
  fixes mgr :: "'w manager"
    and rules :: "'w \<Rightarrow> fwMapping set"
    and idle :: "'w \<Rightarrow> bool"
  assumes add_frame: "idle w \<Longrightarrow> v4_mapping m \<Longrightarrow> mAdd mgr m w = (r, w') \<Longrightarrow>
      idle w' \<and> rules w \<subseteq> rules w' \<and> rules w' \<subseteq> insert m (rules w)"
    and add_err: "idle w \<Longrightarrow> v4_mapping m \<Longrightarrow> mAdd mgr m w = (Some e, w') \<Longrightarrow> rules w' = rules w"
    and delete_frame: "idle w \<Longrightarrow> list_all v4_mapping ms \<Longrightarrow> mDelete mgr ms w = (r, w') \<Longrightarrow>
      idle w' \<and> rules w' \<subseteq> rules w \<and> {x \<in> rules w. Fake x \<notin> Fake ` set ms} \<subseteq> rules w'"
    and delete_exact: "idle w \<Longrightarrow> list_all v4_mapping ms \<Longrightarrow> mDelete mgr ms w = (r, w') \<Longrightarrow>
      set ms \<subseteq> rules w \<Longrightarrow> rules w - set ms \<subseteq> rules w'"
    and list_frame: "idle w \<Longrightarrow> mList mgr w = (lr, w') \<Longrightarrow> idle w' \<and> rules w' = rules w"

text \<open>
  A backend that really programs the kernel promises more: success of \<open>Add\<close> and \<open>Delete\<close> means
  that the rules are there, or gone, and \<open>List\<close> reports exactly the rules in force. That a rule
  to be deleted need not exist is the comment on \<open>Delete\<close> in \<open>firewall.go\<close>: no law asks for it.
\<close>

locale firewall_manager = firewall_frame mgr rules idle
  for mgr :: "'w manager" and rules :: "'w \<Rightarrow> fwMapping set" and idle :: "'w \<Rightarrow> bool" +
  assumes add_ok: "idle w \<Longrightarrow> v4_mapping m \<Longrightarrow> mAdd mgr m w = (None, w') \<Longrightarrow> m \<in> rules w'"
    and delete_ok: "idle w \<Longrightarrow> list_all v4_mapping ms \<Longrightarrow> mDelete mgr ms w = (None, w') \<Longrightarrow>
      rules w' \<inter> set ms = {}"
    and list_ok: "idle w \<Longrightarrow> mList mgr w = (Inr ms, w') \<Longrightarrow> set ms = rules w \<and> distinct ms"
begin

lemma add_exact:
  "idle w \<Longrightarrow> v4_mapping m \<Longrightarrow> mAdd mgr m w = (None, w') \<Longrightarrow> rules w' = insert m (rules w)"
  using add_ok [of w m w'] add_frame [of w m None w'] by blast

end

section \<open>The backend that does nothing\<close>

definition noop :: "'w manager" where
  "noop = \<lparr>mAdd = (\<lambda>m w. (None, w)), mDelete = (\<lambda>ms w. (None, w)),
           mList = (\<lambda>w. (Inr [], w)), mClose = (\<lambda>w. (None, w))\<rparr>"

interpretation noop: firewall_frame noop "\<lambda>_. {}" "\<lambda>_. True"
  by unfold_locales (auto simp: noop_def)

end
