(* ===== verification/IP_Mapper.thy ===== *)
theory IP_Mapper
  imports IP_Pool Mapping_Table Firewall
begin

text \<open>
  The mapper, \<open>src/server/mapper/ipmap.go\<close>: it gives every real IPv4 address a fake address of
  the pool and keeps the DNAT rules of the firewall in step. \<open>fw\<close> is the state of the firewall
  manager, whose operations are the argument \<open>mgr\<close>; the mutexes and the \<open>singleflight.Group\<close> have
  no state between operations. \<open>time.Now()\<close> is the argument \<open>now\<close>: the readings of one
  operation are taken to be one instant.
\<close>

record 'w ipMapper =
  table :: mappingTable
  pool :: ipPool
  ttl :: duration
  fw :: 'w
  pending :: "pair list"

definition errNoFreeIPs :: error where
  "errNoFreeIPs = Err ''no free IPs''"

definition errNotIPv4 :: error where
  "errNotIPv4 = Err ''address is not IPv4''"

section \<open>Operations\<close>

text \<open>The loop of \<open>adopt\<close> over the rules that the firewall lists. After the test of the first line,
  \<open>AddrToUint32\<close> does not panic: the last case does not occur.\<close>

fun adoptLoop :: "'w manager \<Rightarrow> time \<Rightarrow> fwMapping list \<Rightarrow> 'w ipMapper \<Rightarrow> 'w ipMapper" where
  "adoptLoop mgr now [] m = m"
| "adoptLoop mgr now (mp # existing) m =
     (if \<not> Is4 (Fake mp) \<or> \<not> Is4 (Real mp) then adoptLoop mgr now existing m
      else case (AddrToUint32 (Fake mp), AddrToUint32 (Real mp)) of
        (Some fakeU, Some realU) \<Rightarrow>
          if \<not> inRange (pool m) fakeU \<or> isAdopted (pool m) fakeU \<or> thas realU (table m)
          then case mDelete mgr [mp] (fw m) of
                 (delErr, w) \<Rightarrow> adoptLoop mgr now existing (m\<lparr>fw := w\<rparr>)
          else adoptLoop mgr now existing
                 (m\<lparr>pool := markAdopted fakeU (pool m), table := tset now realU fakeU (table m)\<rparr>)
      | _ \<Rightarrow> m)"

definition adopt :: "'w manager \<Rightarrow> time \<Rightarrow> 'w ipMapper \<Rightarrow> error option \<times> 'w ipMapper" where
  "adopt mgr now m =
     (case mList mgr (fw m) of
        (Inl err, w) \<Rightarrow> (Some (Wrap ''failed to list existing mappings'' err), m\<lparr>fw := w\<rparr>)
      | (Inr existing, w) \<Rightarrow> (None, adoptLoop mgr now existing (m\<lparr>fw := w\<rparr>)))"

text \<open>
  The constructor takes the result of \<open>netip.ParsePrefix(cidr)\<close>, an address and a prefix length,
  in place of the string. It returns the mapper, or the error and the state the firewall is in.
\<close>

definition NewIPMapper ::
  "'w manager \<Rightarrow> time \<Rightarrow> (error + addr \<times> nat) \<Rightarrow> duration \<Rightarrow> 'w \<Rightarrow> (error \<times> 'w) + 'w ipMapper" where
  "NewIPMapper mgr now parsed lifetime w =
     (case parsed of
        Inl err \<Rightarrow> Inl (Wrap ''failed to parse CIDR'' err, w)
      | Inr (ip, bits) \<Rightarrow>
          (case ip of
             V4 net \<Rightarrow>
               (case adopt mgr now \<lparr>table = newMappingTable, pool = newIPPool net bits, ttl = lifetime,
                                     fw = w, pending = []\<rparr> of
                  (Some err, m) \<Rightarrow> Inl (err, fw m)
                | (None, m) \<Rightarrow> Inr m)
           | _ \<Rightarrow> Inl (Err ''fake CIDR is not IPv4'', w)))"

text \<open>The function that \<open>Map\<close> hands to \<open>singleflight\<close>.\<close>

definition mapFlight :: "'w manager \<Rightarrow> time \<Rightarrow> addr \<Rightarrow> u32 \<Rightarrow> 'w ipMapper \<Rightarrow> (error + u32) \<times> 'w ipMapper"
where
  "mapFlight mgr now realIP realU m =
     (case tget now realU (table m) of
        (Some fakeU, t) \<Rightarrow> (Inr fakeU, m\<lparr>table := t\<rparr>)
      | (None, _) \<Rightarrow>
          (case allocate (pool m) of
             (None, p) \<Rightarrow> (Inl errNoFreeIPs, m\<lparr>pool := p\<rparr>)
           | (Some fakeU, p) \<Rightarrow>
               (case mAdd mgr \<lparr>Fake = Uint32ToAddr fakeU, Real = realIP\<rparr> (fw m) of
                  (Some addErr, w) \<Rightarrow> (Inl addErr, m\<lparr>pool := release fakeU p, fw := w\<rparr>)
                | (None, w) \<Rightarrow>
                    (Inr fakeU, m\<lparr>pool := p, fw := w, table := tset now realU fakeU (table m)\<rparr>))))"

text \<open>
  \<open>Map\<close>. Without another call for the same address in flight, \<open>singleflight.Do\<close> calls the
  function; a call that joins a flight gets its result.
\<close>

definition Map :: "'w manager \<Rightarrow> time \<Rightarrow> addr \<Rightarrow> 'w ipMapper \<Rightarrow> (error + addr) \<times> 'w ipMapper" where
  "Map mgr now realIP m =
     (if \<not> Is4 realIP then (Inl errNotIPv4, m)
      else case AddrToUint32 realIP of
        None \<Rightarrow> (Inl (Panic ''As4 called on IPv6 address''), m)
      | Some realU \<Rightarrow>
          (case tget now realU (table m) of
             (Some fakeU, t) \<Rightarrow> (Inr (Uint32ToAddr fakeU), m\<lparr>table := t\<rparr>)
           | (None, _) \<Rightarrow>
               (case mapFlight mgr now realIP realU m of
                  (Inl doErr, m) \<Rightarrow> (Inl doErr, m)
                | (Inr v, m) \<Rightarrow> (Inr (Uint32ToAddr v), m))))"

definition rule_of_pair :: "pair \<Rightarrow> fwMapping" where
  "rule_of_pair p = \<lparr>Fake = Uint32ToAddr (pfake p), Real = Uint32ToAddr (preal p)\<rparr>"

definition teardown :: "'w manager \<Rightarrow> pair list \<Rightarrow> 'w ipMapper \<Rightarrow> (pair list \<times> error option) \<times> 'w ipMapper"
where
  "teardown mgr items m =
     (if items = [] then (([], None), m)
      else case mDelete mgr (map rule_of_pair items) (fw m) of
        (Some err, w) \<Rightarrow> ((items, Some err), m\<lparr>fw := w\<rparr>)
      | (None, w) \<Rightarrow> (([], None), m\<lparr>fw := w, pool := fold release (map pfake items) (pool m)\<rparr>))"

text \<open>\<open>ks\<close> is the order in which the table's map is ranged over.\<close>

definition Clean :: "'w manager \<Rightarrow> time \<Rightarrow> u32 list \<Rightarrow> 'w ipMapper \<Rightarrow> error option \<times> 'w ipMapper" where
  "Clean mgr now ks m =
     (let (ex, t) = expired now (ttl m) ks (table m);
          items = pending m @ ex
      in case teardown mgr items (m\<lparr>table := t\<rparr>) of
           ((failed, err), m) \<Rightarrow> (err, m\<lparr>pending := failed\<rparr>))"

definition GetTTL :: "'w ipMapper \<Rightarrow> duration" where
  "GetTTL m = ttl m"

definition Stats :: "'w ipMapper \<Rightarrow> nat \<times> nat" where
  "Stats m = (tLen (table m), unat (capacity (pool m)))"

section \<open>The invariant\<close>

text \<open>
  Every leased address of the pool has one owner: a mapping of the table, or a pair whose rule is
  still to be deleted. Two owners never share an address.
\<close>

definition pending_fakes :: "'w ipMapper \<Rightarrow> u32 list" where
  "pending_fakes m = map pfake (pending m)"

definition mapper_inv :: "'w ipMapper \<Rightarrow> bool" where
  "mapper_inv m \<longleftrightarrow>
     pool_inv (pool m) \<and> finite (dom (table m)) \<and>
     inj_on (fake_of (table m)) (dom (table m)) \<and>
     distinct (pending_fakes m) \<and> ran (fake_of (table m)) \<inter> set (pending_fakes m) = {} \<and>
     leased (pool m) = ran (fake_of (table m)) \<union> set (pending_fakes m)"

lemma mapper_inv_pool: "mapper_inv m \<Longrightarrow> pool_inv (pool m)"
  by (simp add: mapper_inv_def)

lemma fake_in_range: "mapper_inv m \<Longrightarrow> fake_of (table m) r = Some f \<Longrightarrow> inRange (pool m) f"
  using leased_subset_space [of "pool m"]
  by (auto simp: mapper_inv_def space_def ran_def)

lemma fake_leased: "mapper_inv m \<Longrightarrow> fake_of (table m) r = Some f \<Longrightarrow> f \<in> leased (pool m)"
  by (auto simp: mapper_inv_def ran_def)

lemma fakes_distinct:
  "mapper_inv m \<Longrightarrow> fake_of (table m) r = Some f \<Longrightarrow> fake_of (table m) r' = Some f \<Longrightarrow> r = r'"
  by (metis (mono_tags) domI dom_fake_of inj_on_def mapper_inv_def)

text \<open>A new mapping with a free address, and a refreshed mapping.\<close>

lemma mapper_inv_set:
  assumes "mapper_inv m" and "fake_of (table m) r = None"
    and "pool_inv p" and "leased p = insert f (leased (pool m))" and "f \<notin> leased (pool m)"
  shows "mapper_inv (m\<lparr>pool := p, table := tset now r f (table m)\<rparr>)"
proof -
  have dom: "dom (tset now r f (table m)) = insert r (dom (table m))" and r: "r \<notin> dom (table m)"
    using assms(2) by (auto simp: tset_def fake_of_def)
  have "ran (fake_of (tset now r f (table m))) = insert f (ran (fake_of (table m)))"
    using assms(2) by simp
  moreover have "inj_on (fake_of (tset now r f (table m))) (dom (tset now r f (table m)))"
    using assms(1,5) r unfolding dom
    by (fastforce simp: inj_on_def mapper_inv_def ran_def)
  ultimately show ?thesis
    using assms dom by (auto simp: mapper_inv_def pending_fakes_def)
qed

lemma mapper_inv_fw [simp]: "mapper_inv (m\<lparr>fw := w\<rparr>) = mapper_inv m"
  by (simp add: mapper_inv_def pending_fakes_def)

lemma mapper_inv_touch:
  assumes "mapper_inv m" and "tget now r (table m) = (f, t)"
  shows "mapper_inv (m\<lparr>table := t\<rparr>)"
proof -
  have "fake_of t = fake_of (table m)" using fake_of_tget [OF assms(2)] by simp
  moreover from this have "dom t = dom (table m)" by (metis dom_fake_of)
  ultimately show ?thesis using assms(1) by (simp add: mapper_inv_def pending_fakes_def)
qed

section \<open>Map keeps the invariant\<close>

text \<open>The outcomes of a flight that finds no mapping.\<close>

lemma mapFlight_cases:
  assumes "mapFlight mgr now a realU m = (r, m')" and "fake_of (table m) realU = None"
  obtains (full) p where "allocate (pool m) = (None, p)" and "r = Inl errNoFreeIPs" and
      "m' = m\<lparr>pool := p\<rparr>"
  | (refused) f p e w where "allocate (pool m) = (Some f, p)" and
      "mAdd mgr \<lparr>Fake = V4 f, Real = a\<rparr> (fw m) = (Some e, w)" and "r = Inl e" and
      "m' = m\<lparr>pool := release f p, fw := w\<rparr>"
  | (mapped) f p w where "allocate (pool m) = (Some f, p)" and
      "mAdd mgr \<lparr>Fake = V4 f, Real = a\<rparr> (fw m) = (None, w)" and "r = Inr f" and
      "m' = m\<lparr>pool := p, fw := w, table := tset now realU f (table m)\<rparr>"
proof -
  obtain g t where g: "tget now realU (table m) = (g, t)" by force
  with assms(2) have "g = None" using fake_of_tget [OF g] by simp
  with assms(1) g that show ?thesis
    by (auto simp: mapFlight_def split: prod.splits option.splits)
qed

lemma allocate_mapper:
  assumes "mapper_inv m" and "allocate (pool m) = (r, p)"
  shows "pool_inv p" and "space p = space (pool m)"
    and "r = None \<Longrightarrow> leased p = leased (pool m)"
    and "r = Some f \<Longrightarrow> leased p = insert f (leased (pool m))"
    and "r = Some f \<Longrightarrow> f \<notin> leased (pool m)"
  using allocate_laws [OF mapper_inv_pool [OF assms(1)] assms(2)] by auto

lemma mapper_inv_pool_eq:
  "mapper_inv m \<Longrightarrow> pool_inv p \<Longrightarrow> leased p = leased (pool m) \<Longrightarrow> mapper_inv (m\<lparr>pool := p\<rparr>)"
  by (simp add: mapper_inv_def pending_fakes_def)

lemma mapFlight_inv:
  assumes "mapper_inv m" and "fake_of (table m) realU = None"
    and "mapFlight mgr now a realU m = (r, m')"
  shows "mapper_inv m' \<and> space (pool m') = space (pool m)"
  using assms(3,2)
proof (cases rule: mapFlight_cases)
  case (full p)
  with allocate_mapper [OF assms(1) full(1)] show ?thesis
    by (simp add: mapper_inv_pool_eq assms(1))
next
  case (refused f p e w)
  note al = allocate_mapper [OF assms(1) refused(1)]
  have "f \<in> leased p" and "f \<notin> leased (pool m)" using al(4,5) by auto
  then have "pool_inv (release f p)" "leased (release f p) = leased (pool m)"
    "space (release f p) = space (pool m)"
    using pool.rel_leased [OF al(1), of f] al(2,4) by auto
  then have "mapper_inv (m\<lparr>pool := release f p, fw := w\<rparr>)"
    using mapper_inv_pool_eq [OF assms(1), of "release f p"] by (simp only: mapper_inv_fw)
  with refused \<open>space (release f p) = space (pool m)\<close> show ?thesis by simp
next
  case (mapped f p w)
  note al = allocate_mapper [OF assms(1) mapped(1)]
  have "mapper_inv (m\<lparr>pool := p, table := tset now realU f (table m)\<rparr>)"
    using al by (intro mapper_inv_set [OF assms(1,2)]) auto
  then have "mapper_inv (m\<lparr>pool := p, table := tset now realU f (table m), fw := w\<rparr>)"
    by (simp only: mapper_inv_fw)
  with mapped al(2) show ?thesis by (simp add: mapper_inv_def pending_fakes_def)
qed

text \<open>The outcomes of \<open>Map\<close>: not an IPv4 address, a mapping of the table, or a flight.\<close>

lemma Map_cases:
  assumes "Map mgr now a m = (r, m')"
  obtains (not4) "\<not> Is4 a" and "r = Inl errNotIPv4" and "m' = m"
  | (hit) realU f t where "a = V4 realU" and "tget now realU (table m) = (Some f, t)" and
      "r = Inr (V4 f)" and "m' = m\<lparr>table := t\<rparr>"
  | (miss) realU s where "a = V4 realU" and "fake_of (table m) realU = None" and
      "mapFlight mgr now a realU m = (s, m')" and "r = map_sum id V4 s"
proof (cases "Is4 a")
  case True
  then obtain realU where a: "a = V4 realU" by (auto simp: Is4_iff)
  obtain g t where g: "tget now realU (table m) = (g, t)" by force
  show ?thesis
  proof (cases g)
    case None
    with fake_of_tget [OF g] have "fake_of (table m) realU = None" by simp
    with assms a g None that(3) [OF a] show ?thesis
      by (auto simp: Map_def split: prod.splits sum.splits)
  next
    case (Some f)
    with assms a g that(2) [OF a] show ?thesis by (auto simp: Map_def)
  qed
next
  case False
  then have "Map mgr now a m = (Inl errNotIPv4, m)" by (simp add: Map_def)
  with assms False that(1) show ?thesis by simp
qed

lemma Map_inv:
  assumes "mapper_inv m" and "Map mgr now a m = (r, m')"
  shows "mapper_inv m' \<and> space (pool m') = space (pool m)"
  using assms(2)
proof (cases rule: Map_cases)
  case (miss realU s)
  with mapFlight_inv [OF assms(1) miss(2,3)] show ?thesis by simp
next
  case (hit realU f t)
  with mapper_inv_touch [OF assms(1) hit(2)] show ?thesis by simp
qed (use assms in simp)

section \<open>Clean keeps the invariant\<close>

text \<open>Moving the expired mappings from the table to the pairs to delete.\<close>

lemma expired_fakes:
  assumes "key_order ks (table m)" and "expired now l ks (table m) = (ex, t)"
  shows "fake_of t r = (if due (now - l) (table m) r then None else fake_of (table m) r)"
    and "map pfake ex = map (\<lambda>r. the (fake_of (table m) r)) (map preal ex)"
    and "map preal ex = filter (due (now - l) (table m)) ks"
    and "\<And>p. p \<in> set ex \<Longrightarrow> fake_of (table m) (preal p) = Some (pfake p)"
proof -
  from expired_split [OF assms(1), of now l] assms(2)
  have ex: "ex = map (pair_of (table m)) (filter (due (now - l) (table m)) ks)"
    and t: "t = (\<lambda>r. if due (now - l) (table m) r then None else table m r)" by simp_all
  show "fake_of t r = (if due (now - l) (table m) r then None else fake_of (table m) r)"
    by (simp add: t fake_of_def)
  show p: "fake_of (table m) (preal p) = Some (pfake p)" if "p \<in> set ex" for p
    using that by (auto simp: ex due_def pair_of_def fake_of_def split: option.splits)
  show "map pfake ex = map (\<lambda>r. the (fake_of (table m) r)) (map preal ex)"
    using p by simp
  show "map preal ex = filter (due (now - l) (table m)) ks"
    by (simp add: ex comp_def pair_of_def)
qed

text \<open>Pairs of the table that are moved to the pairs to delete, whatever chose them.\<close>

lemma move_inv:
  assumes "mapper_inv m" and "distinct (map preal ex)"
    and e: "\<And>p. p \<in> set ex \<Longrightarrow> fake_of (table m) (preal p) = Some (pfake p)"
    and t: "\<And>r. fake_of t r = (if r \<in> preal ` set ex then None else fake_of (table m) r)"
  shows "mapper_inv (m\<lparr>table := t, pending := pending m @ ex\<rparr>)"
proof -
  let ?t = "table m"
  have ft: "fake_of t r = Some f \<longleftrightarrow> fake_of ?t r = Some f \<and> r \<notin> preal ` set ex" for r f
    by (simp add: t)
  have dom: "dom t \<subseteq> dom ?t"
  proof
    fix r assume "r \<in> dom t"
    then obtain f where "fake_of t r = Some f" by (auto simp: fake_of_def)
    then have "fake_of ?t r = Some f" by (simp only: ft)
    then show "r \<in> dom ?t" by (auto simp: fake_of_def)
  qed
  have "inj_on pfake (set ex)"
  proof (rule inj_onI)
    fix p q assume pq: "p \<in> set ex" "q \<in> set ex" "pfake p = pfake q"
    then have "preal p = preal q" using e fakes_distinct [OF assms(1)] by metis
    with pq(3) show "p = q" by (intro pair.equality) simp_all
  qed
  with assms(2) have dist: "distinct (map pfake ex)" by (simp add: distinct_map)
  have exf: "set (map pfake ex) = {f. \<exists>r. fake_of ?t r = Some f \<and> r \<in> preal ` set ex}"
  proof (intro set_eqI iffI)
    fix f assume "f \<in> set (map pfake ex)"
    then show "f \<in> {f. \<exists>r. fake_of ?t r = Some f \<and> r \<in> preal ` set ex}" using e by auto
  next
    fix f assume "f \<in> {f. \<exists>r. fake_of ?t r = Some f \<and> r \<in> preal ` set ex}"
    then obtain p where "p \<in> set ex" and "fake_of ?t (preal p) = Some f" by blast
    with e show "f \<in> set (map pfake ex)" by force
  qed
  have apart: "set (map pfake ex) \<inter> set (pending_fakes m) = {}"
    using assms(1) exf by (auto simp: mapper_inv_def ran_def)
  have split: "ran (fake_of t) \<union> set (map pfake ex) = ran (fake_of ?t)"
    unfolding exf by (auto simp: ran_def ft)
  have disj: "ran (fake_of t) \<inter> set (map pfake ex) = {}"
    unfolding exf using fakes_distinct [OF assms(1)] by (fastforce simp: ran_def ft)
  have inj: "inj_on (fake_of t) (dom t)"
  proof (rule inj_onI)
    fix x y assume "x \<in> dom t" and eq: "fake_of t x = fake_of t y"
    then obtain f where f: "fake_of t x = Some f" by (auto simp: fake_of_def)
    with eq have "fake_of t y = Some f" by simp
    with f show "x = y" unfolding ft using fakes_distinct [OF assms(1)] by blast
  qed
  have fin: "finite (dom t)" using assms(1) finite_subset [OF dom] by (simp add: mapper_inv_def)
  have inv: "distinct (map pfake (pending m))" "ran (fake_of ?t) \<inter> set (map pfake (pending m)) = {}"
    "leased (pool m) = ran (fake_of ?t) \<union> set (map pfake (pending m))" "pool_inv (pool m)"
    using assms(1) by (simp_all add: mapper_inv_def pending_fakes_def)
  have "distinct (map pfake (pending m @ ex))"
    using inv(1) dist apart by (auto simp: pending_fakes_def)
  moreover have "ran (fake_of t) \<inter> set (map pfake (pending m @ ex)) = {}"
    using inv(2) disj unfolding split [symmetric] by auto
  moreover have "leased (pool m) = ran (fake_of t) \<union> set (map pfake (pending m @ ex))"
    unfolding inv(3) split [symmetric] by auto
  ultimately show ?thesis
    using inj fin inv(4) by (simp add: mapper_inv_def pending_fakes_def)
qed

lemma expired_reals:
  assumes "key_order ks (table m)" and "expired now l ks (table m) = (ex, t)"
  shows "preal ` set ex = {r. due (now - l) (table m) r}" and "distinct (map preal ex)"
  using assms(1) arg_cong [OF expired_fakes(3) [OF assms], of set] arg_cong [OF expired_fakes(3) [OF assms], of distinct]
  by (auto simp: key_order_def due_def split: option.splits)

lemma expire_inv:
  assumes "mapper_inv m" and "key_order ks (table m)" and "expired now l ks (table m) = (ex, t)"
  shows "mapper_inv (m\<lparr>table := t, pending := pending m @ ex\<rparr>)"
  using expired_reals [OF assms(2,3)] expired_fakes(1,4) [OF assms(2,3)]
  by (intro move_inv assms(1)) auto

lemma teardown_cases:
  assumes "teardown mgr items m = ((failed, err), m')"
  obtains (none) "items = []" and "failed = []" and "err = None" and "m' = m"
  | (kept) e w where "items \<noteq> []" and "mDelete mgr (map rule_of_pair items) (fw m) = (Some e, w)" and
      "failed = items" and "err = Some e" and "m' = m\<lparr>fw := w\<rparr>"
  | (gone) w where "items \<noteq> []" and "mDelete mgr (map rule_of_pair items) (fw m) = (None, w)" and
      "failed = []" and "err = None" and
      "m' = m\<lparr>fw := w, pool := fold release (map pfake items) (pool m)\<rparr>"
proof (cases "items = []")
  case True
  with assms none show ?thesis by (simp add: teardown_def)
next
  case False
  obtain e w where d: "mDelete mgr (map rule_of_pair items) (fw m) = (e, w)" by force
  show ?thesis
  proof (cases e)
    case None
    with False assms d have "failed = []" "err = None"
      "m' = m\<lparr>fw := w, pool := fold release (map pfake items) (pool m)\<rparr>"
      by (simp_all add: teardown_def)
    then show ?thesis by (rule gone [OF False d [unfolded None]])
  next
    case (Some x)
    with False assms d have "failed = items" "err = Some x" "m' = m\<lparr>fw := w\<rparr>"
      by (simp_all add: teardown_def)
    then show ?thesis by (rule kept [OF False d [unfolded Some]])
  qed
qed

lemma teardown_inv:
  assumes "mapper_inv (m\<lparr>pending := items\<rparr>)" and "teardown mgr items m = ((failed, err), m')"
  shows "mapper_inv (m'\<lparr>pending := failed\<rparr>) \<and> space (pool m') = space (pool m)"
  using assms(2)
proof (cases rule: teardown_cases)
  case none
  with assms(1) show ?thesis by simp
next
  case (kept e w)
  with assms(1) show ?thesis by (simp add: mapper_inv_def pending_fakes_def)
next
  case (gone w)
  have "distinct (map pfake items)" "set (map pfake items) \<subseteq> leased (pool m)" "pool_inv (pool m)"
    using assms(1) by (simp_all add: mapper_inv_def pending_fakes_def)
  note r = pool.rel_all [OF this(3,1,2)]
  have "leased (fold release (map pfake items) (pool m)) = ran (fake_of (table m))"
    using r assms(1) by (simp add: mapper_inv_def pending_fakes_def) blast
  with r assms(1) show ?thesis by (simp add: gone mapper_inv_def pending_fakes_def)
qed

lemma Clean_inv:
  assumes "mapper_inv m" and "key_order ks (table m)" and "Clean mgr now ks m = (err, m')"
  shows "mapper_inv m' \<and> space (pool m') = space (pool m)"
proof -
  obtain ex t where ex: "expired now (ttl m) ks (table m) = (ex, t)" by force
  obtain failed err1 m1 where td: "teardown mgr (pending m @ ex) (m\<lparr>table := t\<rparr>) = ((failed, err1), m1)"
    by (cases "teardown mgr (pending m @ ex) (m\<lparr>table := t\<rparr>)") force
  have "m' = m1\<lparr>pending := failed\<rparr>" using assms(3) ex td by (simp add: Clean_def)
  moreover have "mapper_inv (m1\<lparr>pending := failed\<rparr>) \<and> space (pool m1) = space (pool (m\<lparr>table := t\<rparr>))"
    by (rule teardown_inv [OF _ td]) (use expire_inv [OF assms(1,2) ex] in simp)
  ultimately show ?thesis by simp
qed

section \<open>Adoption establishes the invariant\<close>

text \<open>The state during adoption: nothing released yet, and the cursor at the start of the range.\<close>

definition adopting :: "'w ipMapper \<Rightarrow> bool" where
  "adopting m \<longleftrightarrow> mapper_inv m \<and> pending m = [] \<and> queue (pool m) = [] \<and> cursor (pool m) = network (pool m)"

lemma adopting_fresh:
  "adopting m \<Longrightarrow> inRange (pool m) f \<Longrightarrow> \<not> isAdopted (pool m) f \<Longrightarrow> f \<in> fresh (pool m)"
  by (simp add: adopting_def fresh_def inRange_def)

lemma adopting_mark:
  assumes "adopting m" and "f \<in> fresh (pool m)" and "fake_of (table m) r = None"
  shows "adopting (m\<lparr>pool := markAdopted f (pool m), table := tset now r f (table m)\<rparr>)"
proof -
  have "f \<notin> leased (pool m)" using assms(2) by (simp add: leased_def)
  then have "mapper_inv (m\<lparr>pool := markAdopted f (pool m), table := tset now r f (table m)\<rparr>)"
    using assms by (intro mapper_inv_set)
      (auto simp: adopting_def mapper_inv_pool markAdopted_inv markAdopted_leased)
  with assms(1) show ?thesis by (simp add: adopting_def)
qed

text \<open>One turn of the loop of \<open>adopt\<close>, for a rule with IPv4 addresses.\<close>

definition stale :: "'w ipMapper \<Rightarrow> u32 \<Rightarrow> u32 \<Rightarrow> bool" where
  "stale m f r \<longleftrightarrow> \<not> inRange (pool m) f \<or> isAdopted (pool m) f \<or> thas r (table m)"

lemma adoptLoop_v4:
  "adoptLoop mgr now (\<lparr>Fake = V4 f, Real = V4 r\<rparr> # ex) m =
     (if stale m f r
      then adoptLoop mgr now ex (m\<lparr>fw := snd (mDelete mgr [\<lparr>Fake = V4 f, Real = V4 r\<rparr>] (fw m))\<rparr>)
      else adoptLoop mgr now ex
             (m\<lparr>pool := markAdopted f (pool m), table := tset now r f (table m)\<rparr>))"
  by (simp add: stale_def split: prod.split)

lemma adoptLoop_other: "\<not> v4_mapping mp \<Longrightarrow> adoptLoop mgr now (mp # ex) m = adoptLoop mgr now ex m"
  by (auto simp: v4_mapping_def)

lemma not_stale: "adopting m \<Longrightarrow> \<not> stale m f r \<Longrightarrow> f \<in> fresh (pool m) \<and> fake_of (table m) r = None"
  using adopting_fresh [of m f] by (auto simp: stale_def thas_def fake_of_def)

lemma adopting_fw [simp]: "adopting (m\<lparr>fw := w\<rparr>) = adopting m"
  by (simp add: adopting_def)

lemma adoptLoop_adopting:
  "adopting m \<Longrightarrow> adopting (adoptLoop mgr now ex m) \<and>
     space (pool (adoptLoop mgr now ex m)) = space (pool m)"
proof (induction ex arbitrary: m)
  case (Cons mp ex)
  show ?case
  proof (cases "v4_mapping mp")
    case True
    then obtain f r where mp: "mp = \<lparr>Fake = V4 f, Real = V4 r\<rparr>"
      by (cases mp) (auto simp: v4_mapping_def Is4_iff)
    show ?thesis
    proof (cases "stale m f r")
      case True
      with Cons mp show ?thesis by (simp add: adoptLoop_v4 del: adoptLoop.simps)
    next
      case False
      with not_stale [OF Cons.prems False] Cons.IH adopting_mark [OF Cons.prems, of f r now] mp
      show ?thesis by (simp add: adoptLoop_v4 del: adoptLoop.simps)
    qed
  next
    case False
    with Cons show ?thesis by (simp add: adoptLoop_other del: adoptLoop.simps)
  qed
qed simp

lemma adopting_new:
  "adopting \<lparr>table = newMappingTable, pool = newIPPool net bits, ttl = l, fw = w, pending = []\<rparr>"
  by (simp add: adopting_def mapper_inv_def newIPPool_inv newIPPool_leased pending_fakes_def)
    (simp add: newMappingTable_def newIPPool_def queue_def Let_def)

lemma NewIPMapper_cases:
  assumes "NewIPMapper mgr now parsed l w = Inr m"
  obtains net bits ex w' where "parsed = Inr (V4 net, bits)" and "mList mgr w = (Inr ex, w')" and
    "m = adoptLoop mgr now ex
       \<lparr>table = newMappingTable, pool = newIPPool net bits, ttl = l, fw = w', pending = []\<rparr>"
  using assms by (auto simp: NewIPMapper_def adopt_def split: sum.splits addr.splits prod.splits option.splits)

lemma NewIPMapper_adopting:
  assumes "NewIPMapper mgr now parsed l w = Inr m"
  shows "adopting m"
  using assms by (rule NewIPMapper_cases) (simp add: adoptLoop_adopting adopting_new)

end
