(* ===== verification/Answer.thy ===== *)
theory Answer
  imports Addr "HOL-Library.Sublist"
begin

text \<open>
  DNS messages, and what the server does with their records: \<open>src/server/answer.go\<close>. The types of
  the package \<open>codeberg.org/miekg/dns\<close> are given with the fields that the program reads or writes;
  all other types of records are \<open>OtherRR\<close>. \<open>Data\<close> is the packed form of a message: \<open>WriteTo\<close>
  sends it as it is unless it is empty, and packs the fields otherwise.
\<close>

section \<open>Messages\<close>

record hdr =
  hName :: bytes
  hTTL :: u32
  hClass :: u16

datatype svcbPair = IPV4HINT "addr list" | IPV6HINT "addr list" | DOHPATH bytes | OtherPair u16 bytes

record svcb =
  svPriority :: u16
  svTarget :: bytes
  Value :: "svcbPair list"

record soa =
  soaNs :: bytes
  soaMbox :: bytes
  soaSer :: u32
  soaRef :: u32
  soaRet :: u32
  soaExp :: u32
  soaMin :: u32

datatype rr =
  A hdr addr
| AAAA hdr addr
| HTTPS hdr svcb
| SVCB hdr svcb
| SOA hdr soa
| OtherRR u16 hdr bytes

fun header :: "rr \<Rightarrow> hdr" where
  "header (A h _) = h"
| "header (AAAA h _) = h"
| "header (HTTPS h _) = h"
| "header (SVCB h _) = h"
| "header (SOA h _) = h"
| "header (OtherRR _ h _) = h"

fun setTTL :: "u32 \<Rightarrow> rr \<Rightarrow> rr" where
  "setTTL t (A h a) = A (h\<lparr>hTTL := t\<rparr>) a"
| "setTTL t (AAAA h a) = AAAA (h\<lparr>hTTL := t\<rparr>) a"
| "setTTL t (HTTPS h v) = HTTPS (h\<lparr>hTTL := t\<rparr>) v"
| "setTTL t (SVCB h v) = SVCB (h\<lparr>hTTL := t\<rparr>) v"
| "setTTL t (SOA h s) = SOA (h\<lparr>hTTL := t\<rparr>) s"
| "setTTL t (OtherRR k h d) = OtherRR k (h\<lparr>hTTL := t\<rparr>) d"

text \<open>\<open>dns.RRToType\<close>, the numbers of RFC 1035, 3596 and 9460.\<close>

fun rrType :: "rr \<Rightarrow> u16" where
  "rrType (A _ _) = 1"
| "rrType (AAAA _ _) = 28"
| "rrType (HTTPS _ _) = 65"
| "rrType (SVCB _ _) = 64"
| "rrType (SOA _ _) = 6"
| "rrType (OtherRR k _ _) = k"

definition TypeAAAA :: u16 where "TypeAAAA = 28"
definition ClassINET :: u16 where "ClassINET = 1"

definition RcodeSuccess :: u16 where "RcodeSuccess = 0"
definition RcodeFormatError :: u16 where "RcodeFormatError = 1"
definition RcodeServerFailure :: u16 where "RcodeServerFailure = 2"
definition RcodeNameError :: u16 where "RcodeNameError = 3"
definition RcodeNotImplemented :: u16 where "RcodeNotImplemented = 4"
definition RcodeRefused :: u16 where "RcodeRefused = 5"

lemmas rcode_defs = RcodeSuccess_def RcodeFormatError_def RcodeServerFailure_def RcodeNameError_def
  RcodeNotImplemented_def RcodeRefused_def

record msg =
  ID :: u16
  Response :: bool
  Rcode :: u16
  Truncated :: bool
  UDPSize :: u16
  Question :: "rr list"
  Answer :: "rr list"
  Ns :: "rr list"
  Extra :: "rr list"
  Data :: bytes

section \<open>Operations\<close>

definition blackholeAddr :: addr where
  "blackholeAddr = AddrFrom4 [CHR 0x7F, CHR 0x06, CHR 0x06, CHR 0x06]"

definition soaNegTTL :: u32 where "soaNegTTL = 3600"
definition soaSerial :: u32 where "soaSerial = 1"
definition soaRefresh :: u32 where "soaRefresh = 3600"
definition soaRetry :: u32 where "soaRetry = 600"
definition soaExpire :: u32 where "soaExpire = 86400"
definition soaMboxPrefix :: bytes where "soaMboxPrefix = ''hostmaster.''"

definition negativeAuthority :: "bytes \<Rightarrow> rr list" where
  "negativeAuthority name =
     [SOA \<lparr>hName = name, hTTL = soaNegTTL, hClass = ClassINET\<rparr>
        \<lparr>soaNs = name, soaMbox = soaMboxPrefix @ name, soaSer = soaSerial, soaRef = soaRefresh,
         soaRet = soaRetry, soaExp = soaExpire, soaMin = soaNegTTL\<rparr>]"

definition isDDRName :: "bytes \<Rightarrow> bool" where
  "isDDRName domain \<longleftrightarrow> suffix ''.arpa'' domain \<and> CHR ''_'' \<in> set domain"

fun isStrippedParam :: "svcbPair \<Rightarrow> bool" where
  "isStrippedParam (IPV4HINT _) = True"
| "isStrippedParam (IPV6HINT _) = True"
| "isStrippedParam (DOHPATH _) = True"
| "isStrippedParam (OtherPair _ _) = False"

text \<open>\<open>slices.DeleteFunc(v.Value, isStrippedParam)\<close>.\<close>

definition stripParams :: "svcb \<Rightarrow> svcb" where
  "stripParams v = v\<lparr>Value := filter (\<lambda>p. \<not> isStrippedParam p) (Value v)\<rparr>"

fun filterAnswer :: "rr list \<Rightarrow> rr list" where
  "filterAnswer [] = []"
| "filterAnswer (AAAA h a # rrs) = filterAnswer rrs"
| "filterAnswer (HTTPS h v # rrs) = HTTPS h (stripParams v) # filterAnswer rrs"
| "filterAnswer (SVCB h v # rrs) = SVCB h (stripParams v) # filterAnswer rrs"
| "filterAnswer (x # rrs) = x # filterAnswer rrs"

text \<open>
  A \<open>Transformer\<close> works on a state \<^typ>\<open>'s\<close>; it fails, gives nothing, or gives the header and the
  address of a new A record.
\<close>

type_synonym 's Transformer = "hdr \<Rightarrow> addr \<Rightarrow> 's \<Rightarrow> (error + (hdr \<times> addr) option) \<times> 's"

definition blackholeTransform :: "'s Transformer" where
  "blackholeTransform h a s = (Inr (Some (h, blackholeAddr)), s)"

fun remapLoop :: "'s Transformer \<Rightarrow> rr list \<Rightarrow> nat \<Rightarrow> nat \<Rightarrow> 's \<Rightarrow> (rr list \<times> nat \<times> nat) \<times> 's" where
  "remapLoop tr [] att failed s = (([], att, failed), s)"
| "remapLoop tr (A h a # rrs) att failed s =
     (case tr h a s of
        (Inl err, s) \<Rightarrow> remapLoop tr rrs (att + 1) (failed + 1) s
      | (Inr None, s) \<Rightarrow> remapLoop tr rrs (att + 1) failed s
      | (Inr (Some (h', a')), s) \<Rightarrow>
          (case remapLoop tr rrs (att + 1) failed s of
             ((out, n, f), s) \<Rightarrow> ((A h' a' # out, n, f), s)))"
| "remapLoop tr (x # rrs) att failed s =
     (case remapLoop tr rrs att failed s of ((out, n, f), s) \<Rightarrow> ((x # out, n, f), s))"

definition remapAnswer :: "'s Transformer \<Rightarrow> rr list \<Rightarrow> 's \<Rightarrow> (rr list \<times> nat \<times> nat) \<times> 's" where
  "remapAnswer tr rrs s = remapLoop tr rrs 0 0 s"

section \<open>Records that are safe to send\<close>

text \<open>No record that carries an address or a way to another resolver, except A records.\<close>

fun filtered :: "rr \<Rightarrow> bool" where
  "filtered (AAAA _ _) = False"
| "filtered (HTTPS _ v) = list_all (\<lambda>p. \<not> isStrippedParam p) (Value v)"
| "filtered (SVCB _ v) = list_all (\<lambda>p. \<not> isStrippedParam p) (Value v)"
| "filtered _ = True"

fun addressOf :: "rr \<Rightarrow> addr option" where
  "addressOf (A _ a) = Some a"
| "addressOf _ = None"

lemma filterAnswer_filtered: "list_all filtered (filterAnswer rrs)"
  by (induction rrs rule: filterAnswer.induct) (auto simp: stripParams_def list_all_iff)

lemma filtered_setTTL [simp]: "filtered (setTTL t x) = filtered x"
  by (cases x) simp_all

lemma addressOf_setTTL [simp]: "addressOf (setTTL t x) = addressOf x"
  by (cases x) simp_all

lemma hTTL_setTTL [simp]: "hTTL (header (setTTL t x)) = t"
  by (cases x) simp_all

text \<open>
  The interface of a transformer: it keeps an invariant of the state, and an A record that it gives
  for another stands in the relation \<open>given\<close> to it, in the state after it and ever after. The
  remapping then sends no other address.
\<close>

locale transformer =
  fixes tr :: "'s Transformer"
    and inv :: "'s \<Rightarrow> bool"
    and given :: "hdr \<Rightarrow> addr \<Rightarrow> hdr \<Rightarrow> addr \<Rightarrow> 's \<Rightarrow> bool"
  assumes keeps: "inv s \<Longrightarrow> tr h a s = (r, s') \<Longrightarrow> inv s'"
    and gives: "inv s \<Longrightarrow> tr h a s = (Inr (Some (h', a')), s') \<Longrightarrow> given h a h' a' s'"
    and stays: "inv s \<Longrightarrow> tr h a s = (r, s') \<Longrightarrow> given h1 a1 h2 a2 s \<Longrightarrow> given h1 a1 h2 a2 s'"
begin

definition later :: "'s \<Rightarrow> 's \<Rightarrow> bool" where
  "later s s' \<longleftrightarrow> inv s' \<and> (\<forall>h a h' a'. given h a h' a' s \<longrightarrow> given h a h' a' s')"

definition sent :: "rr list \<Rightarrow> 's \<Rightarrow> rr \<Rightarrow> bool" where
  "sent rrs s x \<longleftrightarrow> filtered x \<and> (\<forall>h' a'. x = A h' a' \<longrightarrow> (\<exists>h a. A h a \<in> set rrs \<and> given h a h' a' s))"

lemma later_trans: "later s s1 \<Longrightarrow> later s1 s2 \<Longrightarrow> later s s2"
  by (simp add: later_def)

lemma sent_mono: "sent rrs s x \<Longrightarrow> later s s' \<Longrightarrow> set rrs \<subseteq> set rrs' \<Longrightarrow> sent rrs' s' x"
  unfolding sent_def later_def by blast

lemma sent_all_mono:
  "list_all (sent rrs s) xs \<Longrightarrow> later s s' \<Longrightarrow> set rrs \<subseteq> set rrs' \<Longrightarrow> list_all (sent rrs' s') xs"
  by (auto simp: list_all_iff intro: sent_mono)

lemma remapLoop_sent:
  "remapLoop tr rrs n f s = ((out, n', f'), s') \<Longrightarrow> inv s \<Longrightarrow> list_all filtered rrs \<Longrightarrow>
     later s s' \<and> list_all (sent rrs s') out"
proof (induction rrs arbitrary: n f s out)
  case (Cons x rrs)
  have rrs: "list_all filtered rrs" and x: "filtered x" using Cons.prems(3) by simp_all
  show ?case
  proof (cases "addressOf x")
    case None
    with Cons.prems(1) obtain out' where r: "remapLoop tr rrs n f s = ((out', n', f'), s')"
      and out: "out = x # out'"
      by (cases x) (auto split: prod.splits)
    have "sent (x # rrs) s' x" using x None by (auto simp: sent_def)
    with Cons.IH [OF r Cons.prems(2) rrs] show ?thesis
      by (auto simp: out later_def intro: sent_all_mono)
  next
    case (Some a)
    then obtain h where xA: "x = A h a" by (cases x) auto
    obtain res s1 where t: "tr h a s = (res, s1)" by (rule prod.exhaust)
    note s1 = keeps [OF Cons.prems(2) t]
    have old: "later s s1" using s1 stays [OF Cons.prems(2) t] by (auto simp: later_def)
    show ?thesis
    proof (cases "\<exists>h' a'. res = Inr (Some (h', a'))")
      case True
      then obtain h' a' where res: "res = Inr (Some (h', a'))" by blast
      with Cons.prems(1) t xA obtain out' where r: "remapLoop tr rrs (n + 1) f s1 = ((out', n', f'), s')"
        and out: "out = A h' a' # out'" by (auto split: prod.splits)
      note IH = Cons.IH [OF r s1 rrs]
      have "given h a h' a' s'" using gives [OF Cons.prems(2) t [unfolded res]] IH by (simp add: later_def)
      then have "sent (x # rrs) s' (A h' a')" by (auto simp: sent_def xA)
      with IH old show ?thesis
        by (auto simp: out intro: later_trans sent_all_mono [of rrs s' out' s'] simp: later_def)
    next
      case False
      then have "(\<exists>e. res = Inl e) \<or> res = Inr None"
      proof (cases res)
        case (Inr o')
        with False show ?thesis by (cases o') auto
      qed simp
      with Cons.prems(1) t xA obtain m where "remapLoop tr rrs (n + 1) m s1 = ((out, n', f'), s')" by auto
      from Cons.IH [OF this s1 rrs] old show ?thesis
        by (auto intro: later_trans sent_all_mono [of rrs s' out s'] simp: later_def)
    qed
  qed
qed (simp add: later_def)

lemma remapAnswer_sent:
  "remapAnswer tr rrs s = ((out, n, f), s') \<Longrightarrow> inv s \<Longrightarrow> list_all filtered rrs \<Longrightarrow>
     later s s' \<and> list_all (sent rrs s') out"
  unfolding remapAnswer_def by (rule remapLoop_sent)

end

interpretation blackhole: transformer blackholeTransform "\<lambda>s. True" "\<lambda>h a h' a' s. h' = h \<and> a' = blackholeAddr"
  by unfold_locales (simp_all add: blackholeTransform_def)

text \<open>The counts of attempts and failures.\<close>

lemma remapLoop_counts:
  "remapLoop tr rrs n f s = ((out, n', f'), s') \<Longrightarrow>
     n' = n + length (filter (\<lambda>x. addressOf x \<noteq> None) rrs) \<and> f \<le> f' \<and>
     f' \<le> f + length (filter (\<lambda>x. addressOf x \<noteq> None) rrs) \<and>
     (f' = f + length (filter (\<lambda>x. addressOf x \<noteq> None) rrs) \<longrightarrow> out = filter (\<lambda>x. addressOf x = None) rrs)"
proof (induction rrs arbitrary: n f s out)
  case (Cons x rrs)
  show ?case
  proof (cases "addressOf x")
    case None
    with Cons.prems obtain out' where r: "remapLoop tr rrs n f s = ((out', n', f'), s')"
      and out: "out = x # out'"
      by (cases x) (auto split: prod.splits)
    from Cons.IH [OF r] None show ?thesis by (simp add: out)
  next
    case (Some a)
    then obtain h where xA: "x = A h a" by (cases x) auto
    obtain res s1 where t: "tr h a s = (res, s1)" by (rule prod.exhaust)
    show ?thesis
    proof (cases res)
      case (Inl e)
      with Cons.prems t xA have r: "remapLoop tr rrs (n + 1) (f + 1) s1 = ((out, n', f'), s')" by simp
      from Cons.IH [OF r] xA show ?thesis by auto
    next
      case (Inr o')
      then obtain out' where r: "remapLoop tr rrs (n + 1) f s1 = ((out', n', f'), s')"
        using Cons.prems t xA by (auto split: option.splits prod.splits)
      from Cons.IH [OF r] xA show ?thesis by auto
    qed
  qed
qed auto

end
