(* ===== verification/Metrics.thy ===== *)
theory Metrics
  imports Addr
begin

text \<open>
  The metrics of \<open>src/metrics/metrics.go\<close>: the labels, and the counters and histograms as the server
  moves them. A counter is a number for each tuple of labels; a histogram is the list of the values
  that were observed. A gauge reads the server when it is asked. The text that the registry of
  Prometheus makes of them is a parameter of the HTTP server.
\<close>

section \<open>Labels\<close>

definition ServedCache :: bytes where "ServedCache = ''cache''"
definition ServedUpstream :: bytes where "ServedUpstream = ''upstream''"
definition ServedSuppressed :: bytes where "ServedSuppressed = ''suppressed''"
definition ServedError :: bytes where "ServedError = ''error''"

definition LabelNoError :: bytes where "LabelNoError = ''NOERROR''"
definition LabelFormErr :: bytes where "LabelFormErr = ''FORMERR''"
definition LabelServFail :: bytes where "LabelServFail = ''SERVFAIL''"
definition LabelNXDomain :: bytes where "LabelNXDomain = ''NXDOMAIN''"
definition LabelNotImp :: bytes where "LabelNotImp = ''NOTIMP''"
definition LabelRefused :: bytes where "LabelRefused = ''REFUSED''"
definition LabelOther :: bytes where "LabelOther = ''other''"

definition ActionNone :: bytes where "ActionNone = ''none''"

definition resultLabel :: "error option \<Rightarrow> bytes" where
  "resultLabel err = (if err \<noteq> None then ''error'' else ''ok'')"

section \<open>Counters and histograms\<close>

record Metrics =
  responses :: "bytes \<times> bytes \<Rightarrow> nat"
  requestDuration :: "bytes \<Rightarrow> duration list"
  upstreamQueries :: "bytes \<times> bytes \<Rightarrow> nat"
  upstreamDuration :: "bytes \<Rightarrow> duration list"
  rebuilds :: "bytes \<Rightarrow> nat"
  rebuildDuration :: "duration list"

definition NewMetrics :: Metrics where
  "NewMetrics =
     \<lparr>responses = (\<lambda>l. 0), requestDuration = (\<lambda>l. []), upstreamQueries = (\<lambda>l. 0),
      upstreamDuration = (\<lambda>l. []), rebuilds = (\<lambda>l. 0), rebuildDuration = []\<rparr>"

text \<open>A nil pointer means that metrics are off.\<close>

definition Enabled :: "Metrics option \<Rightarrow> bool" where
  "Enabled m \<longleftrightarrow> m \<noteq> None"

definition inc :: "'a \<Rightarrow> ('a \<Rightarrow> nat) \<Rightarrow> 'a \<Rightarrow> nat" where
  "inc l f = f(l := f l + 1)"

definition observe :: "'a \<Rightarrow> duration \<Rightarrow> ('a \<Rightarrow> duration list) \<Rightarrow> 'a \<Rightarrow> duration list" where
  "observe l d f = f(l := f l @ [d])"

definition ObserveUpstream :: "bytes \<Rightarrow> error option \<Rightarrow> duration \<Rightarrow> Metrics \<Rightarrow> Metrics" where
  "ObserveUpstream name err d m =
     m\<lparr>upstreamDuration := observe name d (upstreamDuration m),
       upstreamQueries := inc (name, resultLabel err) (upstreamQueries m)\<rparr>"

definition ObserveRebuild :: "error option \<Rightarrow> duration \<Rightarrow> Metrics \<Rightarrow> Metrics" where
  "ObserveRebuild err d m =
     m\<lparr>rebuildDuration := rebuildDuration m @ [d],
       rebuilds := inc (resultLabel err) (rebuilds m)\<rparr>"

definition ObserveRequest :: "bytes \<Rightarrow> bytes \<Rightarrow> bytes \<Rightarrow> duration \<Rightarrow> Metrics \<Rightarrow> Metrics" where
  "ObserveRequest rcode action srvd d m =
     m\<lparr>responses := inc (rcode, action) (responses m),
       requestDuration := observe srvd d (requestDuration m)\<rparr>"

section \<open>Gauges\<close>

text \<open>The interface \<open>StateSource\<close> as what its functions answer.\<close>

record StateSource =
  srcReady :: bool
  srcActiveMappings :: nat
  srcPoolCapacity :: nat
  srcCacheSize :: nat

definition namespace :: bytes where "namespace = ''antizapret''"

definition registerGauge :: "bytes \<Rightarrow> nat \<Rightarrow> (bytes \<times> nat) list \<Rightarrow> (bytes \<times> nat) list" where
  "registerGauge name v gs = gs @ [(namespace @ ''_'' @ name, v)]"

definition RegisterState :: "StateSource \<Rightarrow> (bytes \<times> nat) list" where
  "RegisterState src =
     registerGauge ''dns_cache_size'' (srcCacheSize src)
       (registerGauge ''mapper_pool_capacity'' (srcPoolCapacity src)
         (registerGauge ''mapper_active_mappings'' (srcActiveMappings src)
           (registerGauge ''ready'' (if srcReady src then 1 else 0) [])))"

section \<open>The HTTP server\<close>

record httpReply =
  httpStatus :: nat
  httpBody :: bytes

definition newline :: bytes where "newline = [CHR 0x0A]"

text \<open>
  The handler for a path in its canonical form; \<open>exposition\<close> is the answer of the package
  \<open>promhttp\<close>. \<open>http.Error\<close> ends its text with a newline of its own.
\<close>

definition metricsHandler :: "httpReply \<Rightarrow> bytes \<Rightarrow> bool \<Rightarrow> bytes \<Rightarrow> httpReply" where
  "metricsHandler exposition version ready path =
     (if path = ''/metrics'' then exposition
      else if path = ''/healthz'' then \<lparr>httpStatus = 200, httpBody = ''ok'' @ newline\<rparr>
      else if path = ''/readyz'' then
        (if \<not> ready then \<lparr>httpStatus = 503, httpBody = ''not ready'' @ newline @ newline\<rparr>
         else \<lparr>httpStatus = 200, httpBody = ''ready'' @ newline\<rparr>)
      else if path = ''/version'' then \<lparr>httpStatus = 200, httpBody = version @ newline\<rparr>
      else \<lparr>httpStatus = 404, httpBody = ''404 page not found'' @ newline\<rparr>)"

text \<open>The end of \<open>Serve\<close>, after what \<open>ListenAndServe\<close> returned.\<close>

definition ErrServerClosed :: error where "ErrServerClosed = Err ''http: Server closed''"

definition serveResult :: "error option \<Rightarrow> error option" where
  "serveResult res =
     (case res of
        Some err \<Rightarrow> if \<not> errors_is err ErrServerClosed then Some err else None
      | None \<Rightarrow> None)"

end
