(* ===== verification/Resolver.thy ===== *)
theory Resolver
  imports Answer Metrics
begin

text \<open>
  The resolver, \<open>src/server/resolver\<close>: a ring of upstreams that are asked in turn. What the code
  asks of the network is the record \<open>netPkg\<close>, over a state \<^typ>\<open>'n\<close>, which has a clock: the exchange
  of a message by the package \<open>dns\<close>, and for DNS over HTTPS the requests of type \<^typ>\<open>'q\<close> and their
  responses of type \<^typ>\<open>'h\<close>. \<open>parseURL\<close> is \<open>url.Parse\<close> with the scheme and the host. A context is its
  deadline, if it has one: the server derives all of them from \<open>context.Background\<close>, and cancels
  none before the call returns.
\<close>

section \<open>Parameters\<close>

type_synonym ctx = "time option"

record ('n, 'q, 'h) netPkg =
  parseURL :: "bytes \<Rightarrow> error + bytes \<times> bytes"
  clock :: "'n \<Rightarrow> time"
  exchange :: "ctx \<Rightarrow> msg \<Rightarrow> bytes \<Rightarrow> bytes \<Rightarrow> 'n \<Rightarrow> (error + msg option) \<times> 'n"
  dohNewRequest :: "bytes \<Rightarrow> msg \<Rightarrow> error + 'q"
  dohDo :: "ctx \<Rightarrow> duration \<Rightarrow> 'q \<Rightarrow> 'n \<Rightarrow> (error + int \<times> 'h) \<times> 'n"
  dohResponse :: "'h \<Rightarrow> error + msg option"

definition Background :: ctx where "Background = None"

definition WithTimeout :: "('n, 'q, 'h) netPkg \<Rightarrow> duration \<Rightarrow> ctx \<Rightarrow> 'n \<Rightarrow> ctx" where
  "WithTimeout net d ctx n =
     Some (case ctx of None \<Rightarrow> clock net n + d | Some t \<Rightarrow> min t (clock net n + d))"

definition ctxErr :: "('n, 'q, 'h) netPkg \<Rightarrow> ctx \<Rightarrow> 'n \<Rightarrow> error option" where
  "ctxErr net ctx n =
     (case ctx of None \<Rightarrow> None
      | Some t \<Rightarrow> if t \<le> clock net n then Some (Err ''context deadline exceeded'') else None)"

record cfgUpstream =
  upName :: bytes
  upDSN :: bytes
  upTimeout :: duration

section \<open>Upstreams\<close>

record ClassicUpstream =
  cuName :: bytes
  cuSchema :: bytes
  cuHost :: bytes
  cuTimeout :: duration

record DoHUpstream =
  dhName :: bytes
  dhURL :: bytes
  dhTimeout :: duration

text \<open>The interface, with its implementations; the last embeds an upstream and counts what it does.\<close>

datatype Upstream =
  Classic ClassicUpstream
| DoH DoHUpstream
| Instrumented Upstream bytes

definition schemaUDP :: bytes where "schemaUDP = ''udp''"
definition schemaTCP :: bytes where "schemaTCP = ''tcp''"

definition upstreamLabel :: "cfgUpstream \<Rightarrow> bytes" where
  "upstreamLabel u = (if upName u \<noteq> [] then upName u else upDSN u)"

definition NewClassicUpstream :: "('n, 'q, 'h) netPkg \<Rightarrow> bytes \<Rightarrow> bytes \<Rightarrow> duration \<Rightarrow> error + ClassicUpstream" where
  "NewClassicUpstream net name dsn timeout =
     (case parseURL net dsn of
        Inl err \<Rightarrow> Inl (Wrap ''failed to parse upstream'' err)
      | Inr (scheme, host) \<Rightarrow>
          (let host = (if CHR '':'' \<notin> set host then host @ '':53'' else host)
           in Inr \<lparr>cuName = (if name = [] then host else name), cuSchema = scheme, cuHost = host,
                cuTimeout = timeout\<rparr>))"

definition NewDoHUpstream :: "bytes \<Rightarrow> bytes \<Rightarrow> duration \<Rightarrow> error + DoHUpstream" where
  "NewDoHUpstream name dsn timeout = Inr \<lparr>dhName = name, dhURL = dsn, dhTimeout = timeout\<rparr>"

text \<open>\<open>strings.Replace\<close> of the first occurrence.\<close>

fun replaceFirst :: "bytes \<Rightarrow> bytes \<Rightarrow> bytes \<Rightarrow> bytes" where
  "replaceFirst old new [] = (if old = [] then new else [])"
| "replaceFirst old new (c # s) =
     (if prefix old (c # s) then new @ drop (length old) (c # s) else c # replaceFirst old new s)"

definition retryTCP :: "('n, 'q, 'h) netPkg \<Rightarrow> ctx \<Rightarrow> ClassicUpstream \<Rightarrow> msg \<Rightarrow> 'n \<Rightarrow> (error + msg) \<times> 'n" where
  "retryTCP net ctx u req n =
     (case exchange net ctx req (replaceFirst schemaUDP schemaTCP (cuSchema u)) (cuHost u) n of
        (Inl err, n) \<Rightarrow> (Inl (Wrap ''upstream tcp retry after truncation failed'' err), n)
      | (Inr None, n) \<Rightarrow> (Inl (Err ''upstream returned no response on tcp retry''), n)
      | (Inr (Some resp), n) \<Rightarrow> (Inr resp, n))"

definition classicResolve :: "('n, 'q, 'h) netPkg \<Rightarrow> ctx \<Rightarrow> ClassicUpstream \<Rightarrow> msg \<Rightarrow> 'n \<Rightarrow> (error + msg) \<times> 'n" where
  "classicResolve net ctx u req n =
     (let ctx = (if cuTimeout u > 0 then WithTimeout net (cuTimeout u) ctx n else ctx)
      in case exchange net ctx req (cuSchema u) (cuHost u) n of
           (Inl err, n) \<Rightarrow> (Inl (Wrap ''upstream failed'' err), n)
         | (Inr None, n) \<Rightarrow> (Inl (Err ''upstream returned no response''), n)
         | (Inr (Some resp), n) \<Rightarrow>
             if Truncated resp \<and> prefix schemaUDP (cuSchema u) then retryTCP net ctx u req n
             else (Inr resp, n))"

definition dohResolve :: "('n, 'q, 'h) netPkg \<Rightarrow> ctx \<Rightarrow> DoHUpstream \<Rightarrow> msg \<Rightarrow> 'n \<Rightarrow> (error + msg) \<times> 'n" where
  "dohResolve net ctx u req n =
     (case dohNewRequest net (dhURL u) req of
        Inl err \<Rightarrow> (Inl (Wrap ''failed to format DoH request'' err), n)
      | Inr hreq \<Rightarrow>
          (case dohDo net ctx (dhTimeout u) hreq n of
             (Inl err, n) \<Rightarrow> (Inl (Wrap ''upstream failed'' err), n)
           | (Inr (status, hresp), n) \<Rightarrow>
               if status \<noteq> 200 then (Inl (Err ''upstream returned HTTP status''), n)
               else (case dohResponse net hresp of
                   Inl err \<Rightarrow> (Inl (Wrap ''upstream failed'' err), n)
                 | Inr None \<Rightarrow> (Inl (Err ''upstream returned no response''), n)
                 | Inr (Some resp) \<Rightarrow> (Inr resp, n))))"

text \<open>
  An upstream works on the network and on the metrics, a nil pointer of which is \<^const>\<open>None\<close>.
  The duration of a call is what the clock of the network says.
\<close>

fun upstreamResolve ::
  "('n, 'q, 'h) netPkg \<Rightarrow> ctx \<Rightarrow> Upstream \<Rightarrow> msg \<Rightarrow> 'n \<times> Metrics option \<Rightarrow> (error + msg) \<times> 'n \<times> Metrics option"
where
  "upstreamResolve net ctx (Classic u) req (n, m) = (case classicResolve net ctx u req n of (res, n) \<Rightarrow> (res, n, m))"
| "upstreamResolve net ctx (DoH u) req (n, m) = (case dohResolve net ctx u req n of (res, n) \<Rightarrow> (res, n, m))"
| "upstreamResolve net ctx (Instrumented u name) req (n, m) =
     (case upstreamResolve net ctx u req (n, m) of
        (res, n', m) \<Rightarrow>
          (res, n', map_option (ObserveUpstream name (case res of Inl err \<Rightarrow> Some err | Inr _ \<Rightarrow> None)
             (clock net n' - clock net n)) m))"

section \<open>The ring\<close>

record Resolver =
  upstreams :: "Upstream list"
  nextUp :: u64

definition errNoUpstreams :: error where "errNoUpstreams = Err ''no upstreams''"

definition newUpstream :: "('n, 'q, 'h) netPkg \<Rightarrow> Metrics option \<Rightarrow> cfgUpstream \<Rightarrow> error + Upstream" where
  "newUpstream net m u =
     (case (if prefix ''tcp'' (upDSN u) \<or> prefix ''udp'' (upDSN u) then
              map_sum id Classic (NewClassicUpstream net (upName u) (upDSN u) (upTimeout u))
            else if prefix ''http'' (upDSN u) \<or> prefix ''https'' (upDSN u) then
              map_sum id DoH (NewDoHUpstream (upName u) (upDSN u) (upTimeout u))
            else Inl (Err ''unsupported protocol'')) of
        Inl err \<Rightarrow> Inl err
      | Inr upstream \<Rightarrow> Inr (if Enabled m then Instrumented upstream (upstreamLabel u) else upstream))"

fun newUpstreams :: "('n, 'q, 'h) netPkg \<Rightarrow> Metrics option \<Rightarrow> cfgUpstream list \<Rightarrow> error + Upstream list" where
  "newUpstreams net m [] = Inr []"
| "newUpstreams net m (u # us) =
     (case newUpstream net m u of
        Inl err \<Rightarrow> Inl err
      | Inr x \<Rightarrow> (case newUpstreams net m us of Inl err \<Rightarrow> Inl err | Inr xs \<Rightarrow> Inr (x # xs)))"

definition NewResolver :: "('n, 'q, 'h) netPkg \<Rightarrow> cfgUpstream list \<Rightarrow> Metrics option \<Rightarrow> error + Resolver" where
  "NewResolver net config m =
     (case newUpstreams net m config of
        Inl err \<Rightarrow> Inl err
      | Inr us \<Rightarrow> if us = [] then Inl errNoUpstreams else Inr \<lparr>upstreams = us, nextUp = 0\<rparr>)"

text \<open>The loop of \<open>Resolve\<close> over the remaining values of \<open>i\<close>.\<close>

fun resolveLoop ::
  "('n, 'q, 'h) netPkg \<Rightarrow> ctx \<Rightarrow> Upstream list \<Rightarrow> nat \<Rightarrow> msg \<Rightarrow> nat list \<Rightarrow> error list \<Rightarrow>
   'n \<times> Metrics option \<Rightarrow> (error + msg) \<times> 'n \<times> Metrics option"
where
  "resolveLoop net ctx us start req [] errs st = (Inl (Join errs), st)"
| "resolveLoop net ctx us start req (i # is) errs st =
     (case ctxErr net ctx (fst st) of
        Some err \<Rightarrow> (Inl (Join (errs @ [err])), st)
      | None \<Rightarrow>
          (case upstreamResolve net ctx (us ! ((start + i) mod length us)) req st of
             (Inr resp, st) \<Rightarrow> (Inr resp, st)
           | (Inl err, st) \<Rightarrow> resolveLoop net ctx us start req is (errs @ [err]) st))"

definition Resolve ::
  "('n, 'q, 'h) netPkg \<Rightarrow> ctx \<Rightarrow> msg \<Rightarrow> Resolver \<Rightarrow> 'n \<times> Metrics option \<Rightarrow>
   (error + msg) \<times> Resolver \<times> 'n \<times> Metrics option"
where
  "Resolve net ctx req r st =
     (if upstreams r = [] then (Inl errNoUpstreams, r, st)
      else
        (let k = length (upstreams r);
             r = r\<lparr>nextUp := nextUp r + 1\<rparr>;
             start = unat (nextUp r mod word_of_nat k)
         in case resolveLoop net ctx (upstreams r) start req [0..<k] [] st of (res, st) \<Rightarrow> (res, r, st)))"

section \<open>Properties\<close>

text \<open>Asking a list of upstreams one after the other until one answers.\<close>

fun firstOf ::
  "('n, 'q, 'h) netPkg \<Rightarrow> ctx \<Rightarrow> Upstream list \<Rightarrow> msg \<Rightarrow> error list \<Rightarrow>
   'n \<times> Metrics option \<Rightarrow> (error + msg) \<times> 'n \<times> Metrics option"
where
  "firstOf net ctx [] req errs st = (Inl (Join errs), st)"
| "firstOf net ctx (u # us) req errs st =
     (case ctxErr net ctx (fst st) of
        Some err \<Rightarrow> (Inl (Join (errs @ [err])), st)
      | None \<Rightarrow>
          (case upstreamResolve net ctx u req st of
             (Inr resp, st) \<Rightarrow> (Inr resp, st)
           | (Inl err, st) \<Rightarrow> firstOf net ctx us req (errs @ [err]) st))"

lemma resolveLoop_firstOf:
  "resolveLoop net ctx us start req is errs st =
     firstOf net ctx (map (\<lambda>i. us ! ((start + i) mod length us)) is) req errs st"
  by (induction "is" arbitrary: errs st) (auto split: option.splits prod.splits sum.splits)

lemma ring_rotate: "us \<noteq> [] \<Longrightarrow> map (\<lambda>i. us ! ((start + i) mod length us)) [0..<length us] = rotate start us"
  by (rule nth_equalityI) (simp_all add: nth_rotate)

lemma firstOf_answers:
  "u \<in> set us \<Longrightarrow> \<forall>n. ctxErr net ctx n = None \<Longrightarrow>
     \<forall>st. \<exists>m st'. upstreamResolve net ctx u req st = (Inr m, st') \<Longrightarrow>
     \<exists>m st'. firstOf net ctx us req errs st = (Inr m, st')"
proof (induction us arbitrary: errs st)
  case (Cons x us)
  obtain res st1 where r: "upstreamResolve net ctx x req st = (res, st1)" by (rule prod.exhaust)
  have alive: "ctxErr net ctx (fst st) = None" using Cons.prems(2) by blast
  show ?case
  proof (cases res)
    case (Inl err)
    have "x \<noteq> u" using spec [OF Cons.prems(3), of st] r Inl by auto
    with Cons.prems(1) have "u \<in> set us" by simp
    from Cons.IH [OF this Cons.prems(2,3), of "errs @ [err]" st1] show ?thesis
      by (simp add: alive r Inl)
  qed (simp add: alive r)
qed simp

lemma firstOf_fails:
  "firstOf net ctx us req errs st = (Inl e, st') \<Longrightarrow> \<forall>n. ctxErr net ctx n = None \<Longrightarrow>
     \<exists>es. length es = length us \<and> e = Join (errs @ es)"
proof (induction us arbitrary: errs st)
  case (Cons x us)
  obtain res st1 where r: "upstreamResolve net ctx x req st = (res, st1)" by (rule prod.exhaust)
  have alive: "ctxErr net ctx (fst st) = None" using Cons.prems(2) by blast
  with Cons.prems(1) r obtain err where "res = Inl err" and "firstOf net ctx us req (errs @ [err]) st1 = (Inl e, st')"
    by (cases res) auto
  from Cons.IH [OF this(2) Cons.prems(2)] show ?case
    by (metis append.assoc append_Cons append_Nil length_Cons)
qed simp

text \<open>An instrumented upstream answers like the one that it embeds, and each call is counted once.\<close>

lemma instrumented_same:
  "upstreamResolve net ctx (Instrumented u name) req (n, Some m) = (res, n', m') \<Longrightarrow>
     \<exists>m1. upstreamResolve net ctx u req (n, Some m) = (res, n', m1) \<and>
       m' = map_option (ObserveUpstream name (case res of Inl err \<Rightarrow> Some err | Inr _ \<Rightarrow> None) (clock net n' - clock net n)) m1"
  by (auto split: prod.splits)

text \<open>The upstreams move only their own metrics.\<close>

definition request_part :: "Metrics \<Rightarrow> (bytes \<times> bytes \<Rightarrow> nat) \<times> (bytes \<Rightarrow> duration list) \<times> (bytes \<Rightarrow> nat) \<times> duration list" where
  "request_part m = (responses m, requestDuration m, rebuilds m, rebuildDuration m)"

definition same_requests :: "Metrics option \<Rightarrow> Metrics option \<Rightarrow> bool" where
  "same_requests m m' \<longleftrightarrow> map_option request_part m = map_option request_part m'"

lemma same_requests_refl [simp]: "same_requests m m"
  by (simp add: same_requests_def)

lemma same_requests_trans: "same_requests m1 m2 \<Longrightarrow> same_requests m2 m3 \<Longrightarrow> same_requests m1 m3"
  by (simp add: same_requests_def)

lemma same_requests_observe: "same_requests m (map_option (ObserveUpstream name e d) m)"
  by (cases m) (simp_all add: same_requests_def request_part_def ObserveUpstream_def)

lemma upstream_requests: "upstreamResolve net ctx u req st = (res, st') \<Longrightarrow> same_requests (snd st) (snd st')"
proof (induction u arbitrary: res st')
  case (Instrumented u name)
  obtain n m where st: "st = (n, m)" by (rule prod.exhaust)
  obtain r n1 m1 where u: "upstreamResolve net ctx u req (n, m) = (r, n1, m1)" by (rule prod_cases3)
  from Instrumented.prems st u have "snd st' = map_option (ObserveUpstream name (case r of Inl err \<Rightarrow> Some err | Inr _ \<Rightarrow> None)
      (clock net n1 - clock net n)) m1" by auto
  with Instrumented.IH [unfolded st, OF u] st show ?case
    using same_requests_observe same_requests_trans by (metis snd_conv)
qed (cases st, auto split: prod.splits)+

lemma loop_requests:
  "resolveLoop net ctx us start req is errs st = (res, st') \<Longrightarrow> same_requests (snd st) (snd st')"
proof (induction "is" arbitrary: errs st)
  case (Cons i "is")
  obtain r st1 where u: "upstreamResolve net ctx (us ! ((start + i) mod length us)) req st = (r, st1)"
    by (rule prod.exhaust)
  have step: "same_requests (snd st) (snd st1)" by (rule upstream_requests [OF u])
  show ?case
  proof (cases "ctxErr net ctx (fst st)")
    case None
    show ?thesis
    proof (cases r)
      case (Inl err)
      with Cons.prems None u have "resolveLoop net ctx us start req is (errs @ [err]) st1 = (res, st')" by simp
      from step Cons.IH [OF this] show ?thesis by (rule same_requests_trans)
    qed (use Cons.prems None u step in auto)
  qed (use Cons.prems in auto)
qed simp

lemma Resolve_requests: "Resolve net ctx req r st = (res, r', st') \<Longrightarrow> same_requests (snd st) (snd st')"
  by (auto simp: Resolve_def Let_def split: if_splits prod.splits dest: loop_requests)

text \<open>
  C24. The resolver fails over: a query is given to the upstreams one after the other around the
  ring, each at most once, from the one after that where the last query began, until one answers.
  While the context is alive, one upstream that answers is enough for an answer, and a failure
  carries the errors of all upstreams.
\<close>

theorem resolver_fails_over:
  assumes "Resolve net ctx req r st = (res, r', st')" and "upstreams r \<noteq> []"
    and "length (upstreams r) < 2 ^ 64"
  shows "(res, st') = firstOf net ctx (rotate (unat (nextUp r + 1) mod length (upstreams r)) (upstreams r)) req [] st \<and>
    r' = r\<lparr>nextUp := nextUp r + 1\<rparr> \<and>
    ((\<forall>n. ctxErr net ctx n = None) \<longrightarrow>
       ((\<exists>u \<in> set (upstreams r). \<forall>st. \<exists>m st'. upstreamResolve net ctx u req st = (Inr m, st')) \<longrightarrow> (\<exists>m. res = Inr m)) \<and>
       (\<forall>e. res = Inl e \<longrightarrow> (\<exists>es. length es = length (upstreams r) \<and> e = Join es)))"
proof -
  let ?us = "upstreams r" and ?start = "unat (nextUp r + 1) mod length (upstreams r)"
  have "unat (word_of_nat (length ?us) :: u64) = length ?us"
    using assms(3) by (intro of_nat_inverse) simp_all
  then have "unat ((nextUp r + 1) mod word_of_nat (length ?us)) = ?start"
    by (simp add: unat_mod_distrib)
  then have loop: "(res, st') = firstOf net ctx (rotate ?start ?us) req [] st" and r': "r' = r\<lparr>nextUp := nextUp r + 1\<rparr>"
    using assms(1,2) by (auto simp: Resolve_def Let_def resolveLoop_firstOf ring_rotate split: prod.splits)
  show ?thesis
  proof (intro conjI impI allI)
    show "(res, st') = firstOf net ctx (rotate ?start ?us) req [] st" by (rule loop)
    show "r' = r\<lparr>nextUp := nextUp r + 1\<rparr>" by (rule r')
  next
    assume alive: "\<forall>n. ctxErr net ctx n = None"
      and "\<exists>u \<in> set ?us. \<forall>st. \<exists>m st'. upstreamResolve net ctx u req st = (Inr m, st')"
    then obtain u where "u \<in> set (rotate ?start ?us)" and "\<forall>st. \<exists>m st'. upstreamResolve net ctx u req st = (Inr m, st')"
      by auto
    with firstOf_answers [of u "rotate ?start ?us" net ctx req "[]" st] alive loop show "\<exists>m. res = Inr m"
      by (metis fst_conv)
  next
    fix e assume alive: "\<forall>n. ctxErr net ctx n = None" and "res = Inl e"
    with firstOf_fails [of net ctx "rotate ?start ?us" req "[]" st e st'] loop
    show "\<exists>es. length es = length ?us \<and> e = Join es" by simp
  qed
qed

definition demo_net :: "(nat, unit, unit) netPkg" where
  "demo_net = \<lparr>parseURL = (\<lambda>u. Inr (''udp'', u)),
     clock = int, exchange = (\<lambda>ctx req network host n. (if host = ''a:53'' then Inl (Err ''timeout'') else Inr (Some req), n + 1)),
     dohNewRequest = (\<lambda>u m. Inl (Err ''none'')),
     dohDo = (\<lambda>ctx t q n. (Inl (Err ''none''), n)), dohResponse = (\<lambda>h. Inr None)\<rparr>"

definition demo_resolver :: Resolver where
  "demo_resolver =
     \<lparr>upstreams = map (\<lambda>h. Classic \<lparr>cuName = h, cuSchema = ''udp'', cuHost = h, cuTimeout = 1\<rparr>) [''b:53'', ''a:53''],
      nextUp = 0\<rparr>"

definition demo_req :: msg where
  "demo_req = \<lparr>ID = 7, Response = False, Rcode = 0, Truncated = False, UDPSize = 1232, Question = [], Answer = [],
     Ns = [], Extra = [], Data = []\<rparr>"

lemma resolver_fails_over_witness:
  "\<exists>m r' n'. Resolve demo_net None demo_req demo_resolver (0, None) = (Inr m, r', n') \<and> nextUp r' = 1"
proof -
  obtain res r' n' where r: "Resolve demo_net None demo_req demo_resolver (0, None) = (res, r', n')" by (metis prod.collapse)
  have ne: "upstreams demo_resolver \<noteq> []" "length (upstreams demo_resolver) < 2 ^ 64"
    by (simp_all add: demo_resolver_def)
  have "\<forall>n :: nat. ctxErr demo_net None n = None" by (simp add: ctxErr_def)
  moreover have "\<exists>u \<in> set (upstreams demo_resolver). \<forall>st. \<exists>m st'. upstreamResolve demo_net None u demo_req st = (Inr m, st')"
    by (simp add: split_paired_all demo_resolver_def classicResolve_def demo_net_def demo_req_def Let_def)
  ultimately show ?thesis using resolver_fails_over [OF r ne] r by (auto simp: demo_resolver_def)
qed

text \<open>
  A reply that was cut off over UDP is not handed on: the query is repeated over TCP, and a failure
  of that is a failure of the upstream.
\<close>

lemma classic_not_truncated:
  assumes "classicResolve net ctx u req n = (Inr m, n')" and "prefix schemaUDP (cuSchema u)" and "Truncated m"
  shows "\<exists>ctx n1. exchange net ctx req (schemaTCP @ drop 3 (cuSchema u)) (cuHost u) n1 = (Inr (Some m), n')"
proof -
  have "replaceFirst schemaUDP schemaTCP (cuSchema u) = schemaTCP @ drop 3 (cuSchema u)"
    using assms(2) by (cases "cuSchema u") (simp_all add: schemaUDP_def numeral_3_eq_3 numeral_2_eq_2)
  with assms show ?thesis
    by (auto simp: classicResolve_def retryTCP_def Let_def split: prod.splits sum.splits option.splits if_splits)
qed

end
