(* ===== verification/Utf8.thy ===== *)
theory Utf8
  imports AZ_Prelude
begin

text \<open>
  The runes of a Go string: what \<open>for _, r := range s\<close> and the functions of the package
  \<open>strings\<close> see of its bytes. A byte that does not start a valid encoding is the rune
  \<open>runeError\<close> of one byte.
\<close>

definition runeError :: nat where "runeError = 0xFFFD"

text \<open>A byte between two bounds; the bounds of the second byte exclude overlong encodings and
  surrogates.\<close>

definition byteIn :: "nat \<Rightarrow> nat \<Rightarrow> char \<Rightarrow> bool" where
  "byteIn lo hi c \<longleftrightarrow> lo \<le> of_char c \<and> of_char c \<le> hi"

definition cont :: "char \<Rightarrow> nat" where "cont c = of_char c mod 64"

definition secondLow :: "nat \<Rightarrow> nat" where
  "secondLow b = (if b = 0xE0 then 0xA0 else if b = 0xF0 then 0x90 else 0x80)"

definition secondHigh :: "nat \<Rightarrow> nat" where
  "secondHigh b = (if b = 0xED then 0x9F else if b = 0xF4 then 0x8F else 0xBF)"

text \<open>\<open>utf8.DecodeRuneInString\<close>: the rune and its number of bytes.\<close>

fun decodeRune :: "bytes \<Rightarrow> nat \<times> nat" where
  "decodeRune [] = (runeError, 0)"
| "decodeRune (c # cs) =
     (let b = of_char c :: nat
      in if b < 0x80 then (b, 1)
         else case cs of
           [] \<Rightarrow> (runeError, 1)
         | c1 # cs1 \<Rightarrow>
             if b < 0xC2 \<or> b > 0xF4 \<or> \<not> byteIn (secondLow b) (secondHigh b) c1 then (runeError, 1)
             else if b < 0xE0 then ((b - 0xC0) * 64 + cont c1, 2)
             else case cs1 of
               [] \<Rightarrow> (runeError, 1)
             | c2 # cs2 \<Rightarrow>
                 if \<not> byteIn 0x80 0xBF c2 then (runeError, 1)
                 else if b < 0xF0 then (((b - 0xE0) * 64 + cont c1) * 64 + cont c2, 3)
                 else case cs2 of
                   [] \<Rightarrow> (runeError, 1)
                 | c3 # cs3 \<Rightarrow>
                     if \<not> byteIn 0x80 0xBF c3 then (runeError, 1)
                     else ((((b - 0xF0) * 64 + cont c1) * 64 + cont c2) * 64 + cont c3, 4))"

lemma decodeRune_size: "s \<noteq> [] \<Longrightarrow> 0 < snd (decodeRune s)"
  by (cases s) (auto simp: Let_def split: list.split)

lemma decodeRune_ascii: "of_char c < (128 :: nat) \<Longrightarrow> decodeRune (c # s) = (of_char c, 1)"
  by (simp add: Let_def)

declare decodeRune.simps(2) [simp del]

text \<open>The runes of a string, each with its bytes.\<close>

function runes :: "bytes \<Rightarrow> (nat \<times> bytes) list" where
  "runes s =
     (if s = [] then []
      else case decodeRune s of (r, n) \<Rightarrow> (r, take n s) # runes (drop n s))"
  by pat_completeness auto
termination
proof (relation "measure length", goal_cases)
  case (2 s r n)
  then show ?case using decodeRune_size [of s] by (cases "decodeRune s") auto
qed simp

declare runes.simps [simp del]

lemma runes_Nil [simp]: "runes [] = []"
  by (simp add: runes.simps)

lemma runes_ascii [simp]: "of_char c < (128 :: nat) \<Longrightarrow> runes (c # s) = (of_char c, [c]) # runes s"
  by (subst runes.simps) (simp add: decodeRune_ascii)

lemma runes_bytes: "concat (map snd (runes s)) = s"
proof (induction s rule: runes.induct)
  case (1 s)
  show ?case
  proof (cases "s = []")
    case False
    obtain r n where d: "decodeRune s = (r, n)" by force
    with 1 [OF False d [symmetric]] False show ?thesis by (subst runes.simps) simp
  qed simp
qed

definition isASCII :: "bytes \<Rightarrow> bool" where
  "isASCII s \<longleftrightarrow> list_all (\<lambda>c. of_char c < (128 :: nat)) s"

lemma isASCII_runes: "isASCII s \<Longrightarrow> runes s = map (\<lambda>c. (of_char c, [c])) s"
  by (induction s) (simp_all add: isASCII_def)

text \<open>\<open>utf8.AppendRune\<close>; a number that is no rune is written as \<open>runeError\<close>.\<close>

definition encodeRune :: "nat \<Rightarrow> bytes" where
  "encodeRune r =
     (if r < 0x80 then [char_of r]
      else if r < 0x800 then [char_of (0xC0 + r div 64), char_of (0x80 + r mod 64)]
      else if (0xD800 \<le> r \<and> r < 0xE000) \<or> r > 0x10FFFF then map char_of [0xEF, 0xBF, 0xBD :: nat]
      else if r < 0x10000 then
        [char_of (0xE0 + r div 4096), char_of (0x80 + r div 64 mod 64), char_of (0x80 + r mod 64)]
      else [char_of (0xF0 + r div 262144), char_of (0x80 + r div 4096 mod 64),
            char_of (0x80 + r div 64 mod 64), char_of (0x80 + r mod 64)])"

end
