(* ===== verification/Labels.thy ===== *)
theory Labels
  imports AZ_Prelude
begin

text \<open>
  Reversed labels: \<open>reverseLabelsInto\<close> and \<open>ReverseLabels\<close> of \<open>src/server/router/matcher/radix.go\<close>
  and \<open>labelCovers\<close> of \<open>matcher.go\<close>. The keys of every table of the router are domain names with
  their labels in reverse order, so that the subdomains of a name are the extensions of its key.
  The loops run on Go \<open>int\<close>s that reach \<open>-1\<close>: they are on \<^typ>\<open>int\<close> here.
\<close>

section \<open>Operations\<close>

text \<open>The inner loop of \<open>reverseLabelsInto\<close>: from \<open>i\<close> down to a dot, or to \<open>-1\<close>.\<close>

function scanLabel :: "bytes \<Rightarrow> int \<Rightarrow> int" where
  "scanLabel key i = (if i \<ge> 0 \<and> key ! nat i \<noteq> CHR ''.'' then scanLabel key (i - 1) else i)"
  by pat_completeness auto
termination by (relation "measure (\<lambda>(key, i). nat (i + 1))") auto

declare scanLabel.simps [simp del]

lemma scanLabel_less: "i < e \<Longrightarrow> scanLabel key i < e"
  by (induction key i rule: scanLabel.induct) (subst scanLabel.simps, simp)

text \<open>The outer loop, with the buffer \<open>b\<close>.\<close>

function reverseLoop :: "bytes \<Rightarrow> int \<Rightarrow> bytes \<Rightarrow> bytes" where
  "reverseLoop key stop b =
     (if stop \<ge> 0 then
        let i = scanLabel key (stop - 1);
            b = (if i + 1 < stop
                 then let b = b @ drop (nat (i + 1)) (take (nat stop) key)
                      in if i > 0 then b @ [CHR ''.''] else b
                 else b)
        in reverseLoop key i b
      else b)"
  by pat_completeness auto
termination
proof (relation "measure (\<lambda>(key, stop, b). nat (stop + 1))", goal_cases)
  case (2 key stop b i b')
  then show ?case using scanLabel_less [of "stop - 1" stop key] by simp
qed simp

declare reverseLoop.simps [simp del]

definition reverseLabelsInto :: "bytes \<Rightarrow> bytes \<Rightarrow> bytes" where
  "reverseLabelsInto b key = reverseLoop key (int (length key)) b"

definition ReverseLabels :: "bytes \<Rightarrow> bytes" where
  "ReverseLabels key = reverseLabelsInto [] key"

definition labelCovers :: "bytes \<Rightarrow> bytes \<Rightarrow> bool" where
  "labelCovers p k \<longleftrightarrow> length p < length k \<and> prefix p k \<and> k ! length p = CHR ''.''"

section \<open>Names as lists of labels\<close>

text \<open>A label is a nonempty string without a dot; a name is its labels with dots between them.\<close>

definition label :: "bytes \<Rightarrow> bool" where
  "label l \<longleftrightarrow> l \<noteq> [] \<and> CHR ''.'' \<notin> set l"

fun dotted :: "bytes list \<Rightarrow> bytes" where
  "dotted [] = []"
| "dotted [l] = l"
| "dotted (l # ls) = l @ CHR ''.'' # dotted ls"

definition domain_name :: "bytes \<Rightarrow> bool" where
  "domain_name d \<longleftrightarrow> (\<exists>ls. ls \<noteq> [] \<and> list_all label ls \<and> d = dotted ls)"

lemma dotted_Cons: "ls \<noteq> [] \<Longrightarrow> dotted (l # ls) = l @ CHR ''.'' # dotted ls"
  by (cases ls) auto

lemma dotted_append:
  "ks \<noteq> [] \<Longrightarrow> ls \<noteq> [] \<Longrightarrow> dotted (ks @ ls) = dotted ks @ CHR ''.'' # dotted ls"
proof (induction ks rule: dotted.induct)
  case (2 k)
  then show ?case by (simp add: dotted_Cons)
qed simp_all

lemma dotted_snoc: "ls \<noteq> [] \<Longrightarrow> dotted (ls @ [l]) = dotted ls @ CHR ''.'' # l"
  by (simp add: dotted_append)

text \<open>The scan over one label stops at the dot in front of it, or at the start of the name.\<close>

lemma scanLabel_label:
  assumes "CHR ''.'' \<notin> set l"
  shows "scanLabel (pre @ l @ post) (int (length pre + length l) - 1) = scanLabel (pre @ l @ post) (int (length pre) - 1)"
  using assms
proof (induction l arbitrary: post rule: rev_induct)
  case (snoc c l)
  have "nat (int (length pre + length (l @ [c])) - 1) = length pre + length l" by simp
  then have "(pre @ (l @ [c]) @ post) ! nat (int (length pre + length (l @ [c])) - 1) = c"
    by (simp only: nth_append) simp
  then have "scanLabel (pre @ (l @ [c]) @ post) (int (length pre + length (l @ [c])) - 1) =
      scanLabel (pre @ l @ c # post) (int (length pre + length l) - 1)"
    using snoc.prems by (subst scanLabel.simps) auto
  with snoc.IH [of "c # post"] snoc.prems show ?case by simp
qed simp

lemma scanLabel_stop: "scanLabel key (- 1) = - 1"
  by (simp add: scanLabel.simps)

lemma scanLabel_dot: "scanLabel (pre @ CHR ''.'' # post) (int (length pre)) = int (length pre)"
  by (subst scanLabel.simps) simp

text \<open>The outer loop takes the last label and goes on in front of its dot.\<close>

lemma reverseLoop_first:
  assumes "label l"
  shows "reverseLoop (l @ post) (int (length l)) b = b @ l"
proof -
  have "scanLabel (l @ post) (int (length l) - 1) = - 1"
    using scanLabel_label [of l "[]" post] assms by (simp add: label_def scanLabel_stop)
  then show ?thesis
    using assms by (subst reverseLoop.simps) (simp add: Let_def label_def reverseLoop.simps [of _ "- 1"])
qed

lemma reverseLoop_label:
  assumes "label l" and "pre \<noteq> []"
  shows "reverseLoop (pre @ CHR ''.'' # l @ post) (int (length pre + Suc (length l))) b =
    reverseLoop (pre @ CHR ''.'' # l @ post) (int (length pre)) (b @ l @ ''.'')"
proof -
  have "scanLabel (pre @ CHR ''.'' # l @ post) (int (length pre + length l)) = int (length pre)"
    using scanLabel_label [of l "pre @ ''.''" post] assms scanLabel_dot [of pre "l @ post"]
    by (simp add: label_def)
  moreover have "nat (int (length pre) + 1) - length pre = 1"
    and "nat (1 + (int (length pre) + int (length l))) - length pre = Suc (length l)" by linarith+
  ultimately show ?thesis
    using assms by (subst reverseLoop.simps) (simp add: Let_def label_def)
qed

lemma reverseLoop_dotted:
  "ls \<noteq> [] \<Longrightarrow> list_all label ls \<Longrightarrow>
     reverseLoop (dotted ls @ post) (int (length (dotted ls))) b = b @ dotted (rev ls)"
proof (induction ls arbitrary: post b rule: rev_induct)
  case (snoc l ls)
  show ?case
  proof (cases "ls = []")
    case True
    with snoc.prems show ?thesis by (simp add: reverseLoop_first)
  next
    case False
    then have "dotted ls \<noteq> []" using snoc.prems by (cases ls rule: dotted.cases) (auto simp: label_def)
    with reverseLoop_label [of l "dotted ls" post b] snoc.IH [of "CHR ''.'' # l @ post"] snoc.prems False
    show ?thesis by (simp add: dotted_snoc dotted_Cons)
  qed
qed simp

lemma ReverseLabels_dotted:
  "ls \<noteq> [] \<Longrightarrow> list_all label ls \<Longrightarrow> ReverseLabels (dotted ls) = dotted (rev ls)"
  using reverseLoop_dotted [of ls "[]" "[]"] by (simp add: ReverseLabels_def reverseLabelsInto_def)

text \<open>A dot of a name separates two lists of labels, so the labels are determined by the name.\<close>

lemma dotted_split:
  assumes "list_all label ls" and "dotted ls = u @ CHR ''.'' # v"
  obtains ks ms where "ls = ks @ ms" and "ks \<noteq> []" and "ms \<noteq> []" and "u = dotted ks" and "v = dotted ms"
  using assms
proof (induction ls arbitrary: u thesis rule: dotted.induct)
  case (2 l)
  then have "CHR ''.'' \<in> set l" by simp
  with "2.prems"(2) show ?case by (simp add: label_def)
next
  case (3 l k ks)
  have dot: "CHR ''.'' \<notin> set l" using "3.prems"(2) by (simp add: label_def)
  from "3.prems"(3) consider (first) us where "l = u @ us" "us @ CHR ''.'' # dotted (k # ks) = CHR ''.'' # v"
    | (later) us where "u = l @ us" "CHR ''.'' # dotted (k # ks) = us @ CHR ''.'' # v"
    by (auto simp: append_eq_append_conv2)
  then show ?case
  proof cases
    case first
    with dot have "us = []" by (cases us) auto
    with first show ?thesis by (intro "3.prems"(1) [of "[l]" "k # ks"]) simp_all
  next
    case later
    show ?thesis
    proof (cases us)
      case Nil
      with later show ?thesis by (intro "3.prems"(1) [of "[l]" "k # ks"]) simp_all
    next
      case (Cons c us')
      with later have d: "dotted (k # ks) = us' @ CHR ''.'' # v" and c: "c = CHR ''.''" by simp_all
      have ok: "list_all label (k # ks)" using "3.prems"(2) by simp
      obtain ls ms where "k # ks = ls @ ms" "ls \<noteq> []" "ms \<noteq> []" "us' = dotted ls" "v = dotted ms"
        by (rule "3.IH" [OF _ ok d])
      moreover from this have "l # k # ks = (l # ls) @ ms" by simp
      ultimately show ?thesis using later(1) Cons c by (intro "3.prems"(1) [of "l # ls" ms]) (simp_all add: dotted_Cons)
    qed
  qed
qed simp

lemma dotted_inj:
  "list_all label ls \<Longrightarrow> list_all label ms \<Longrightarrow> ls \<noteq> [] \<Longrightarrow> ms \<noteq> [] \<Longrightarrow> dotted ls = dotted ms \<Longrightarrow> ls = ms"
proof (induction ls arbitrary: ms)
  case (Cons l ls)
  from Cons.prems(4) obtain m ms' where ms: "ms = m # ms'" by (cases ms) auto
  have dots: "CHR ''.'' \<notin> set l" "CHR ''.'' \<notin> set m" using Cons.prems(1,2) ms by (simp_all add: label_def)
  have first: "takeWhile (\<lambda>c. c \<noteq> CHR ''.'') (dotted (k # ks)) = k" if "CHR ''.'' \<notin> set k" for k ks
    using that by (cases ks) (auto simp: takeWhile_append takeWhile_eq_all_conv)
  have "l = m" using first [OF dots(1), of ls] first [OF dots(2), of ms'] Cons.prems(5) ms by simp
  moreover have "ls = ms'"
    using Cons.prems(5) Cons.IH [of ms'] Cons.prems(1,2) ms \<open>l = m\<close>
    by (cases ls; cases ms') auto
  ultimately show ?case using ms by simp
qed simp

lemma domain_nameE:
  assumes "domain_name d"
  obtains ls where "ls \<noteq> []" and "list_all label ls" and "d = dotted ls" and "ReverseLabels d = dotted (rev ls)"
  using assms ReverseLabels_dotted unfolding domain_name_def by blast

section \<open>Properties\<close>

text \<open>
  On domain names \<open>ReverseLabels\<close> is its own inverse and gives a domain name again, so
  different names have different keys and no name is lost in the tables.
\<close>

lemma ReverseLabels_involution:
  assumes "domain_name d"
  shows "domain_name (ReverseLabels d) \<and> ReverseLabels (ReverseLabels d) = d"
proof -
  from assms obtain ls where "ls \<noteq> []" "list_all label ls" "d = dotted ls" "ReverseLabels d = dotted (rev ls)"
    by (rule domain_nameE)
  moreover from this have "ReverseLabels (dotted (rev ls)) = dotted ls"
    by (subst ReverseLabels_dotted) (simp_all add: list_all_rev)
  ultimately show ?thesis unfolding domain_name_def by (auto simp: list_all_rev)
qed

lemma dotted_example: "dotted [''www'', ''example'', ''com''] = ''www.example.com''"
  by simp

lemma ReverseLabels_involution_witness:
  "ReverseLabels ''www.example.com'' = ''com.example.www'' \<and>
   ReverseLabels (ReverseLabels ''www.example.com'') = ''www.example.com''"
proof -
  have "ReverseLabels ''www.example.com'' = ''com.example.www''"
    using ReverseLabels_dotted [of "[''www'', ''example'', ''com'']"] by (simp add: label_def)
  moreover have "domain_name ''www.example.com''"
    unfolding domain_name_def by (intro exI [of _ "[''www'', ''example'', ''com'']"]) (simp add: label_def)
  ultimately show ?thesis using ReverseLabels_involution by blast
qed

lemma labelCovers_iff: "labelCovers p k \<longleftrightarrow> (\<exists>t. k = p @ CHR ''.'' # t)"
proof
  assume c: "labelCovers p k"
  then obtain t where k: "k = p @ t" by (auto simp: labelCovers_def prefix_def)
  with c have "t \<noteq> []" and "t ! 0 = CHR ''.''" by (simp_all add: labelCovers_def nth_append)
  with k show "\<exists>t. k = p @ CHR ''.'' # t" by (cases t) auto
qed (auto simp: labelCovers_def)

text \<open>
  A key covers another one (\<open>labelCovers\<close>) exactly when the first is the key of a parent
  domain of the second: the boundary is at a label, never inside one.
\<close>

lemma labelCovers_subdomain:
  assumes "domain_name d" and "domain_name q"
  shows "labelCovers (ReverseLabels d) (ReverseLabels q) \<longleftrightarrow> (\<exists>sub. q = sub @ CHR ''.'' # d)"
proof -
  from assms(1) obtain ds where ds: "ds \<noteq> []" "list_all label ds" "d = dotted ds"
    "ReverseLabels d = dotted (rev ds)" by (rule domain_nameE)
  from assms(2) obtain qs where qs: "qs \<noteq> []" "list_all label qs" "q = dotted qs"
    "ReverseLabels q = dotted (rev qs)" by (rule domain_nameE)
  show ?thesis
  proof
    assume "labelCovers (ReverseLabels d) (ReverseLabels q)"
    then obtain t where "dotted (rev qs) = dotted (rev ds) @ CHR ''.'' # t"
      using ds qs by (auto simp: labelCovers_iff)
    moreover have "list_all label (rev qs)" using qs(2) by (simp add: list_all_rev)
    ultimately obtain ks ms where s: "rev qs = ks @ ms" "ks \<noteq> []" "ms \<noteq> []" "dotted (rev ds) = dotted ks"
      by (metis dotted_split)
    from \<open>list_all label (rev qs)\<close> have "list_all label ks" by (simp add: s(1))
    have "ks = rev ds" using \<open>list_all label ks\<close> dotted_inj [of "rev ds" ks] s ds by (simp add: list_all_rev)
    then have "qs = rev ms @ ds" using s(1) by (metis rev_append rev_rev_ident)
    with s(3) ds(1,3) qs(3) show "\<exists>sub. q = sub @ CHR ''.'' # d" by (simp add: dotted_append)
  next
    assume "\<exists>sub. q = sub @ CHR ''.'' # d"
    then obtain ks ms where s: "qs = ks @ ms" "ks \<noteq> []" "ms \<noteq> []" "d = dotted ms"
      using qs by (metis dotted_split)
    with qs(2) have "list_all label ms" by simp
    then have "ms = ds" using dotted_inj [of ms ds] s ds by simp
    then have "dotted (rev qs) = dotted (rev ds) @ CHR ''.'' # dotted (rev ks)"
      using s ds(1) by (simp add: dotted_append)
    then show "labelCovers (ReverseLabels d) (ReverseLabels q)"
      using ds(4) qs(4) by (auto simp: labelCovers_iff)
  qed
qed

lemma labelCovers_subdomain_witness:
  "labelCovers (ReverseLabels ''block.com'') (ReverseLabels ''sub.block.com'') \<and>
   \<not> labelCovers (ReverseLabels ''block.com'') (ReverseLabels ''blockade.com'')"
proof -
  have d: "domain_name ''block.com''" "domain_name ''sub.block.com''" "domain_name ''blockade.com''"
    unfolding domain_name_def
    by (intro exI [of _ "[''block'', ''com'']"], simp add: label_def)
      (intro exI [of _ "[''sub'', ''block'', ''com'']"], simp add: label_def,
       intro exI [of _ "[''blockade'', ''com'']"], simp add: label_def)
  have "\<not> (\<exists>sub. ''blockade.com'' = sub @ CHR ''.'' # ''block.com'')"
  proof
    assume "\<exists>sub. ''blockade.com'' = sub @ CHR ''.'' # ''block.com''"
    then have "suffix ''block.com'' ''blockade.com''" by (auto simp: suffix_def)
    then show False by (simp add: suffix_to_prefix)
  qed
  moreover have "''sub.block.com'' = ''sub'' @ CHR ''.'' # ''block.com''" by simp
  ultimately show ?thesis
    using labelCovers_subdomain [OF d(1,2)] labelCovers_subdomain [OF d(1,3)] by blast
qed

end
