(* ===== verification/Domain.thy ===== *)
theory Domain
  imports Utf8 Labels
begin

text \<open>
  The normal form of domain names, \<open>NormalizeDomain\<close> of \<open>src/utils/domain.go\<close>. Both the entries of
  the sources and the names of the queries go through it, so that a query finds the rule of an
  entry that is spelled in another way. The package \<open>golang.org/x/net/idna\<close> and the case tables
  of the package \<open>unicode\<close> are the parameters of the record \<open>names\<close>; names in ASCII need neither.
\<close>

record names =
  unicodeLower :: "nat \<Rightarrow> nat"
  lookupToASCII :: "bytes \<Rightarrow> error + bytes"

section \<open>The package strings\<close>

definition isSpaceRune :: "nat \<Rightarrow> bool" where
  "isSpaceRune r \<longleftrightarrow> r \<in> {9, 10, 11, 12, 13, 32, 0x85, 0xA0, 0x1680, 0x2028, 0x2029, 0x202F, 0x205F, 0x3000} \<or>
     (0x2000 \<le> r \<and> r \<le> 0x200A)"

definition trimBoth :: "('a \<Rightarrow> bool) \<Rightarrow> 'a list \<Rightarrow> 'a list" where
  "trimBoth P xs = rev (dropWhile P (rev (dropWhile P xs)))"

definition TrimSpace :: "bytes \<Rightarrow> bytes" where
  "TrimSpace s = concat (map snd (trimBoth (\<lambda>(r, _). isSpaceRune r) (runes s)))"

definition TrimRight :: "bytes \<Rightarrow> bytes \<Rightarrow> bytes" where
  "TrimRight s cutset = rev (dropWhile (\<lambda>c. c \<in> set cutset) (rev s))"

definition Trim :: "bytes \<Rightarrow> bytes \<Rightarrow> bytes" where
  "Trim s cutset = trimBoth (\<lambda>c. c \<in> set cutset) s"

definition lowerByte :: "char \<Rightarrow> char" where
  "lowerByte c = (if 65 \<le> (of_char c :: nat) \<and> (of_char c :: nat) \<le> 90 then char_of (of_char c + 32 :: nat) else c)"

definition ToLower :: "names \<Rightarrow> bytes \<Rightarrow> bytes" where
  "ToLower nm s =
     (if isASCII s then map lowerByte s
      else concat (map (\<lambda>(r, _). encodeRune (unicodeLower nm r)) (runes s)))"

section \<open>The operation\<close>

definition NormalizeDomain :: "names \<Rightarrow> bytes \<Rightarrow> bytes" where
  "NormalizeDomain nm s =
     (let s = TrimSpace s;
          s = Trim s [CHR 0x22, CHR 0x27]
      in if s = [] then []
         else
           (let s = ToLower nm s;
                s = TrimRight s ''.''
            in if s = [] then []
               else if isASCII s then s
               else case lookupToASCII nm s of
                 Inl err \<Rightarrow> []
               | Inr ascii \<Rightarrow> ascii))"

section \<open>Trimming\<close>

lemma dropWhile_pad: "list_all P xs \<Longrightarrow> dropWhile P (xs @ ys) = dropWhile P ys"
  by (induction xs) auto

lemma dropWhile_stop: "ys \<noteq> [] \<Longrightarrow> \<not> P (hd ys) \<Longrightarrow> dropWhile P (ys @ zs) = ys @ zs"
  by (cases ys) auto

lemma trimBoth_pad:
  assumes "list_all P xs" and "list_all P zs" and "ys \<noteq> []" and "\<not> P (hd ys)" and "\<not> P (last ys)"
  shows "trimBoth P (xs @ ys @ zs) = ys"
proof -
  have "dropWhile P (xs @ ys @ zs) = ys @ zs"
    using assms(1,3,4) by (simp add: dropWhile_pad dropWhile_stop)
  moreover have "dropWhile P (rev zs @ rev ys) = rev ys"
    using dropWhile_pad [of P "rev zs" "rev ys"] dropWhile_stop [of "rev ys" P "[]"] assms(2,3,5)
    by (simp add: hd_rev)
  ultimately show ?thesis by (simp add: trimBoth_def)
qed

lemma trimBoth_map: "trimBoth P (map f xs) = map f (trimBoth (\<lambda>x. P (f x)) xs)"
  by (simp add: trimBoth_def dropWhile_map rev_map comp_def)

definition spaceByte :: "char \<Rightarrow> bool" where
  "spaceByte c \<longleftrightarrow> c \<in> set [CHR 0x09, CHR 0x0A, CHR 0x0B, CHR 0x0C, CHR 0x0D, CHR '' '']"

lemma isSpaceRune_ascii:
  assumes "of_char c < (128 :: nat)"
  shows "isSpaceRune (of_char c) \<longleftrightarrow> spaceByte c"
proof -
  have eq: "c = d \<longleftrightarrow> (of_char c :: nat) = of_char d" for d by simp
  show ?thesis
    using assms eq [of "CHR 0x09"] eq [of "CHR 0x0A"] eq [of "CHR 0x0B"] eq [of "CHR 0x0C"]
      eq [of "CHR 0x0D"] eq [of "CHR '' ''"]
    by (simp add: isSpaceRune_def spaceByte_def)
qed

lemma TrimSpace_ascii: "isASCII s \<Longrightarrow> TrimSpace s = trimBoth spaceByte s"
proof -
  assume a: "isASCII s"
  have "trimBoth (\<lambda>c. isSpaceRune (of_char c)) s = trimBoth spaceByte s"
  proof -
    have eq: "\<forall>c \<in> set s. isSpaceRune (of_char c) = spaceByte c"
      using a isSpaceRune_ascii by (simp add: isASCII_def list_all_iff)
    then have d: "dropWhile (\<lambda>c. isSpaceRune (of_char c)) s = dropWhile spaceByte s"
      by (intro dropWhile_cong) auto
    have "\<forall>c \<in> set (rev (dropWhile spaceByte s)). isSpaceRune (of_char c) = spaceByte c"
      using eq by (auto dest: set_dropWhileD)
    then show ?thesis unfolding trimBoth_def d by (intro arg_cong [where f = rev] dropWhile_cong) auto
  qed
  then show ?thesis
    using a by (simp add: TrimSpace_def isASCII_runes trimBoth_map comp_def)
qed

lemma set_trimBoth: "set (trimBoth P xs) \<subseteq> set xs"
  by (auto simp: trimBoth_def dest!: set_dropWhileD)

lemma isASCII_subset: "set t \<subseteq> set s \<Longrightarrow> isASCII s \<Longrightarrow> isASCII t"
  by (auto simp: isASCII_def list_all_iff)

section \<open>Names in ASCII\<close>

text \<open>A plain name: letters in lower case, digits and marks other than quotes, with no dot at its
  end. \<open>plainByte\<close> leaves out capitals, quotes, controls and spaces.\<close>

definition plainByte :: "char \<Rightarrow> bool" where
  "plainByte c \<longleftrightarrow> 32 < (of_char c :: nat) \<and> of_char c < (127 :: nat) \<and>
     \<not> (65 \<le> (of_char c :: nat) \<and> (of_char c :: nat) \<le> 90) \<and> c \<noteq> CHR 0x22 \<and> c \<noteq> CHR 0x27"

definition plain :: "bytes \<Rightarrow> bool" where
  "plain d \<longleftrightarrow> d \<noteq> [] \<and> list_all plainByte d \<and> last d \<noteq> CHR ''.''"

lemma plainByte_ascii: "plainByte c \<Longrightarrow> of_char c < (128 :: nat)"
  by (simp add: plainByte_def)

lemma lowerByte_less: "of_char c < (128 :: nat) \<longleftrightarrow> of_char (lowerByte c) < (128 :: nat)"
  by (auto simp: lowerByte_def of_char_of)

lemma plain_raw:
  assumes "plainByte (lowerByte c)"
  shows "of_char c < (128 :: nat)" and "\<not> spaceByte c" and "c \<noteq> CHR 0x22" and "c \<noteq> CHR 0x27"
proof -
  show "of_char c < (128 :: nat)"
    using assms lowerByte_less [of c] by (simp add: plainByte_def)
  have "32 < (of_char c :: nat)"
    using assms by (auto simp: plainByte_def lowerByte_def split: if_splits)
  then show "\<not> spaceByte c" by (auto simp: spaceByte_def)
  show "c \<noteq> CHR 0x22" "c \<noteq> CHR 0x27" using assms by (auto simp: plainByte_def lowerByte_def split: if_splits)
qed

lemma spaceByte_ascii: "spaceByte c \<Longrightarrow> of_char c < (128 :: nat)"
  by (auto simp: spaceByte_def)

text \<open>The shape of a spelling: the name in any case, with dots at its end, quotes around it and
  white space around these.\<close>

lemma NormalizeDomain_spelling:
  assumes d: "plain d" and u: "map lowerByte u = d"
    and pre: "list_all spaceByte pre" and post: "list_all spaceByte post"
    and q: "set q1 \<union> set q2 \<subseteq> {CHR 0x22, CHR 0x27}" and dots: "set dots \<subseteq> {CHR ''.''}"
  shows "NormalizeDomain nm (pre @ q1 @ u @ dots @ q2 @ post) = d"
proof -
  let ?quotes = "[CHR 0x22, CHR 0x27]"
  let ?m = "q1 @ u @ dots @ q2"
  have plain_u: "plainByte (lowerByte c)" if "c \<in> set u" for c
    using d u that by (auto simp: plain_def list_all_iff)
  have ne: "u \<noteq> []" using d u by (auto simp: plain_def)
  have ascii_m: "isASCII ?m"
    using q dots plain_raw(1) [OF plain_u] by (auto simp: isASCII_def list_all_iff)
  moreover have "isASCII pre" "isASCII post"
    using pre post by (auto simp: isASCII_def list_all_iff intro: spaceByte_ascii)
  ultimately have ascii: "isASCII (pre @ ?m @ post)" by (simp add: isASCII_def)
  have no_space: "\<not> spaceByte c" if "c \<in> set ?m" for c
    using that q dots plain_raw(2) [OF plain_u] by (auto simp: spaceByte_def)
  have 1: "TrimSpace (pre @ ?m @ post) = ?m"
    unfolding TrimSpace_ascii [OF ascii]
  proof (rule trimBoth_pad [OF pre post])
    show "?m \<noteq> []" using ne by simp
    then show "\<not> spaceByte (hd ?m)" "\<not> spaceByte (last ?m)"
      by (intro no_space hd_in_set last_in_set; assumption)+
  qed
  have no_quote: "c \<notin> set ?quotes" if "c \<in> set (u @ dots)" for c
    using that dots plain_raw(3,4) [OF plain_u] by auto
  have 2: "Trim ?m ?quotes = u @ dots"
    unfolding Trim_def append_assoc [symmetric, of u]
  proof (rule trimBoth_pad)
    show "list_all (\<lambda>c. c \<in> set ?quotes) q1" "list_all (\<lambda>c. c \<in> set ?quotes) q2"
      using q by (auto simp: list_all_iff)
    show "u @ dots \<noteq> []" using ne by simp
    then show "hd (u @ dots) \<notin> set ?quotes" "last (u @ dots) \<notin> set ?quotes"
      by (intro no_quote hd_in_set last_in_set; assumption)+
  qed
  have "isASCII (u @ dots)" by (rule isASCII_subset [OF _ ascii_m]) auto
  moreover have "map lowerByte dots = dots"
    using dots by (intro map_idI) (auto simp: lowerByte_def)
  ultimately have 3: "ToLower nm (u @ dots) = d @ dots" by (simp add: ToLower_def u)
  have "dropWhile (\<lambda>c. c \<in> set ''.'') (rev dots @ rev d) = rev d"
    using dropWhile_pad [of "\<lambda>c. c \<in> set ''.''" "rev dots" "rev d"]
      dropWhile_stop [of "rev d" "\<lambda>c. c \<in> set ''.''" "[]"] dots d
    by (auto simp: list_all_iff hd_rev plain_def)
  then have 4: "TrimRight (d @ dots) ''.'' = d" by (simp add: TrimRight_def)
  have "isASCII d" using d plainByte_ascii by (simp add: plain_def isASCII_def list_all_iff)
  moreover have "d \<noteq> []" "u @ dots \<noteq> []" using d ne by (simp_all add: plain_def)
  moreover have "pre @ q1 @ u @ dots @ q2 @ post = pre @ ?m @ post" by simp
  ultimately show ?thesis
    by (simp only: NormalizeDomain_def Let_def 1 2 3 4 if_False if_True)
qed

lemma lowerByte_idem [simp]: "lowerByte (lowerByte c) = lowerByte c"
  by (auto simp: lowerByte_def of_char_of)

lemma plainByte_lower: "plainByte c \<Longrightarrow> lowerByte c = c"
  by (auto simp: plainByte_def lowerByte_def)

lemma TrimRight_last: "TrimRight s ''.'' \<noteq> [] \<Longrightarrow> last (TrimRight s ''.'') \<noteq> CHR ''.''"
  using hd_dropWhile [of "\<lambda>c. c \<in> set ''.''" "rev s"] by (simp add: TrimRight_def last_rev)

lemma set_TrimRight: "set (TrimRight s cutset) \<subseteq> set s"
  by (auto simp: TrimRight_def dest!: set_dropWhileD)

lemma NormalizeDomain_ascii:
  assumes "isASCII s" and "NormalizeDomain nm s \<noteq> []"
  shows "last (NormalizeDomain nm s) \<noteq> CHR ''.''" and "map lowerByte (NormalizeDomain nm s) = NormalizeDomain nm s"
proof -
  define t where "t = Trim (TrimSpace s) [CHR 0x22, CHR 0x27]"
  have t: "isASCII t"
    using assms(1) set_trimBoth unfolding t_def Trim_def TrimSpace_ascii [OF assms(1)]
    by (meson isASCII_subset)
  then have low: "isASCII (map lowerByte t)"
    using lowerByte_less by (simp add: isASCII_def list_all_iff)
  have asc: "isASCII (TrimRight (map lowerByte t) ''.'')"
    by (rule isASCII_subset [OF set_TrimRight low])
  have n: "NormalizeDomain nm s = TrimRight (map lowerByte t) ''.''"
  proof (cases "t = []")
    case True
    then show ?thesis by (simp add: NormalizeDomain_def Let_def t_def [symmetric] TrimRight_def)
  next
    case False
    with t asc show ?thesis by (simp add: NormalizeDomain_def Let_def t_def [symmetric] ToLower_def)
  qed
  with assms(2) show "last (NormalizeDomain nm s) \<noteq> CHR ''.''" by (simp add: TrimRight_last)
  have "\<forall>c \<in> set (map lowerByte t). lowerByte c = c" by simp
  with set_TrimRight [of "map lowerByte t" "''.''"]
  show "map lowerByte (NormalizeDomain nm s) = NormalizeDomain nm s"
    unfolding n by (intro map_idI) blast
qed

text \<open>The key of a name that does not end in a dot has at least its last label.\<close>

lemma reverseLoop_extends: "\<exists>t. reverseLoop key stop b = b @ t"
proof (induction key stop b rule: reverseLoop.induct)
  case (1 key stop b)
  define i where "i = scanLabel key (stop - 1)"
  define b' where "b' = (if i + 1 < stop
                 then let b = b @ drop (nat (i + 1)) (take (nat stop) key)
                      in if i > 0 then b @ [CHR ''.''] else b
                 else b)"
  have b': "\<exists>t. b' = b @ t" by (simp add: b'_def Let_def)
  have step: "reverseLoop key stop b = (if stop \<ge> 0 then reverseLoop key i b' else b)"
    by (subst reverseLoop.simps) (simp add: Let_def i_def b'_def)
  show ?case
  proof (cases "stop \<ge> 0")
    case True
    from "1.IH" [OF True i_def b'_def] b' step True show ?thesis by auto
  qed (simp add: step)
qed

lemma ReverseLabels_nonempty:
  assumes "d \<noteq> []" and "last d \<noteq> CHR ''.''"
  shows "ReverseLabels d \<noteq> []"
proof -
  let ?n = "int (length d)"
  define i where "i = scanLabel d (?n - 1)"
  have "nat (?n - 1) = length d - 1" by simp
  then have "d ! nat (?n - 1) \<noteq> CHR ''.''" using assms by (simp add: last_conv_nth)
  then have "scanLabel d (?n - 1) = scanLabel d (?n - 1 - 1)"
    using assms(1) by (subst scanLabel.simps) simp
  then have i: "i < ?n - 1" using scanLabel_less [of "?n - 1 - 1" "?n - 1" d] by (simp add: i_def)
  define b where "b = (let b = drop (nat (i + 1)) d in if i > 0 then b @ [CHR ''.''] else b)"
  have "reverseLoop d ?n [] = reverseLoop d i b"
    using i by (subst reverseLoop.simps) (simp add: Let_def i_def [symmetric] b_def)
  moreover have "nat (i + 1) < length d"
    using i assms(1) by (cases "0 \<le> i + 1") (auto simp: nat_less_iff)
  then have "b \<noteq> []" by (auto simp: b_def Let_def)
  ultimately show ?thesis
    using reverseLoop_extends [of d i b] by (auto simp: ReverseLabels_def reverseLabelsInto_def)
qed

text \<open>
  C36. A domain has one normal form: every spelling of a plain name, in capitals or not, with dots
  at its end, quotes around it and white space around these, becomes the name itself. What any
  line in ASCII becomes is empty or a name in lower case without a dot at its end, which has a key
  in the tables of the router.
\<close>

theorem NormalizeDomain_canonical:
  assumes "plain d" and "map lowerByte u = d" and "list_all spaceByte (pre @ post)"
    and "set q1 \<union> set q2 \<subseteq> {CHR 0x22, CHR 0x27}" and "set dots \<subseteq> {CHR ''.''}" and "isASCII s"
  shows "NormalizeDomain nm (pre @ q1 @ u @ dots @ q2 @ post) = d \<and> NormalizeDomain nm d = d \<and>
    (NormalizeDomain nm s = [] \<or>
      last (NormalizeDomain nm s) \<noteq> CHR ''.'' \<and> map lowerByte (NormalizeDomain nm s) = NormalizeDomain nm s \<and>
      ReverseLabels (NormalizeDomain nm s) \<noteq> [])"
proof -
  have "map lowerByte d = d" using assms(2) by auto
  then have "NormalizeDomain nm d = d"
    using NormalizeDomain_spelling [OF assms(1), of d "[]" "[]" "[]" "[]" "[]" nm] by simp
  moreover have "NormalizeDomain nm (pre @ q1 @ u @ dots @ q2 @ post) = d"
    by (rule NormalizeDomain_spelling) (use assms in auto)
  ultimately show ?thesis
    using NormalizeDomain_ascii [OF assms(6), of nm] ReverseLabels_nonempty by blast
qed

definition demo_names :: names where
  "demo_names = \<lparr>unicodeLower = (\<lambda>r. r), lookupToASCII = (\<lambda>s. Inr s)\<rparr>"

lemma NormalizeDomain_canonical_witness:
  "NormalizeDomain demo_names (''  '' @ [CHR 0x22] @ ''Example.COM'' @ ''.'' @ [CHR 0x22] @ [CHR 0x0D]) = ''example.com''"
proof -
  have "plain ''example.com''" by (simp add: plain_def plainByte_def)
  moreover have "map lowerByte ''Example.COM'' = ''example.com''" by code_simp
  moreover have "list_all spaceByte (''  '' @ [CHR 0x0D])" by (simp add: spaceByte_def)
  moreover have "isASCII []" by (simp add: isASCII_def)
  ultimately show ?thesis
    using NormalizeDomain_canonical [of "''example.com''" "''Example.COM''" "''  ''" "[CHR 0x0D]" "[CHR 0x22]" "[CHR 0x22]" "''.''" "[]" demo_names]
    by simp
qed

end
