(* ===== verification/Byte_Writer.thy ===== *)
theory Byte_Writer
  imports AZ_Prelude
begin

text \<open>
  The interface \<open>io.Writer\<close> as the store uses it: an operation \<open>Write\<close> on a state, with the bytes
  that the state has taken. The format of the files is written against \<open>byte_writer\<close>, and what a
  failing writer leaves alone is the frame of \<open>framed_writer\<close>.
\<close>

type_synonym 'w writer = "bytes \<Rightarrow> 'w \<Rightarrow> error option \<times> 'w"

text \<open>A writer that reports no error has taken all the bytes, in order.\<close>

locale byte_writer =
  fixes wr :: "'w writer"
    and content :: "'w \<Rightarrow> bytes"
  assumes write_appends: "wr p w = (None, w') \<Longrightarrow> content w' = content w @ p"

locale framed_writer = byte_writer wr content
  for wr :: "'w writer" and content :: "'w \<Rightarrow> bytes" +
  fixes frame :: "'w \<Rightarrow> 'w \<Rightarrow> bool"
  assumes frame_refl: "frame w w"
    and frame_trans: "frame u v \<Longrightarrow> frame v w \<Longrightarrow> frame u w"
    and write_frame: "wr p w = (e, w') \<Longrightarrow> frame w w'"

text \<open>A writer on a device without faults takes every write.\<close>

locale live_writer =
  fixes wr :: "'w writer"
    and ok :: "'w \<Rightarrow> bool"
  assumes write_live: "ok w \<Longrightarrow> \<exists>w'. wr p w = (None, w') \<and> ok w'"

end
