(* ===== verification/Store_Format.thy ===== *)
theory Store_Format
  imports Byte_Writer
begin

text \<open>
  The file format of the store, \<open>src/server/router/store/format.go\<close>: a preamble, then sections of
  a type, a length and a value. A run has sections for its validator and a data section of records;
  the saved matcher has one data section. An \<open>io.Writer\<close> is its operation \<open>Write\<close> on a state
  of the caller, and the locale \<open>byte_writer\<close> is what the format relies on. A \<open>bufio.Reader\<close> on a
  file is the bytes that are still to come and the error that follows them (\<open>io.EOF\<close> for a file
  that can be read to its end).
\<close>

section \<open>Constants and data\<close>

definition magic :: bytes where "magic = ''AZRS''"
definition formatVersion :: char where "formatVersion = CHR 0x01"
definition preambleLen :: nat where "preambleLen = 5"
definition sectionHeaderLen :: nat where "sectionHeaderLen = 5"
definition recordHeaderLen :: nat where "recordHeaderLen = 3"

definition secETag :: char where "secETag = CHR 0x01"
definition secLastModified :: char where "secLastModified = CHR 0x02"
definition secMTime :: char where "secMTime = CHR 0x03"
definition secSize :: char where "secSize = CHR 0x04"
definition secFingerprint :: char where "secFingerprint = CHR 0x05"
definition secData :: char where "secData = CHR 0x10"

lemmas sec_defs = secETag_def secLastModified_def secMTime_def secSize_def secFingerprint_def secData_def

definition errBadFormat :: error where "errBadFormat = Err ''not an AZRS store file''"
definition errVersion :: error where "errVersion = Err ''store: unsupported format version''"
definition errTruncated :: error where "errTruncated = Err ''store: truncated section''"
definition errMissing :: error where "errMissing = Err ''store: section missing''"

text \<open>The fields \<open>MTime\<close> and \<open>Size\<close> are the 64 bits of an \<open>int64\<close>.\<close>

record Validator =
  ETag :: bytes
  LastModified :: bytes
  MTime :: u64
  Size :: u64
  Fingerprint :: bytes

definition noValidator :: Validator where
  "noValidator = \<lparr>ETag = [], LastModified = [], MTime = 0, Size = 0, Fingerprint = []\<rparr>"

datatype Record = Record (Key: bytes) (Mode: u8)

section \<open>Writing\<close>

definition writePreamble :: "'w writer \<Rightarrow> 'w \<Rightarrow> error option \<times> 'w" where
  "writePreamble write w =
     (case write magic w of
        (Some err, w) \<Rightarrow> (Some err, w)
      | (None, w) \<Rightarrow> write [formatVersion] w)"

definition writeSection :: "'w writer \<Rightarrow> char \<Rightarrow> bytes \<Rightarrow> 'w \<Rightarrow> error option \<times> 'w" where
  "writeSection write typ val w =
     (case write (typ # be_put 4 (length val)) w of
        (Some err, w) \<Rightarrow> (Some err, w)
      | (None, w) \<Rightarrow> write val w)"

text \<open>The closures \<open>str\<close> and \<open>num\<close> of \<open>writeValidator\<close>.\<close>

definition writeStr :: "'w writer \<Rightarrow> char \<Rightarrow> bytes \<Rightarrow> 'w \<Rightarrow> error option \<times> 'w" where
  "writeStr write typ s w = (if s = [] then (None, w) else writeSection write typ s w)"

definition writeNum :: "'w writer \<Rightarrow> char \<Rightarrow> u64 \<Rightarrow> 'w \<Rightarrow> error option \<times> 'w" where
  "writeNum write typ n w = (if n = 0 then (None, w) else writeSection write typ (be_put 8 (unat n)) w)"

definition writeValidator :: "'w writer \<Rightarrow> Validator \<Rightarrow> 'w \<Rightarrow> error option \<times> 'w" where
  "writeValidator write v w =
     (case writeStr write secETag (ETag v) w of
        (Some err, w) \<Rightarrow> (Some err, w)
      | (None, w) \<Rightarrow>
     (case writeStr write secLastModified (LastModified v) w of
        (Some err, w) \<Rightarrow> (Some err, w)
      | (None, w) \<Rightarrow>
     (case writeNum write secMTime (MTime v) w of
        (Some err, w) \<Rightarrow> (Some err, w)
      | (None, w) \<Rightarrow>
     (case writeNum write secSize (Size v) w of
        (Some err, w) \<Rightarrow> (Some err, w)
      | (None, w) \<Rightarrow> writeStr write secFingerprint (Fingerprint v) w))))"

text \<open>
  The comparison of \<open>writeData\<close> is a linear order on the records, so the result of
  \<open>slices.SortFunc\<close>, which is not stable, is the sorted list.
\<close>

definition cmpRecord :: "Record \<Rightarrow> Record \<Rightarrow> int" where
  "cmpRecord a b =
     (if Key a < Key b then -1 else if Key b < Key a then 1
      else uint (Mode b) - uint (Mode a))"

instantiation Record :: linorder
begin

definition less_eq_Record :: "Record \<Rightarrow> Record \<Rightarrow> bool" where
  "a \<le> b \<longleftrightarrow> cmpRecord a b \<le> 0"

definition less_Record :: "Record \<Rightarrow> Record \<Rightarrow> bool" where
  "a < b \<longleftrightarrow> cmpRecord a b < 0"

instance
proof
  fix a b c :: Record
  show "a < b \<longleftrightarrow> a \<le> b \<and> \<not> b \<le> a"
    by (auto simp: less_Record_def less_eq_Record_def cmpRecord_def)
  show "a \<le> a" by (simp add: less_eq_Record_def cmpRecord_def)
  show "a \<le> b \<Longrightarrow> b \<le> c \<Longrightarrow> a \<le> c"
    by (auto simp: less_eq_Record_def cmpRecord_def split: if_splits)
  show "a \<le> b \<Longrightarrow> b \<le> a \<Longrightarrow> a = b"
    by (cases a; cases b) (auto simp: less_eq_Record_def cmpRecord_def word_uint_eq_iff split: if_splits)
  show "a \<le> b \<or> b \<le> a" by (auto simp: less_eq_Record_def cmpRecord_def)
qed

end

text \<open>\<open>slices.CompactFunc\<close> with the equality of the keys: the first record of each group stays.\<close>

fun compactKeys :: "Record list \<Rightarrow> Record list" where
  "compactKeys (a # b # rs) =
     (if Key a = Key b then compactKeys (a # rs) else a # compactKeys (b # rs))"
| "compactKeys rs = rs"

fun writeRecords :: "'w writer \<Rightarrow> Record list \<Rightarrow> 'w \<Rightarrow> error option \<times> 'w" where
  "writeRecords write [] w = (None, w)"
| "writeRecords write (r # rs) w =
     (case write (char_of (unat (Mode r)) # be_put 2 (length (Key r))) w of
        (Some err, w) \<Rightarrow> (Some err, w)
      | (None, w) \<Rightarrow>
     (case write (Key r) w of
        (Some err, w) \<Rightarrow> (Some err, w)
      | (None, w) \<Rightarrow> writeRecords write rs w))"

definition writeData :: "'w writer \<Rightarrow> Record list \<Rightarrow> 'w \<Rightarrow> error option \<times> 'w" where
  "writeData write recs w =
     (let recs = compactKeys (sort recs);
          dataLen = sum_list (map (\<lambda>r. recordHeaderLen + length (Key r)) recs)
      in case write (secData # be_put 4 dataLen) w of
           (Some err, w) \<Rightarrow> (Some err, w)
         | (None, w) \<Rightarrow> writeRecords write recs w)"

section \<open>Reading\<close>

record reader =
  rest :: bytes
  atEnd :: error

definition EOF :: error where "EOF = Err ''EOF''"
definition ErrUnexpectedEOF :: error where "ErrUnexpectedEOF = Err ''unexpected EOF''"

text \<open>\<open>io.ReadFull\<close> into a buffer of \<open>n\<close> bytes.\<close>

definition readFull :: "nat \<Rightarrow> reader \<Rightarrow> (error + bytes) \<times> reader" where
  "readFull n br =
     (if n \<le> length (rest br) then (Inr (take n (rest br)), br\<lparr>rest := drop n (rest br)\<rparr>)
      else (Inl (if atEnd br = EOF \<and> rest br \<noteq> [] then ErrUnexpectedEOF else atEnd br), br\<lparr>rest := []\<rparr>))"

definition readPreamble :: "reader \<Rightarrow> error option \<times> reader" where
  "readPreamble br =
     (case readFull preambleLen br of
        (Inl err, br) \<Rightarrow> (Some errBadFormat, br)
      | (Inr p, br) \<Rightarrow>
          if take (length magic) p \<noteq> magic then (Some errBadFormat, br)
          else if p ! length magic \<noteq> formatVersion then (Some errVersion, br)
          else (None, br))"

definition readSectionHeader :: "reader \<Rightarrow> (error + char \<times> u32) \<times> reader" where
  "readSectionHeader br =
     (case readFull sectionHeaderLen br of
        (Inl err, br) \<Rightarrow> (Inl err, br)
      | (Inr h, br) \<Rightarrow> (Inr (h ! 0, word_of_nat (be_get (drop 1 h))), br))"

text \<open>The \<open>switch\<close> on the type of a section in \<open>readHeader\<close>.\<close>

definition setField :: "char \<Rightarrow> bytes \<Rightarrow> Validator \<Rightarrow> Validator" where
  "setField typ val v =
     (if typ = secETag then v\<lparr>ETag := val\<rparr>
      else if typ = secLastModified then v\<lparr>LastModified := val\<rparr>
      else if typ = secMTime then
        (if length val = 8 then v\<lparr>MTime := word_of_nat (be_get val)\<rparr> else v)
      else if typ = secSize then
        (if length val = 8 then v\<lparr>Size := word_of_nat (be_get val)\<rparr> else v)
      else if typ = secFingerprint then v\<lparr>Fingerprint := val\<rparr>
      else v)"

text \<open>The results are named in the code: on an error the fields read so far are returned with it.\<close>

type_synonym header = "Validator \<times> u32 \<times> error option"

lemma readFull_Inr:
  "readFull n br = (Inr val, br') \<Longrightarrow>
     n \<le> length (rest br) \<and> val = take n (rest br) \<and> br' = br\<lparr>rest := drop n (rest br)\<rparr>"
  by (auto simp: readFull_def split: if_splits)

lemma readSectionHeader_less:
  "readSectionHeader br = (Inr h, br') \<Longrightarrow> length (rest br') < length (rest br)"
  by (auto simp: readSectionHeader_def sectionHeaderLen_def split: sum.splits prod.splits
      dest!: readFull_Inr)

function headerLoop :: "Validator \<Rightarrow> reader \<Rightarrow> header \<times> reader" where
  "headerLoop v br =
     (case readSectionHeader br of
        (Inl err, br) \<Rightarrow> ((v, 0, Some err), br)
      | (Inr (typ, len), br) \<Rightarrow>
          if typ = secData then ((v, len, None), br)
          else (case readFull (unat len) br of
              (Inl err, br) \<Rightarrow> ((v, 0, Some err), br)
            | (Inr val, br) \<Rightarrow> headerLoop (setField typ val v) br))"
  by pat_completeness auto

termination
proof (relation "measure (\<lambda>(v, br). length (rest br))", goal_cases)
  case (2 v br h br1 h' t len val br2)
  then show ?case by (auto dest!: readFull_Inr [OF sym] readSectionHeader_less [OF sym])
qed simp

declare headerLoop.simps [simp del]

definition readHeader :: "reader \<Rightarrow> header \<times> reader" where
  "readHeader br =
     (case readPreamble br of
        (Some err, br) \<Rightarrow> ((noValidator, 0, Some err), br)
      | (None, br) \<Rightarrow> headerLoop noValidator br)"

text \<open>\<open>sectionValue\<close> works on the bytes of a whole file, by index.\<close>

function sectionLoop :: "bytes \<Rightarrow> char \<Rightarrow> nat \<Rightarrow> error + bytes" where
  "sectionLoop raw want p =
     (if p + sectionHeaderLen \<le> length raw then
        (let typ = raw ! p;
             len = be_get (take 4 (drop (p + 1) raw));
             p = p + sectionHeaderLen
         in if p + len > length raw then Inl errTruncated
            else if typ = want then Inr (take len (drop p raw))
            else sectionLoop raw want (p + len))
      else Inl errMissing)"
  by pat_completeness auto
termination by (relation "measure (\<lambda>(raw, want, p). length raw - p)") (auto simp: sectionHeaderLen_def)

declare sectionLoop.simps [simp del]

definition sectionValue :: "bytes \<Rightarrow> char \<Rightarrow> error + bytes" where
  "sectionValue raw want =
     (if length raw < preambleLen \<or> take (length magic) raw \<noteq> magic then Inl errBadFormat
      else if raw ! length magic \<noteq> formatVersion then Inl errVersion
      else sectionLoop raw want preambleLen)"

section \<open>The bytes of a file\<close>

text \<open>What each writing operation appends when it succeeds.\<close>

definition preambleBytes :: bytes where "preambleBytes = magic @ [formatVersion]"

definition sectionBytes :: "char \<Rightarrow> bytes \<Rightarrow> bytes" where
  "sectionBytes typ val = typ # be_put 4 (length val) @ val"

definition strBytes :: "char \<Rightarrow> bytes \<Rightarrow> bytes" where
  "strBytes typ s = (if s = [] then [] else sectionBytes typ s)"

definition numBytes :: "char \<Rightarrow> u64 \<Rightarrow> bytes" where
  "numBytes typ n = (if n = 0 then [] else sectionBytes typ (be_put 8 (unat n)))"

definition validatorBytes :: "Validator \<Rightarrow> bytes" where
  "validatorBytes v = strBytes secETag (ETag v) @ strBytes secLastModified (LastModified v) @
     numBytes secMTime (MTime v) @ numBytes secSize (Size v) @ strBytes secFingerprint (Fingerprint v)"

definition recordBytes :: "Record \<Rightarrow> bytes" where
  "recordBytes r = char_of (unat (Mode r)) # be_put 2 (length (Key r)) @ Key r"

definition recordsBytes :: "Record list \<Rightarrow> bytes" where
  "recordsBytes recs = concat (map recordBytes recs)"

definition dataLen :: "Record list \<Rightarrow> nat" where
  "dataLen recs = sum_list (map (\<lambda>r. recordHeaderLen + length (Key r)) recs)"

definition dataBytes :: "Record list \<Rightarrow> bytes" where
  "dataBytes recs = secData # be_put 4 (dataLen recs) @ recordsBytes recs"

lemmas file_bytes = preambleBytes_def sectionBytes_def strBytes_def numBytes_def validatorBytes_def
  recordsBytes_def dataBytes_def

lemma length_recordsBytes: "length (recordsBytes recs) = dataLen recs"
  by (induction recs) (simp_all add: recordsBytes_def dataLen_def recordBytes_def recordHeaderLen_def)

context byte_writer
begin

lemma writePreamble_bytes:
  "writePreamble wr w = (None, w') \<Longrightarrow> content w' = content w @ preambleBytes"
  by (auto simp: writePreamble_def preambleBytes_def split: prod.splits option.splits
      dest!: write_appends)

lemma writeSection_bytes:
  "writeSection wr typ val w = (None, w') \<Longrightarrow> content w' = content w @ sectionBytes typ val"
  by (auto simp: writeSection_def sectionBytes_def split: prod.splits option.splits
      dest!: write_appends)

lemma writeStr_bytes:
  "writeStr wr typ s w = (None, w') \<Longrightarrow> content w' = content w @ strBytes typ s"
  by (auto simp: writeStr_def strBytes_def split: if_splits dest!: writeSection_bytes)

lemma writeNum_bytes:
  "writeNum wr typ n w = (None, w') \<Longrightarrow> content w' = content w @ numBytes typ n"
  by (auto simp: writeNum_def numBytes_def split: if_splits dest!: writeSection_bytes)

lemma writeValidator_bytes:
  "writeValidator wr v w = (None, w') \<Longrightarrow> content w' = content w @ validatorBytes v"
  by (auto simp: writeValidator_def validatorBytes_def split: prod.splits option.splits
      dest!: writeStr_bytes writeNum_bytes)

lemma writeRecords_bytes:
  "writeRecords wr recs w = (None, w') \<Longrightarrow> content w' = content w @ recordsBytes recs"
proof (induction recs arbitrary: w)
  case (Cons r recs)
  then show ?case
    by (auto simp: recordsBytes_def recordBytes_def split: prod.splits option.splits
        dest!: write_appends)
qed (simp add: recordsBytes_def)

lemma writeData_bytes:
  "writeData wr recs w = (None, w') \<Longrightarrow> content w' = content w @ dataBytes (compactKeys (sort recs))"
  by (auto simp: writeData_def dataBytes_def dataLen_def Let_def split: prod.splits option.splits
      dest!: write_appends writeRecords_bytes)

end

context framed_writer
begin

lemma writePreamble_frame: "writePreamble wr w = (e, w') \<Longrightarrow> frame w w'"
  by (auto simp: writePreamble_def split: prod.splits option.splits intro: frame_trans write_frame)

lemma writeSection_frame: "writeSection wr typ val w = (e, w') \<Longrightarrow> frame w w'"
  by (auto simp: writeSection_def split: prod.splits option.splits intro: frame_trans write_frame)

lemma writeStr_frame: "writeStr wr typ s w = (e, w') \<Longrightarrow> frame w w'"
  by (auto simp: writeStr_def split: if_splits intro: frame_refl writeSection_frame)

lemma writeNum_frame: "writeNum wr typ n w = (e, w') \<Longrightarrow> frame w w'"
  by (auto simp: writeNum_def split: if_splits intro: frame_refl writeSection_frame)

lemma writeValidator_frame: "writeValidator wr v w = (e, w') \<Longrightarrow> frame w w'"
  by (auto simp: writeValidator_def split: prod.splits option.splits
      dest!: writeStr_frame writeNum_frame) (meson frame_trans)+

lemma writeRecords_frame: "writeRecords wr recs w = (e, w') \<Longrightarrow> frame w w'"
proof (induction recs arbitrary: w)
  case (Cons r recs)
  obtain e1 w1 where w1: "wr (char_of (unat (Mode r)) # be_put 2 (length (Key r))) w = (e1, w1)"
    by (rule prod.exhaust)
  obtain e2 w2 where w2: "wr (Key r) w1 = (e2, w2)" by (rule prod.exhaust)
  from Cons.prems w1 w2 consider "w' = w1" | "w' = w2" | "writeRecords wr recs w2 = (e, w')"
    by (auto split: option.splits)
  then show ?case
    using write_frame [OF w1] frame_trans [OF write_frame [OF w1] write_frame [OF w2]] Cons.IH [of w2]
    by cases (auto intro: frame_trans)
qed (simp add: frame_refl)

lemma writeData_frame: "writeData wr recs w = (e, w') \<Longrightarrow> frame w w'"
  by (auto simp: writeData_def Let_def split: prod.splits option.splits
      dest!: write_frame writeRecords_frame elim: frame_trans)

end

context live_writer
begin

lemma writeE:
  assumes "ok w"
  obtains w' where "wr p w = (None, w')" and "ok w'"
  using write_live [OF assms] by blast

lemma writePreamble_live: "ok w \<Longrightarrow> \<exists>w'. writePreamble wr w = (None, w') \<and> ok w'"
  by (erule writeE [where p = magic], erule writeE [where p = "[formatVersion]"])
    (simp add: writePreamble_def)

lemma writeSection_live: "ok w \<Longrightarrow> \<exists>w'. writeSection wr typ val w = (None, w') \<and> ok w'"
  by (erule writeE [where p = "typ # be_put 4 (length val)"], erule writeE [where p = val])
    (simp add: writeSection_def)

lemma writeStr_live: "ok w \<Longrightarrow> \<exists>w'. writeStr wr typ t w = (None, w') \<and> ok w'"
  by (simp add: writeStr_def writeSection_live)

lemma writeNum_live: "ok w \<Longrightarrow> \<exists>w'. writeNum wr typ n w = (None, w') \<and> ok w'"
  by (simp add: writeNum_def writeSection_live)

lemma writeValidator_live:
  assumes "ok w"
  shows "\<exists>w'. writeValidator wr v w = (None, w') \<and> ok w'"
proof -
  obtain w1 where 1: "writeStr wr secETag (ETag v) w = (None, w1)" "ok w1"
    using writeStr_live [OF assms] by blast
  obtain w2 where 2: "writeStr wr secLastModified (LastModified v) w1 = (None, w2)" "ok w2"
    using writeStr_live [OF 1(2)] by blast
  obtain w3 where 3: "writeNum wr secMTime (MTime v) w2 = (None, w3)" "ok w3"
    using writeNum_live [OF 2(2)] by blast
  obtain w4 where 4: "writeNum wr secSize (Size v) w3 = (None, w4)" "ok w4"
    using writeNum_live [OF 3(2)] by blast
  show ?thesis using writeStr_live [OF 4(2)] by (simp add: writeValidator_def 1 2 3 4)
qed

lemma writeRecords_live: "ok w \<Longrightarrow> \<exists>w'. writeRecords wr recs w = (None, w') \<and> ok w'"
proof (induction recs arbitrary: w)
  case (Cons r recs)
  obtain w1 where 1: "wr (char_of (unat (Mode r)) # be_put 2 (length (Key r))) w = (None, w1)" "ok w1"
    using write_live [OF Cons.prems] by blast
  obtain w2 where 2: "wr (Key r) w1 = (None, w2)" "ok w2"
    using write_live [OF 1(2)] by blast
  show ?case using Cons.IH [OF 2(2)] by (simp add: 1 2)
qed simp

lemma writeData_live:
  assumes "ok w"
  shows "\<exists>w'. writeData wr recs w = (None, w') \<and> ok w'"
proof -
  let ?rs = "compactKeys (sort recs)"
  obtain w1 where 1: "wr (secData # be_put 4 (\<Sum>r\<leftarrow>?rs. recordHeaderLen + length (Key r))) w = (None, w1)" "ok w1"
    using write_live [OF assms] by blast
  show ?thesis using writeRecords_live [OF 1(2)] by (simp add: writeData_def Let_def 1)
qed

end

section \<open>Round trips of the header\<close>

lemma readFull_append: "n = length x \<Longrightarrow> readFull n \<lparr>rest = x @ y, atEnd = e\<rparr> = (Inr x, \<lparr>rest = y, atEnd = e\<rparr>)"
  by (simp add: readFull_def)

lemma length_magic [simp]: "length magic = 4"
  by (simp add: magic_def)

lemma readPreamble_bytes:
  "readPreamble \<lparr>rest = preambleBytes @ s, atEnd = e\<rparr> = (None, \<lparr>rest = s, atEnd = e\<rparr>)"
  by (simp add: readPreamble_def readFull_append preambleLen_def preambleBytes_def nth_append
      del: append_assoc)

lemma readSectionHeader_bytes:
  "n < 2 ^ 32 \<Longrightarrow> readSectionHeader \<lparr>rest = typ # be_put 4 n @ s, atEnd = e\<rparr> =
     (Inr (typ, word_of_nat n), \<lparr>rest = s, atEnd = e\<rparr>)"
  using readFull_append [of sectionHeaderLen "typ # be_put 4 n" s e]
  by (simp add: readSectionHeader_def sectionHeaderLen_def be_get_put)

lemma unat_of_small: "n < 2 ^ LENGTH('a::len) \<Longrightarrow> unat (word_of_nat n :: 'a word) = n"
  by (rule of_nat_inverse) simp_all

lemma headerLoop_section:
  assumes "typ \<noteq> secData" and "length val < 2 ^ 32"
  shows "headerLoop v \<lparr>rest = sectionBytes typ val @ s, atEnd = e\<rparr> =
     headerLoop (setField typ val v) \<lparr>rest = s, atEnd = e\<rparr>"
  using assms readSectionHeader_bytes [OF assms(2), of "typ" "val @ s" e]
  by (subst headerLoop.simps) (simp add: sectionBytes_def unat_of_small readFull_append)

lemma headerLoop_data:
  "n < 2 ^ 32 \<Longrightarrow> headerLoop v \<lparr>rest = secData # be_put 4 n @ s, atEnd = e\<rparr> =
     ((v, word_of_nat n, None), \<lparr>rest = s, atEnd = e\<rparr>)"
  by (subst headerLoop.simps) (simp add: readSectionHeader_bytes)

lemma setField_num:
  "word_of_nat (be_get (be_put 8 (unat n))) = (n :: u64)"
  using unsigned_less [of n] by (subst be_get_put_small) simp_all

lemma headerLoop_str:
  "typ \<noteq> secData \<Longrightarrow> length t < 2 ^ 32 \<Longrightarrow> headerLoop v \<lparr>rest = strBytes typ t @ s, atEnd = e\<rparr> =
     headerLoop (if t = [] then v else setField typ t v) \<lparr>rest = s, atEnd = e\<rparr>"
  by (simp add: strBytes_def headerLoop_section)

lemma headerLoop_num:
  "typ \<noteq> secData \<Longrightarrow> headerLoop v \<lparr>rest = numBytes typ n @ s, atEnd = e\<rparr> =
     headerLoop (if n = 0 then v else setField typ (be_put 8 (unat n)) v) \<lparr>rest = s, atEnd = e\<rparr>"
  by (simp add: numBytes_def headerLoop_section)

definition short :: "Validator \<Rightarrow> bool" where
  "short v \<longleftrightarrow> length (ETag v) < 2 ^ 32 \<and> length (LastModified v) < 2 ^ 32 \<and>
     length (Fingerprint v) < 2 ^ 32"

lemma readHeader_bytes:
  assumes "short v" and "n < 2 ^ 32"
  shows "readHeader \<lparr>rest = preambleBytes @ validatorBytes v @ secData # be_put 4 n @ s, atEnd = e\<rparr> =
    ((v, word_of_nat n, None), \<lparr>rest = s, atEnd = e\<rparr>)"
proof -
  let ?fields = "\<lambda>v'. v' = v"
  have types: "secETag \<noteq> secData" "secLastModified \<noteq> secData" "secMTime \<noteq> secData"
    "secSize \<noteq> secData" "secFingerprint \<noteq> secData"
    by (simp_all add: sec_defs)
  have "readHeader \<lparr>rest = preambleBytes @ validatorBytes v @ secData # be_put 4 n @ s, atEnd = e\<rparr> =
    headerLoop noValidator \<lparr>rest = validatorBytes v @ secData # be_put 4 n @ s, atEnd = e\<rparr>"
    by (simp add: readHeader_def readPreamble_bytes)
  also have "\<dots> = ((v, word_of_nat n, None), \<lparr>rest = s, atEnd = e\<rparr>)"
    using assms types
    by (simp add: validatorBytes_def headerLoop_str headerLoop_num headerLoop_data short_def)
      (cases v; auto simp: setField_def sec_defs noValidator_def setField_num)
  finally show ?thesis .
qed

section \<open>Sorted records\<close>

text \<open>The records that \<open>writeData\<close> writes.\<close>

definition written :: "Record list \<Rightarrow> Record list" where
  "written recs = compactKeys (sort recs)"

lemma Record_le_Key: "a \<le> b \<Longrightarrow> Key a \<le> Key b"
  by (auto simp: less_eq_Record_def cmpRecord_def split: if_splits)

lemma Record_le_Mode: "a \<le> b \<Longrightarrow> Key a = Key b \<Longrightarrow> Mode b \<le> Mode a"
  by (auto simp: less_eq_Record_def cmpRecord_def word_le_def split: if_splits)

lemma compactKeys_set: "set (compactKeys rs) \<subseteq> set rs"
  by (induction rs rule: compactKeys.induct) auto

lemma compactKeys_sorted: "sorted rs \<Longrightarrow> sorted_wrt (<) (map Key (compactKeys rs))"
proof (induction rs rule: compactKeys.induct)
  case (1 a b rs)
  have sorted_b: "sorted (b # rs)" and sorted_a: "sorted (a # rs)" using "1.prems" by auto
  show ?case
  proof (cases "Key a = Key b")
    case True
    with "1.IH"(1) [OF True sorted_a] show ?thesis by simp
  next
    case False
    have "Key a < Key r" if "r \<in> set (b # rs)" for r
    proof -
      have "Key a \<le> Key b" and "Key b \<le> Key r"
        using "1.prems" that by (auto intro: Record_le_Key)
      with False show ?thesis by order
    qed
    with "1.IH"(2) [OF False sorted_b] False compactKeys_set [of "b # rs"] show ?thesis by auto
  qed
qed simp_all

lemma compactKeys_covers:
  "sorted rs \<Longrightarrow> r \<in> set rs \<Longrightarrow> \<exists>r' \<in> set (compactKeys rs). Key r' = Key r \<and> Mode r \<le> Mode r'"
proof (induction rs arbitrary: r rule: compactKeys.induct)
  case (1 a b rs)
  have sorted_b: "sorted (b # rs)" and sorted_a: "sorted (a # rs)" using "1.prems" by auto
  show ?case
  proof (cases "Key a = Key b")
    case True
    have ab: "Mode b \<le> Mode a" using Record_le_Mode [of a b] True "1.prems"(1) by simp
    show ?thesis
    proof (cases "r = b")
      case True
      obtain r' where "r' \<in> set (compactKeys (a # rs))" "Key r' = Key a" "Mode a \<le> Mode r'"
        using "1.IH"(1) [OF \<open>Key a = Key b\<close> sorted_a, of a] by auto
      with ab True \<open>Key a = Key b\<close> show ?thesis by (intro bexI [of _ r']) auto
    next
      case False
      with "1.prems"(2) have "r \<in> set (a # rs)" by auto
      with "1.IH"(1) [OF True sorted_a] True show ?thesis by simp
    qed
  next
    case False
    then show ?thesis using "1.IH"(2) [OF False sorted_b] "1.prems"(2) by auto
  qed
qed auto

lemma written_set: "set (written recs) \<subseteq> set recs"
  using compactKeys_set [of "sort recs"] by (simp add: written_def)

lemma written_ascending: "sorted_wrt (<) (map Key (written recs))"
  by (simp add: written_def compactKeys_sorted)

lemma written_covers:
  "r \<in> set recs \<Longrightarrow> \<exists>r' \<in> set (written recs). Key r' = Key r \<and> Mode r \<le> Mode r'"
  using compactKeys_covers [of "sort recs" r] by (simp add: written_def)

text \<open>Sorted keys determine the list, so a list that is written in order is not changed.\<close>

lemma compactKeys_id: "sorted_wrt (<) (map Key rs) \<Longrightarrow> compactKeys rs = rs"
  by (induction rs rule: compactKeys.induct) auto

lemma Record_sorted: "sorted_wrt (<) (map Key rs) \<Longrightarrow> sorted rs"
  by (induction rs) (auto simp: less_eq_Record_def cmpRecord_def)

lemma written_id: "sorted_wrt (<) (map Key rs) \<Longrightarrow> written rs = rs"
  by (simp add: written_def sorted_sort_id Record_sorted compactKeys_id)

section \<open>Sections by type\<close>

definition sectionsBytes :: "(char \<times> bytes) list \<Rightarrow> bytes" where
  "sectionsBytes secs = concat (map (\<lambda>(t, val). sectionBytes t val) secs)"

lemma sectionsBytes_simps [simp]:
  "sectionsBytes [] = []"
  "sectionsBytes ((t, val) # secs) = sectionBytes t val @ sectionsBytes secs"
  by (simp_all add: sectionsBytes_def)

lemma length_sectionBytes [simp]: "length (sectionBytes t val) = sectionHeaderLen + length val"
  by (simp add: sectionBytes_def sectionHeaderLen_def)

lemma sectionLoop_section:
  assumes "length val < 2 ^ 32"
  shows "sectionLoop (pre @ sectionBytes t val @ s) want (length pre) =
    (if t = want then Inr val
     else sectionLoop (pre @ sectionBytes t val @ s) want (length (pre @ sectionBytes t val)))"
  using assms
  by (subst sectionLoop.simps)
    (simp add: Let_def sectionBytes_def sectionHeaderLen_def nth_append be_get_put add.assoc)

lemma sectionLoop_sections:
  "\<forall>(t, val) \<in> set secs. t \<noteq> want \<and> length val < 2 ^ 32 \<Longrightarrow>
     sectionLoop (pre @ sectionsBytes secs @ s) want (length pre) =
     sectionLoop (pre @ sectionsBytes secs @ s) want (length (pre @ sectionsBytes secs))"
proof (induction secs arbitrary: pre)
  case (Cons x secs)
  obtain t val where x: "x = (t, val)" by force
  with Cons.prems have "t \<noteq> want" "length val < 2 ^ 32" by auto
  then have "sectionLoop (pre @ sectionsBytes (x # secs) @ s) want (length pre) =
    sectionLoop ((pre @ sectionBytes t val) @ sectionsBytes secs @ s) want (length (pre @ sectionBytes t val))"
    using sectionLoop_section [of val pre t "sectionsBytes secs @ s" want] by (simp add: x)
  also have "\<dots> = sectionLoop ((pre @ sectionBytes t val) @ sectionsBytes secs @ s) want
      (length ((pre @ sectionBytes t val) @ sectionsBytes secs))"
    by (rule Cons.IH) (use Cons.prems in auto)
  finally show ?case by (simp add: x)
qed simp

lemma section_at:
  assumes "p + sectionHeaderLen \<le> length raw" and "len = be_get (take 4 (drop (p + 1) raw))"
  shows "drop p raw =
    raw ! p # be_put 4 len @ drop (p + sectionHeaderLen) raw" and "len < 2 ^ 32"
proof -
  have len: "length (take 4 (drop (p + 1) raw)) = 4" using assms(1) by (simp add: sectionHeaderLen_def)
  have put: "be_put 4 len = take 4 (drop (p + 1) raw)"
    using be_put_get [of "take 4 (drop (p + 1) raw)"] len assms(2) by simp
  have "drop p raw = raw ! p # drop (p + 1) raw"
    using assms(1) by (simp add: Cons_nth_drop_Suc sectionHeaderLen_def)
  also have "drop (p + 1) raw = take 4 (drop (p + 1) raw) @ drop (p + sectionHeaderLen) raw"
    using append_take_drop_id [of 4 "drop (p + 1) raw"] by (simp add: sectionHeaderLen_def add.commute)
  finally show "drop p raw = raw ! p # be_put 4 len @ drop (p + sectionHeaderLen) raw" by (simp only: put)
  show "len < 2 ^ 32" using be_get_less [of "take 4 (drop (p + 1) raw)"] assms(2) len by simp
qed

lemma sectionLoop_Inr:
  "sectionLoop raw want p = Inr d \<Longrightarrow>
     \<exists>secs s. drop p raw = sectionsBytes secs @ sectionBytes want d @ s \<and>
       (\<forall>(t, val) \<in> set secs. t \<noteq> want \<and> length val < 2 ^ 32) \<and> length d < 2 ^ 32"
proof (induction raw want p rule: sectionLoop.induct)
  case (1 raw want p)
  define len where "len = be_get (take 4 (drop (p + 1) raw))"
  let ?p = "p + sectionHeaderLen"
  from "1.prems" have p: "?p \<le> length raw" and pl: "?p + len \<le> length raw"
    and res: "(if raw ! p = want then Inr (take len (drop ?p raw)) else sectionLoop raw want (?p + len)) = Inr d"
    by (subst (asm) sectionLoop.simps, auto simp: Let_def len_def split: if_splits)+
  define val where "val = take len (drop ?p raw)"
  have at: "drop p raw = sectionBytes (raw ! p) val @ drop (?p + len) raw" and small: "length val < 2 ^ 32"
    using section_at [OF p len_def] pl append_take_drop_id [of len "drop ?p raw"]
    by (simp_all add: val_def sectionBytes_def add.commute)
  show ?case
  proof (cases "raw ! p = want")
    case True
    with res at small show ?thesis
      by (intro exI [of _ "[]"] exI [of _ "drop (?p + len) raw"]) (simp add: val_def)
  next
    case False
    have "\<exists>secs s. drop (?p + len) raw = sectionsBytes secs @ sectionBytes want d @ s \<and>
       (\<forall>(t, val) \<in> set secs. t \<noteq> want \<and> length val < 2 ^ 32) \<and> length d < 2 ^ 32"
      using False res pl by (intro "1.IH" [OF p refl len_def refl]) auto
    then obtain secs s where "drop (?p + len) raw = sectionsBytes secs @ sectionBytes want d @ s"
      and "\<forall>(t, val) \<in> set secs. t \<noteq> want \<and> length val < 2 ^ 32" and "length d < 2 ^ 32"
      by blast
    with at small False show ?thesis
      by (intro exI [of _ "(raw ! p, val) # secs"] exI [of _ s]) auto
  qed
qed

text \<open>
  \<open>sectionValue\<close> finds exactly the stored sections: it returns a value if and only if the file
  starts with the preamble of this format and version, followed by well-formed sections of which
  the first of the wanted type has that value. Sections of other types are skipped; a file that is
  cut off, of another format or without the section gives an error and never a wrong value.
\<close>

lemma sectionValue_exact:
  "sectionValue raw want = Inr d \<longleftrightarrow>
     (\<exists>secs s. raw = preambleBytes @ sectionsBytes secs @ sectionBytes want d @ s \<and>
       (\<forall>(t, val) \<in> set secs. t \<noteq> want \<and> length val < 2 ^ 32) \<and> length d < 2 ^ 32)"
proof
  assume val: "sectionValue raw want = Inr d"
  then have len: "4 < length raw" and m: "take 4 raw = magic" and v: "raw ! 4 = formatVersion"
    and loop: "sectionLoop raw want preambleLen = Inr d"
    by (auto simp: sectionValue_def preambleLen_def split: if_splits)
  have "raw = take 4 raw @ raw ! 4 # drop 5 raw"
    using id_take_nth_drop [OF len] by simp
  then have "raw = preambleBytes @ drop preambleLen raw"
    by (simp add: preambleBytes_def preambleLen_def m v)
  with sectionLoop_Inr [OF loop]
  show "\<exists>secs s. raw = preambleBytes @ sectionsBytes secs @ sectionBytes want d @ s \<and>
       (\<forall>(t, val) \<in> set secs. t \<noteq> want \<and> length val < 2 ^ 32) \<and> length d < 2 ^ 32"
    by metis
next
  assume "\<exists>secs s. raw = preambleBytes @ sectionsBytes secs @ sectionBytes want d @ s \<and>
       (\<forall>(t, val) \<in> set secs. t \<noteq> want \<and> length val < 2 ^ 32) \<and> length d < 2 ^ 32"
  then obtain secs s where raw: "raw = preambleBytes @ sectionsBytes secs @ sectionBytes want d @ s"
    and secs: "\<forall>(t, val) \<in> set secs. t \<noteq> want \<and> length val < 2 ^ 32" and d: "length d < 2 ^ 32"
    by blast
  have pre: "length preambleBytes = preambleLen" by (simp add: preambleBytes_def preambleLen_def)
  have "sectionLoop raw want preambleLen = Inr d"
    using sectionLoop_sections [OF secs, of preambleBytes "sectionBytes want d @ s"]
      sectionLoop_section [OF d, of "preambleBytes @ sectionsBytes secs" want s want]
    by (simp add: raw pre)
  moreover have "take 4 raw = magic" "raw ! 4 = formatVersion" "4 < length raw"
    by (simp_all add: raw preambleBytes_def nth_append)
  ultimately show "sectionValue raw want = Inr d"
    by (simp add: sectionValue_def preambleLen_def)
qed

lemma sectionValue_exact_witness:
  "sectionValue (preambleBytes @ sectionBytes secETag ''tag'' @ sectionBytes secData ''fst'') secData = Inr ''fst''"
  using sectionValue_exact [of "preambleBytes @ sectionsBytes [(secETag, ''tag'')] @ sectionBytes secData ''fst'' @ []"
      secData "''fst''"]
  by (simp add: sec_defs) (rule exI [of _ "[(CHR 0x01, ''tag'')]"], simp)

end
