(* ===== verification/File_System.thy ===== *)
theory File_System
  imports Byte_Writer "HOL-Library.AList"
begin

text \<open>
  What the store uses of the packages \<open>os\<close> and \<open>bufio\<close>. The file system is a state with one
  operation for each call. A path is a directory with the name of an entry, as \<open>filepath.Join\<close>
  puts it together; \<open>filepath.Dir\<close> and \<open>filepath.Base\<close> are its two parts. A file has the data that
  readers see and the data that is on the disk, which survives a loss of power: \<open>Sync\<close> makes them
  equal. Every call takes the next entry of the script \<open>fsFaults\<close>: \<open>Some (e, n)\<close> makes it fail
  with the error \<open>e\<close>, a write or a read after \<open>n\<close> bytes. A process that stops at a call is one
  whose calls fail from there on.
\<close>

section \<open>State\<close>

type_synonym path = "string \<times> string"

record inode =
  fdata :: bytes
  fdisk :: bytes

type_synonym fault = "(error \<times> nat) option"

record fs =
  fsFiles :: "(path \<times> inode) list"
  fsDirs :: "string list"
  fsFaults :: "fault list"
  fsRandom :: "string list"

definition lookupFile :: "fs \<Rightarrow> path \<Rightarrow> inode option" where
  "lookupFile s p = map_of (fsFiles s) p"

definition putFile :: "path \<Rightarrow> inode \<Rightarrow> fs \<Rightarrow> fs" where
  "putFile p f s = s\<lparr>fsFiles := AList.update p f (fsFiles s)\<rparr>"

definition dropFile :: "path \<Rightarrow> fs \<Rightarrow> fs" where
  "dropFile p s = s\<lparr>fsFiles := AList.delete p (fsFiles s)\<rparr>"

lemma lookup_put [simp]: "lookupFile (putFile p f s) q = (if q = p then Some f else lookupFile s q)"
  by (simp add: lookupFile_def putFile_def update_conv')

lemma lookup_drop [simp]: "lookupFile (dropFile p s) q = (if q = p then None else lookupFile s q)"
  by (simp add: lookupFile_def dropFile_def delete_conv')

lemma lookup_script [simp]:
  "lookupFile (s\<lparr>fsFaults := x\<rparr>) q = lookupFile s q" "lookupFile (s\<lparr>fsRandom := y\<rparr>) q = lookupFile s q"
  "lookupFile (s\<lparr>fsDirs := z\<rparr>) q = lookupFile s q"
  by (simp_all add: lookupFile_def)

lemma dirs_put [simp]: "fsDirs (putFile p f s) = fsDirs s" "fsDirs (dropFile p s) = fsDirs s"
  "fsFaults (putFile p f s) = fsFaults s" "fsFaults (dropFile p s) = fsFaults s"
  "fsRandom (putFile p f s) = fsRandom s" "fsRandom (dropFile p s) = fsRandom s"
  by (simp_all add: putFile_def dropFile_def)

section \<open>Calls\<close>

definition errNotExist :: error where "errNotExist = Err ''file does not exist''"
definition errExist :: error where "errExist = Err ''file already exists''"
definition errClosed :: error where "errClosed = Err ''file already closed''"

definition sysCall :: "fs \<Rightarrow> fault \<times> fs" where
  "sysCall s = (case fsFaults s of [] \<Rightarrow> (None, s) | f # r \<Rightarrow> (f, s\<lparr>fsFaults := r\<rparr>))"

definition join :: "string \<Rightarrow> string \<Rightarrow> string" where
  "join d n = d @ ''/'' @ n"

definition ancestors :: "string \<Rightarrow> string list" where
  "ancestors d = map (\<lambda>i. take i d) (filter (\<lambda>i. 0 < i \<and> d ! i = CHR ''/'') [0..<length d]) @ [d]"

definition mkdirAll :: "string \<Rightarrow> fs \<Rightarrow> error option \<times> fs" where
  "mkdirAll d s =
     (case sysCall s of
        (Some (e, _), s) \<Rightarrow> (Some e, s)
      | (None, s) \<Rightarrow> (None, s\<lparr>fsDirs := remdups (ancestors d @ fsDirs s)\<rparr>))"

text \<open>\<open>os.CreateTemp\<close> with the pattern \<open>base.*.tmp\<close> puts random digits for the star, and tries
  again while the name is taken.\<close>

definition tempName :: "string \<Rightarrow> string \<Rightarrow> string \<Rightarrow> string" where
  "tempName base suf r = base @ ''.'' @ r @ suf"

definition createTemp :: "string \<Rightarrow> string \<Rightarrow> string \<Rightarrow> fs \<Rightarrow> (error + path) \<times> fs" where
  "createTemp d base suf s =
     (case sysCall s of
        (Some (e, _), s) \<Rightarrow> (Inl e, s)
      | (None, s) \<Rightarrow>
          if d \<notin> set (fsDirs s) then (Inl errNotExist, s)
          else (case dropWhile (\<lambda>r. lookupFile s (d, tempName base suf r) \<noteq> None) (fsRandom s) of
              [] \<Rightarrow> (Inl errExist, s\<lparr>fsRandom := []\<rparr>)
            | r # rs \<Rightarrow>
                (Inr (d, tempName base suf r),
                 putFile (d, tempName base suf r) \<lparr>fdata = [], fdisk = []\<rparr> (s\<lparr>fsRandom := rs\<rparr>))))"

definition fileWrite :: "path \<Rightarrow> bytes \<Rightarrow> fs \<Rightarrow> (error \<times> nat) option \<times> fs" where
  "fileWrite p bs s =
     (case lookupFile s p of
        None \<Rightarrow> (Some (errClosed, 0), s)
      | Some f \<Rightarrow>
          (case sysCall s of
             (Some (e, n), s) \<Rightarrow> (Some (e, n), putFile p (f\<lparr>fdata := fdata f @ take n bs\<rparr>) s)
           | (None, s) \<Rightarrow> (None, putFile p (f\<lparr>fdata := fdata f @ bs\<rparr>) s)))"

definition fileSync :: "path \<Rightarrow> fs \<Rightarrow> error option \<times> fs" where
  "fileSync p s =
     (case lookupFile s p of
        None \<Rightarrow> (Some errClosed, s)
      | Some f \<Rightarrow>
          (case sysCall s of
             (Some (e, _), s) \<Rightarrow> (Some e, s)
           | (None, s) \<Rightarrow> (None, putFile p (f\<lparr>fdisk := fdata f\<rparr>) s)))"

definition fileClose :: "fs \<Rightarrow> error option \<times> fs" where
  "fileClose s = (case sysCall s of (Some (e, _), s) \<Rightarrow> (Some e, s) | (None, s) \<Rightarrow> (None, s))"

definition rename :: "path \<Rightarrow> path \<Rightarrow> fs \<Rightarrow> error option \<times> fs" where
  "rename a b s =
     (case sysCall s of
        (Some (e, _), s) \<Rightarrow> (Some e, s)
      | (None, s) \<Rightarrow>
          (case lookupFile s a of
             None \<Rightarrow> (Some errNotExist, s)
           | Some f \<Rightarrow> (None, putFile b f (dropFile a s))))"

definition removeFile :: "path \<Rightarrow> fs \<Rightarrow> error option \<times> fs" where
  "removeFile p s =
     (case sysCall s of
        (Some (e, _), s) \<Rightarrow> (Some e, s)
      | (None, s) \<Rightarrow> if lookupFile s p = None then (Some errNotExist, s) else (None, dropFile p s))"

text \<open>\<open>os.ReadDir\<close> gives the names of the files of a directory in order.\<close>

definition readDir :: "string \<Rightarrow> fs \<Rightarrow> (error + string list) \<times> fs" where
  "readDir d s =
     (case sysCall s of
        (Some (e, _), s) \<Rightarrow> (Inl e, s)
      | (None, s) \<Rightarrow>
          if d \<notin> set (fsDirs s) then (Inl errNotExist, s)
          else (Inr (sort (remdups (map (snd \<circ> fst) (filter (\<lambda>(p, f). fst p = d) (fsFiles s))))), s))"

text \<open>
  Opening a file, and then reading it: \<open>n\<close> bytes can be read before the error of the second
  entry of the script. The data of a file does not change while it is open for reading, because
  the store only writes to files that it has just created.
\<close>

definition openFile :: "path \<Rightarrow> fs \<Rightarrow> (error + bytes \<times> (error \<times> nat) option) \<times> fs" where
  "openFile p s =
     (case sysCall s of
        (Some (e, _), s) \<Rightarrow> (Inl e, s)
      | (None, s) \<Rightarrow>
          (case lookupFile s p of
             None \<Rightarrow> (Inl errNotExist, s)
           | Some f \<Rightarrow> (case sysCall s of (flt, s) \<Rightarrow> (Inr (fdata f, flt), s))))"

definition readFile :: "path \<Rightarrow> fs \<Rightarrow> (error + bytes) \<times> fs" where
  "readFile p s =
     (case openFile p s of
        (Inl e, s) \<Rightarrow> (Inl e, s)
      | (Inr (d, Some (e, _)), s) \<Rightarrow> (Inl e, s)
      | (Inr (d, None), s) \<Rightarrow> (Inr d, s))"

section \<open>Calls and the files they touch\<close>

text \<open>Two states agree outside a set of paths.\<close>

definition same_files :: "path set \<Rightarrow> fs \<Rightarrow> fs \<Rightarrow> bool" where
  "same_files P s t \<longleftrightarrow> (\<forall>q. q \<notin> P \<longrightarrow> lookupFile t q = lookupFile s q) \<and> fsDirs t = fsDirs s"

named_theorems fs_calls "definitions of the calls of the file system"

lemmas [fs_calls] = sysCall_def fileWrite_def fileSync_def fileClose_def rename_def removeFile_def

lemma same_files_refl [simp]: "same_files P s s"
  by (simp add: same_files_def)

lemma same_files_trans: "same_files P s t \<Longrightarrow> same_files P t u \<Longrightarrow> same_files P s u"
  by (simp add: same_files_def)

lemma same_files_mono: "same_files P s t \<Longrightarrow> P \<subseteq> Q \<Longrightarrow> same_files Q s t"
  by (auto simp: same_files_def)

lemma sysCall_same: "sysCall s = (f, t) \<Longrightarrow> same_files {} s t"
  by (auto simp: sysCall_def same_files_def split: list.splits)

lemma sysCall_simps:
  assumes "sysCall s = (f, t)"
  shows "lookupFile t q = lookupFile s q" and "fsDirs t = fsDirs s"
  using assms by (auto simp: sysCall_def split: list.splits)

lemma fileWrite_same: "fileWrite p bs s = (e, t) \<Longrightarrow> same_files {p} s t"
  by (auto simp: fileWrite_def same_files_def sysCall_simps split: option.splits prod.splits)

lemma fileSync_same: "fileSync p s = (e, t) \<Longrightarrow> same_files {p} s t"
  by (auto simp: fileSync_def same_files_def sysCall_simps split: option.splits prod.splits)

lemma fileClose_same: "fileClose s = (e, t) \<Longrightarrow> same_files {} s t"
  by (auto simp: fileClose_def same_files_def sysCall_simps split: option.splits prod.splits)

lemma removeFile_same: "removeFile p s = (e, t) \<Longrightarrow> same_files {p} s t"
  by (auto simp: removeFile_def same_files_def sysCall_simps split: option.splits prod.splits if_splits)

lemma rename_cases:
  "rename a b s = (e, t) \<Longrightarrow> a \<noteq> b \<Longrightarrow>
     (e \<noteq> None \<and> same_files {} s t) \<or>
     (e = None \<and> (\<exists>f. lookupFile s a = Some f \<and> lookupFile t b = Some f) \<and> lookupFile t a = None \<and>
       same_files {a, b} s t)"
  by (auto simp: rename_def same_files_def sysCall_simps split: option.splits prod.splits)

lemma sysCall_calm: "fsFaults s = [] \<Longrightarrow> sysCall s = (None, s)"
  by (simp add: sysCall_def)

section \<open>Buffered writing\<close>

text \<open>\<open>bufio.Writer\<close> with its default buffer. An error sticks: every later call returns it.\<close>

record bufioWriter =
  bwFile :: path
  bwBuf :: bytes
  bwErr :: "error option"

definition bufSize :: nat where "bufSize = 4096"

definition newWriter :: "path \<Rightarrow> bufioWriter" where
  "newWriter p = \<lparr>bwFile = p, bwBuf = [], bwErr = None\<rparr>"

type_synonym sink = "bufioWriter \<times> fs"

definition flush :: "sink \<Rightarrow> error option \<times> sink" where
  "flush k = (case k of (b, s) \<Rightarrow>
     if bwErr b \<noteq> None then (bwErr b, b, s)
     else if bwBuf b = [] then (None, b, s)
     else (case fileWrite (bwFile b) (bwBuf b) s of
         (Some (e, n), s) \<Rightarrow> (Some e, b\<lparr>bwBuf := drop n (bwBuf b), bwErr := Some e\<rparr>, s)
       | (None, s) \<Rightarrow> (None, b\<lparr>bwBuf := []\<rparr>, s)))"

text \<open>
  \<open>Write\<close>: while the bytes do not fit, they fill the buffer, which is flushed, or they go straight
  to the file when the buffer is empty; what remains is buffered. The loop runs at most twice.
\<close>

definition writeThrough :: "bytes \<Rightarrow> sink \<Rightarrow> error option \<times> sink" where
  "writeThrough p k = (case k of (b, s) \<Rightarrow>
     if bwErr b \<noteq> None then (bwErr b, b, s)
     else if length p > bufSize then
       (case fileWrite (bwFile b) p s of
          (Some (e, n), s) \<Rightarrow> (Some e, b\<lparr>bwErr := Some e\<rparr>, s)
        | (None, s) \<Rightarrow> (None, b, s))
     else (None, b\<lparr>bwBuf := bwBuf b @ p\<rparr>, s))"

definition bufWrite :: "bytes \<Rightarrow> sink \<Rightarrow> error option \<times> sink" where
  "bufWrite p k = (case k of (b, s) \<Rightarrow>
     (let avail = bufSize - length (bwBuf b)
      in if length p > avail \<and> bwErr b = None \<and> bwBuf b \<noteq> [] then
           (case flush (b\<lparr>bwBuf := bwBuf b @ take avail p\<rparr>, s) of
              (Some e, k) \<Rightarrow> (Some e, k)
            | (None, k) \<Rightarrow> writeThrough (drop avail p) k)
         else writeThrough p (b, s)))"

text \<open>The bytes that the writer has taken, in the file and in the buffer.\<close>

definition sinkContent :: "sink \<Rightarrow> bytes" where
  "sinkContent k = (case k of (b, s) \<Rightarrow>
     (case lookupFile s (bwFile b) of Some f \<Rightarrow> fdata f | None \<Rightarrow> []) @ bwBuf b)"

definition sinkFrame :: "sink \<Rightarrow> sink \<Rightarrow> bool" where
  "sinkFrame k k' \<longleftrightarrow> bwFile (fst k') = bwFile (fst k) \<and>
     same_files {bwFile (fst k)} (snd k) (snd k') \<and> fsRandom (snd k') = fsRandom (snd k) \<and>
     (lookupFile (snd k) (bwFile (fst k)) \<noteq> None \<longrightarrow> lookupFile (snd k') (bwFile (fst k)) \<noteq> None)"

lemma fileWrite_data:
  "fileWrite p bs s = (None, t) \<Longrightarrow>
     \<exists>f. lookupFile s p = Some f \<and> lookupFile t p = Some (f\<lparr>fdata := fdata f @ bs\<rparr>)"
  by (auto simp: fileWrite_def split: option.splits prod.splits)

lemma fileWrite_keeps: "fileWrite p bs s = (e, t) \<Longrightarrow> lookupFile s p \<noteq> None \<Longrightarrow> lookupFile t p \<noteq> None"
  by (auto simp: fileWrite_def split: option.splits prod.splits)

lemma fileWrite_random: "fileWrite p bs s = (e, t) \<Longrightarrow> fsRandom t = fsRandom s"
  by (auto simp: fileWrite_def sysCall_def split: option.splits prod.splits list.splits)

lemma flush_content: "flush k = (None, k') \<Longrightarrow> sinkContent k' = sinkContent k \<and> bwBuf (fst k') = []"
  by (auto simp: flush_def sinkContent_def split: prod.splits if_splits option.splits
      dest!: fileWrite_data)

lemma writeThrough_content:
  "writeThrough p k = (None, k') \<Longrightarrow> length p > bufSize \<Longrightarrow> bwBuf (fst k) = [] \<Longrightarrow>
     sinkContent k' = sinkContent k @ p"
  by (auto simp: writeThrough_def sinkContent_def split: prod.splits if_splits option.splits
      dest!: fileWrite_data)

lemma writeThrough_small:
  "writeThrough p k = (None, k') \<Longrightarrow> length p \<le> bufSize \<Longrightarrow> sinkContent k' = sinkContent k @ p"
  by (auto simp: writeThrough_def sinkContent_def split: prod.splits if_splits option.splits)

lemma flush_frame: "flush k = (e, k') \<Longrightarrow> sinkFrame k k'"
  by (auto simp: flush_def sinkFrame_def split: prod.splits if_splits option.splits
      dest: fileWrite_same fileWrite_keeps fileWrite_random)

lemma writeThrough_frame: "writeThrough p k = (e, k') \<Longrightarrow> sinkFrame k k'"
  by (auto simp: writeThrough_def sinkFrame_def split: prod.splits if_splits option.splits
      dest: fileWrite_same fileWrite_keeps fileWrite_random)

lemma sinkFrame_refl [simp]: "sinkFrame k k"
  by (simp add: sinkFrame_def)

lemma sinkFrame_trans: "sinkFrame k l \<Longrightarrow> sinkFrame l m \<Longrightarrow> sinkFrame k m"
  by (auto simp: sinkFrame_def intro: same_files_trans)

lemma bufWrite_frame: "bufWrite p k = (e, k') \<Longrightarrow> sinkFrame k k'"
proof -
  assume w: "bufWrite p k = (e, k')"
  obtain b s where k: "k = (b, s)" by force
  let ?full = "(b\<lparr>bwBuf := bwBuf b @ take (bufSize - length (bwBuf b)) p\<rparr>, s)"
  have frame: "sinkFrame k m" if "sinkFrame ?full m" for m
    using that by (simp add: sinkFrame_def k)
  obtain e1 l where f: "flush ?full = (e1, l)" by (rule prod.exhaust)
  with w k consider "writeThrough p k = (e, k')" | "k' = l"
    | "writeThrough (drop (bufSize - length (bwBuf b)) p) l = (e, k')"
    by (auto simp: bufWrite_def Let_def split: if_splits option.splits)
  then show ?thesis
  proof cases
    case 1 then show ?thesis by (rule writeThrough_frame)
  next
    case 2 with frame [OF flush_frame [OF f]] show ?thesis by simp
  next
    case 3 with frame [OF flush_frame [OF f]] show ?thesis
      by (auto intro: sinkFrame_trans writeThrough_frame)
  qed
qed

lemma bufWrite_content: "bufWrite p k = (None, k') \<Longrightarrow> sinkContent k' = sinkContent k @ p"
proof -
  assume w: "bufWrite p k = (None, k')"
  obtain b s where k: "k = (b, s)" by force
  define n where "n = bufSize - length (bwBuf b)"
  let ?full = "(b\<lparr>bwBuf := bwBuf b @ take n p\<rparr>, s)"
  obtain e1 l where f: "flush ?full = (e1, l)" by (rule prod.exhaust)
  show ?thesis
  proof (cases "length p > n \<and> bwErr b = None \<and> bwBuf b \<noteq> []")
    case True
    with w k f have e1: "e1 = None" and rest: "writeThrough (drop n p) l = (None, k')"
      by (auto simp: bufWrite_def Let_def n_def split: option.splits)
    have l: "sinkContent l = sinkContent k @ take n p" and empty: "bwBuf (fst l) = []"
      using flush_content [of ?full l] f e1 by (simp_all add: sinkContent_def k)
    have "sinkContent k' = sinkContent l @ drop n p"
      by (cases "length (drop n p) > bufSize")
        (use rest empty in \<open>auto intro: writeThrough_content writeThrough_small\<close>)
    with l show ?thesis by simp
  next
    case False
    with w k have rest: "writeThrough p k = (None, k')"
      by (auto simp: bufWrite_def Let_def n_def)
    then have "bwErr b = None" by (auto simp: writeThrough_def k split: if_splits)
    with False have "bwBuf b = [] \<or> length p \<le> bufSize" by (auto simp: n_def)
    with rest show ?thesis
      by (cases "length p > bufSize") (auto simp: k intro: writeThrough_content writeThrough_small)
  qed
qed

interpretation sink: framed_writer bufWrite sinkContent sinkFrame
  by unfold_locales (auto intro: sinkFrame_trans dest: bufWrite_content bufWrite_frame)

text \<open>A sink on a file that exists, when no call fails.\<close>

definition sinkOk :: "sink \<Rightarrow> bool" where
  "sinkOk k \<longleftrightarrow> fsFaults (snd k) = [] \<and> bwErr (fst k) = None \<and> lookupFile (snd k) (bwFile (fst k)) \<noteq> None"

lemma fileWrite_calm:
  "fsFaults s = [] \<Longrightarrow> lookupFile s p \<noteq> None \<Longrightarrow>
     \<exists>t. fileWrite p bs s = (None, t) \<and> fsFaults t = [] \<and> lookupFile t p \<noteq> None"
  by (auto simp: fileWrite_def sysCall_calm)

lemma writeThrough_ok: "sinkOk k \<Longrightarrow> \<exists>k'. writeThrough p k = (None, k') \<and> sinkOk k'"
  using fileWrite_calm [of "snd k" "bwFile (fst k)" p]
  by (auto simp: sinkOk_def writeThrough_def split: prod.split)

lemma flush_ok: "sinkOk k \<Longrightarrow> \<exists>k'. flush k = (None, k') \<and> sinkOk k'"
  using fileWrite_calm [of "snd k" "bwFile (fst k)" "bwBuf (fst k)"]
  by (auto simp: sinkOk_def flush_def split: prod.split)

lemma bufWrite_ok: "sinkOk k \<Longrightarrow> \<exists>k'. bufWrite p k = (None, k') \<and> sinkOk k'"
proof -
  assume ok: "sinkOk k"
  obtain b s where k: "k = (b, s)" by force
  define n where "n = bufSize - length (bwBuf b)"
  have "sinkOk (b\<lparr>bwBuf := bwBuf b @ take n p\<rparr>, s)" using ok by (simp add: sinkOk_def k)
  from flush_ok [OF this] obtain l where "flush (b\<lparr>bwBuf := bwBuf b @ take n p\<rparr>, s) = (None, l)" "sinkOk l"
    by blast
  with writeThrough_ok [of l "drop n p"] writeThrough_ok [OF ok, of p] show ?thesis
    by (auto simp: bufWrite_def k Let_def n_def)
qed

interpretation sink_live: live_writer bufWrite sinkOk
  by unfold_locales (rule bufWrite_ok)

end
