(* ===== verification/Sha256.thy ===== *)
theory Sha256
  imports AZ_Prelude
begin

text \<open>
  \<open>sha256.Sum256\<close> of the package \<open>crypto/sha256\<close> (FIPS 180-4) and \<open>hex.EncodeToString\<close>: the store
  puts a part of the hash of a source's name into the name of its file.
\<close>

unbundle bit_operations_syntax

text \<open>
  The constants are the first 32 bits of the fractional parts of roots of the first primes: of the
  square roots for the initial value and of the cube roots for the rounds. \<open>floorRoot\<close> finds the
  integer part of a root bit by bit.
\<close>

fun floorRoot :: "nat \<Rightarrow> int \<Rightarrow> nat \<Rightarrow> int \<Rightarrow> int" where
  "floorRoot k n 0 acc = acc"
| "floorRoot k n (Suc b) acc = floorRoot k n b (if (acc + 2 ^ b) ^ k \<le> n then acc + 2 ^ b else acc)"

definition rootFraction :: "nat \<Rightarrow> int \<Rightarrow> u32" where
  "rootFraction k p = word_of_int (floorRoot k (p * 2 ^ (32 * k)) 40 0)"

definition primesUpto :: "int \<Rightarrow> int list" where
  "primesUpto n = filter (\<lambda>p. list_all (\<lambda>d. p mod d \<noteq> 0) [2..p - 1]) [2..n]"

definition initHash :: "u32 list" where
  "initHash = map (rootFraction 2) [2, 3, 5, 7, 11, 13, 17, 19]"

definition roundConstants :: "u32 list" where
  "roundConstants = map (rootFraction 3) (primesUpto 311)"

definition padMessage :: "bytes \<Rightarrow> bytes" where
  "padMessage m =
     m @ CHR 0x80 # replicate ((119 - length m mod 64) mod 64) (CHR 0x00) @ be_put 8 (8 * length m)"

definition rotr32 :: "nat \<Rightarrow> u32 \<Rightarrow> u32" where
  "rotr32 n x = drop_bit n x OR push_bit (32 - n) x"

fun chunksOf :: "nat \<Rightarrow> nat \<Rightarrow> bytes \<Rightarrow> bytes list" where
  "chunksOf 0 k m = []"
| "chunksOf (Suc n) k m = take k m # chunksOf n k (drop k m)"

text \<open>The schedule of a block: sixteen words of the block and forty-eight more.\<close>

fun extendSchedule :: "nat \<Rightarrow> u32 list \<Rightarrow> u32 list" where
  "extendSchedule 0 w = w"
| "extendSchedule (Suc n) w =
     (let t = length w; a = w ! (t - 15); b = w ! (t - 2);
          s0 = rotr32 7 a XOR rotr32 18 a XOR drop_bit 3 a;
          s1 = rotr32 17 b XOR rotr32 19 b XOR drop_bit 10 b
      in extendSchedule n (w @ [w ! (t - 16) + s0 + w ! (t - 7) + s1]))"

definition schedule :: "bytes \<Rightarrow> u32 list" where
  "schedule block = extendSchedule 48 (map (\<lambda>c. word_of_nat (be_get c)) (chunksOf 16 4 block))"

fun hashRound :: "u32 \<times> u32 \<Rightarrow> u32 list \<Rightarrow> u32 list" where
  "hashRound (k, w) [a, b, c, d, e, f, g, h] =
     (let s1 = rotr32 6 e XOR rotr32 11 e XOR rotr32 25 e;
          ch = (e AND f) XOR (NOT e AND g);
          t1 = h + s1 + ch + k + w;
          s0 = rotr32 2 a XOR rotr32 13 a XOR rotr32 22 a;
          maj = (a AND b) XOR (a AND c) XOR (b AND c)
      in [t1 + (s0 + maj), a, b, c, d + t1, e, f, g])"
| "hashRound kw st = st"

definition hashBlock :: "bytes \<Rightarrow> u32 list \<Rightarrow> u32 list" where
  "hashBlock block st = map2 (+) st (fold hashRound (zip roundConstants (schedule block)) st)"

definition sha256 :: "bytes \<Rightarrow> bytes" where
  "sha256 m =
     (let p = padMessage m
      in concat (map (\<lambda>w. be_put 4 (unat w))
           (fold hashBlock (chunksOf (length p div 64) 64 p) initHash)))"

definition hexDigit :: "nat \<Rightarrow> char" where
  "hexDigit n = (if n < 10 then char_of (48 + n) else char_of (87 + n))"

definition hexEncode :: "bytes \<Rightarrow> string" where
  "hexEncode bs = concat (map (\<lambda>c. [hexDigit (of_char c div 16), hexDigit (of_char c mod 16)]) bs)"

lemma length_chunksOf [simp]: "length (chunksOf n k m) = n"
  by (induction n arbitrary: m) simp_all

lemma length_hashRound: "length (hashRound kw st) = length st"
  by (cases "(kw, st)" rule: hashRound.cases) (auto simp: Let_def)

lemma length_fold_hashRound: "length (fold hashRound kws st) = length st"
  by (induction kws arbitrary: st) (simp_all add: length_hashRound)

lemma length_hashBlock: "length (hashBlock block st) = length st"
  by (simp add: hashBlock_def length_fold_hashRound)

lemma length_fold_hashBlock: "length (fold hashBlock blocks st) = length st"
  by (induction blocks arbitrary: st) (simp_all add: length_hashBlock)

lemma length_sha256: "length (sha256 m) = 32"
proof -
  have "length (concat (map (\<lambda>w. be_put 4 (unat w)) ws)) = 4 * length ws" for ws :: "u32 list"
    by (induction ws) simp_all
  then show ?thesis by (simp add: sha256_def Let_def length_fold_hashBlock initHash_def)
qed

lemma length_hexEncode [simp]: "length (hexEncode bs) = 2 * length bs"
  by (induction bs) (simp_all add: hexEncode_def)

lemma hexDigit_of: "n < 16 \<Longrightarrow> of_char (hexDigit n) = (if n < 10 then 48 + n else 87 + n :: nat)"
  by (simp add: hexDigit_def of_char_of)

lemma hexDigit_inj: "m < 16 \<Longrightarrow> n < 16 \<Longrightarrow> hexDigit m = hexDigit n \<longleftrightarrow> m = n"
proof
  assume m: "m < 16" "n < 16" and "hexDigit m = hexDigit n"
  then have "of_char (hexDigit m) = (of_char (hexDigit n) :: nat)" by simp
  with hexDigit_of [OF m(1)] hexDigit_of [OF m(2)] m show "m = n" by (simp split: if_splits)
qed simp

lemma hexEncode_inj: "hexEncode a = hexEncode b \<longleftrightarrow> a = b"
proof (induction a arbitrary: b)
  case Nil
  show ?case by (cases b) (simp_all add: hexEncode_def)
next
  case (Cons c a)
  show ?case
  proof (cases b)
    case (Cons d b')
    have less: "of_char x div 16 < (16 :: nat)" for x :: char
      by (rule less_mult_imp_div_less) (simp add: nat_of_char_less_256)
    have "c = d" if "of_char c div 16 = (of_char d div 16 :: nat)" "of_char c mod 16 = (of_char d mod 16 :: nat)"
    proof -
      have "of_char c = (of_char d :: nat)" using that by (metis div_mult_mod_eq)
      then show ?thesis by simp
    qed
    with Cons.IH [of b'] Cons less show ?thesis
      by (auto simp: hexEncode_def hexDigit_inj)
  qed (simp add: hexEncode_def)
qed

end
