(* ===== verification/Store.thy ===== *)
theory Store
  imports Store_Format File_System Sha256 Utf8
begin

text \<open>
  The store of the router, \<open>src/server/router/store/store.go\<close>: a directory with the saved matcher
  and a subdirectory with one run for each source. Every file is written under a temporary name
  and renamed. The operations work on the file system of \<open>File_System\<close> with its script of faults.
\<close>

definition runsSubdir :: string where "runsSubdir = ''runs''"
definition runSuffix :: string where "runSuffix = ''.run''"
definition tmpSuffix :: string where "tmpSuffix = ''.tmp''"
definition fstName :: string where "fstName = ''matcher.fst''"

record store =
  dir :: string
  runsDir :: string

section \<open>Names of runs\<close>

definition sanitizeRune :: "nat \<Rightarrow> string" where
  "sanitizeRune r =
     (if (97 \<le> r \<and> r \<le> 122) \<or> (65 \<le> r \<and> r \<le> 90) \<or> (48 \<le> r \<and> r \<le> 57) \<or> r = 45 \<or> r = 95
      then [char_of r] else ''_'')"

definition sanitize :: "bytes \<Rightarrow> string" where
  "sanitize name =
     (let b = concat (map (\<lambda>(r, _). sanitizeRune r) (runes name))
      in if b = [] then ''src'' else b)"

definition runFile :: "bytes \<Rightarrow> string" where
  "runFile name = sanitize name @ ''.'' @ hexEncode (take 4 (sha256 name)) @ runSuffix"

section \<open>Opening the store\<close>

fun removeTempEntries :: "string \<Rightarrow> string list \<Rightarrow> fs \<Rightarrow> fs" where
  "removeTempEntries d [] s = s"
| "removeTempEntries d (n # ns) s =
     removeTempEntries d ns (if suffix tmpSuffix n then snd (removeFile (d, n) s) else s)"

definition removeTemps :: "string \<Rightarrow> fs \<Rightarrow> fs" where
  "removeTemps d s =
     (case readDir d s of
        (Inl err, s) \<Rightarrow> s
      | (Inr entries, s) \<Rightarrow> removeTempEntries d entries s)"

definition cleanTemps :: "store \<Rightarrow> fs \<Rightarrow> fs" where
  "cleanTemps st s = removeTemps (dir st) (removeTemps (runsDir st) s)"

definition New :: "string \<Rightarrow> fs \<Rightarrow> (error + store) \<times> fs" where
  "New d s =
     (let runsDir = join d runsSubdir
      in case mkdirAll runsDir s of
           (Some err, s) \<Rightarrow> (Inl (Wrap ''store: mkdir'' err), s)
         | (None, s) \<Rightarrow>
             (let st = \<lparr>dir = d, runsDir = runsDir\<rparr> in (Inr st, cleanTemps st s)))"

section \<open>Atomic writes\<close>

text \<open>The body of \<open>writeAtomic\<close> after the temporary file exists; the deferred function follows.\<close>

definition writeSteps ::
  "path \<Rightarrow> path \<Rightarrow> (sink \<Rightarrow> error option \<times> sink) \<Rightarrow> fs \<Rightarrow> error option \<times> fs"
where
  "writeSteps path tmp write s =
     (case write (newWriter tmp, s) of
        (Some err, k) \<Rightarrow> (Some err, snd k)
      | (None, k) \<Rightarrow>
     (case flush k of
        (Some err, k) \<Rightarrow> (Some err, snd k)
      | (None, k) \<Rightarrow>
     (case fileSync tmp (snd k) of
        (Some err, s) \<Rightarrow> (Some err, s)
      | (None, s) \<Rightarrow>
     (case fileClose s of
        (Some err, s) \<Rightarrow> (Some err, s)
      | (None, s) \<Rightarrow> rename tmp path s))))"

definition writeAtomic ::
  "path \<Rightarrow> (sink \<Rightarrow> error option \<times> sink) \<Rightarrow> fs \<Rightarrow> error option \<times> fs"
where
  "writeAtomic path write s =
     (case createTemp (fst path) (snd path) tmpSuffix s of
        (Inl err, s) \<Rightarrow> (Some err, s)
      | (Inr tmp, s) \<Rightarrow>
          (case writeSteps path tmp write s of
             (Some err, s) \<Rightarrow> (Some err, snd (removeFile tmp (snd (fileClose s))))
           | (None, s) \<Rightarrow> (None, s)))"

text \<open>The closures that \<open>WriteRun\<close> and \<open>SaveFST\<close> hand to it.\<close>

definition runBody :: "'w writer \<Rightarrow> Validator \<Rightarrow> Record list \<Rightarrow> 'w \<Rightarrow> error option \<times> 'w" where
  "runBody write v recs w =
     (case writePreamble write w of
        (Some err, w) \<Rightarrow> (Some err, w)
      | (None, w) \<Rightarrow>
     (case writeValidator write v w of
        (Some err, w) \<Rightarrow> (Some err, w)
      | (None, w) \<Rightarrow> writeData write recs w))"

definition fstBody :: "'w writer \<Rightarrow> bytes \<Rightarrow> 'w \<Rightarrow> error option \<times> 'w" where
  "fstBody write data w =
     (case writePreamble write w of
        (Some err, w) \<Rightarrow> (Some err, w)
      | (None, w) \<Rightarrow> writeSection write secData data w)"

definition WriteRun :: "store \<Rightarrow> bytes \<Rightarrow> Validator \<Rightarrow> Record list \<Rightarrow> fs \<Rightarrow> error option \<times> fs" where
  "WriteRun st name v recs s = writeAtomic (runsDir st, runFile name) (runBody bufWrite v recs) s"

definition SaveFST :: "store \<Rightarrow> bytes \<Rightarrow> fs \<Rightarrow> error option \<times> fs" where
  "SaveFST st data s = writeAtomic (dir st, fstName) (fstBody bufWrite data) s"

section \<open>Reading\<close>

record RunReader =
  runBr :: reader
  runRemain :: u32

text \<open>A \<open>bufio.Reader\<close> on a file that was opened.\<close>

definition newReader :: "bytes \<times> (error \<times> nat) option \<Rightarrow> reader" where
  "newReader = (\<lambda>(d, flt). case flt of
       None \<Rightarrow> \<lparr>rest = d, atEnd = EOF\<rparr>
     | Some (e, n) \<Rightarrow> \<lparr>rest = take n d, atEnd = e\<rparr>)"

definition OpenRun :: "store \<Rightarrow> bytes \<Rightarrow> fs \<Rightarrow> (Validator \<times> RunReader option \<times> error option) \<times> fs" where
  "OpenRun st name s =
     (case openFile (runsDir st, runFile name) s of
        (Inl err, s) \<Rightarrow> ((noValidator, None, Some err), s)
      | (Inr f, s) \<Rightarrow>
          (case readHeader (newReader f) of
             ((v, len, Some err), br) \<Rightarrow> ((v, None, Some (Wrap ''store: run'' err)), s)
           | ((v, len, None), br) \<Rightarrow> ((v, Some \<lparr>runBr = br, runRemain = len\<rparr>, None), s)))"

definition errRecord :: error where "errRecord = Err ''store: truncated record''"

text \<open>\<open>RunReader.Next\<close>; the result \<open>Inr None\<close> is \<open>ok == false\<close> without an error.\<close>

definition runNext :: "RunReader \<Rightarrow> (error + Record option) \<times> RunReader" where
  "runNext r =
     (if runRemain r < 3 then (Inr None, r)
      else case readFull recordHeaderLen (runBr r) of
        (Inl err, br) \<Rightarrow> (Inl err, r\<lparr>runBr := br\<rparr>)
      | (Inr rh, br) \<Rightarrow>
          (let keyLen = word_of_nat (be_get (drop 1 rh)) :: u32;
               remain = runRemain r - 3
           in if keyLen > remain then (Inl errRecord, \<lparr>runBr = br, runRemain = remain\<rparr>)
              else case readFull (unat keyLen) br of
                (Inl err, br) \<Rightarrow> (Inl err, \<lparr>runBr = br, runRemain = remain\<rparr>)
              | (Inr key, br) \<Rightarrow>
                  (Inr (Some (Record key (word_of_nat (of_char (rh ! 0))))),
                   \<lparr>runBr = br, runRemain = remain - keyLen\<rparr>)))"

text \<open>A caller that asks for records until there is none or an error; \<open>n\<close> bounds the calls.\<close>

fun drainRun :: "nat \<Rightarrow> RunReader \<Rightarrow> (Record list \<times> error option) option" where
  "drainRun 0 r = None"
| "drainRun (Suc n) r =
     (case runNext r of
        (Inl err, _) \<Rightarrow> Some ([], Some err)
      | (Inr None, _) \<Rightarrow> Some ([], None)
      | (Inr (Some rec), r) \<Rightarrow> map_option (\<lambda>(recs, e). (rec # recs, e)) (drainRun n r))"

definition LoadValidator :: "store \<Rightarrow> bytes \<Rightarrow> fs \<Rightarrow> (Validator \<times> error option) \<times> fs" where
  "LoadValidator st name s =
     (case openFile (runsDir st, runFile name) s of
        (Inl err, s) \<Rightarrow> ((noValidator, Some err), s)
      | (Inr f, s) \<Rightarrow> (case readHeader (newReader f) of ((v, _, err), _) \<Rightarrow> ((v, err), s)))"

definition loadFSTData :: "store \<Rightarrow> fs \<Rightarrow> (error + bytes) \<times> fs" where
  "loadFSTData st s =
     (case readFile (dir st, fstName) s of
        (Inl err, s) \<Rightarrow> (Inl err, s)
      | (Inr raw, s) \<Rightarrow> (sectionValue raw secData, s))"

section \<open>Pruning\<close>

fun retainLoop :: "string set \<Rightarrow> string \<Rightarrow> string list \<Rightarrow> nat \<Rightarrow> fs \<Rightarrow> nat \<times> fs" where
  "retainLoop keep d [] removed s = (removed, s)"
| "retainLoop keep d (n # ns) removed s =
     (if suffix tmpSuffix n then retainLoop keep d ns removed (snd (removeFile (d, n) s))
      else if n \<notin> keep \<and> suffix runSuffix n then
        (case removeFile (d, n) s of
           (None, s) \<Rightarrow> retainLoop keep d ns (removed + 1) s
         | (Some _, s) \<Rightarrow> retainLoop keep d ns removed s)
      else retainLoop keep d ns removed s)"

definition Retain :: "store \<Rightarrow> bytes list \<Rightarrow> fs \<Rightarrow> (error + nat) \<times> fs" where
  "Retain st names s =
     (case readDir (runsDir st) s of
        (Inl err, s) \<Rightarrow> (Inl err, s)
      | (Inr entries, s) \<Rightarrow>
          (case retainLoop (runFile ` set names) (runsDir st) entries 0 s of
             (removed, s) \<Rightarrow> (Inr removed, s)))"

section \<open>What the bodies write\<close>

definition runBytes :: "Validator \<Rightarrow> Record list \<Rightarrow> bytes" where
  "runBytes v recs = preambleBytes @ validatorBytes v @ dataBytes (written recs)"

definition fstBytes :: "bytes \<Rightarrow> bytes" where
  "fstBytes data = preambleBytes @ sectionBytes secData data"

context framed_writer
begin

lemma runBody_bytes: "runBody wr v recs w = (None, w') \<Longrightarrow> content w' = content w @ runBytes v recs"
  by (auto simp: runBody_def runBytes_def written_def split: prod.splits option.splits
      dest!: writePreamble_bytes writeValidator_bytes writeData_bytes)

lemma fstBody_bytes: "fstBody wr data w = (None, w') \<Longrightarrow> content w' = content w @ fstBytes data"
  by (auto simp: fstBody_def fstBytes_def split: prod.splits option.splits
      dest!: writePreamble_bytes writeSection_bytes)

lemma runBody_frame: "runBody wr v recs w = (e, w') \<Longrightarrow> frame w w'"
  by (auto simp: runBody_def split: prod.splits option.splits
      dest!: writePreamble_frame writeValidator_frame writeData_frame) (meson frame_trans)+

lemma fstBody_frame: "fstBody wr data w = (e, w') \<Longrightarrow> frame w w'"
  by (auto simp: fstBody_def split: prod.splits option.splits
      dest!: writePreamble_frame writeSection_frame) (meson frame_trans)+

end

section \<open>Atomicity\<close>

text \<open>
  The contract of an atomic write of the bytes \<open>bs\<close> to \<open>p\<close>: without an error the file has exactly
  these bytes, on the disk as well; with an error it is as before. Other files do not change, but
  a temporary file may be left when the clean-up failed too.
\<close>

definition atomically :: "path \<Rightarrow> bytes \<Rightarrow> error option \<Rightarrow> fs \<Rightarrow> fs \<Rightarrow> bool" where
  "atomically p bs e s t \<longleftrightarrow>
     lookupFile t p = (if e = None then Some \<lparr>fdata = bs, fdisk = bs\<rparr> else lookupFile s p) \<and>
     (\<forall>q. q \<noteq> p \<longrightarrow> lookupFile t q = lookupFile s q \<or>
        (e \<noteq> None \<and> lookupFile s q = None \<and> fst q = fst p \<and> suffix tmpSuffix (snd q))) \<and>
     fsDirs t = fsDirs s"

lemma atomically_other:
  "atomically p bs e s t \<Longrightarrow> q \<noteq> p \<Longrightarrow> lookupFile t q = lookupFile s q \<or>
     (lookupFile s q = None \<and> fst q = fst p \<and> suffix tmpSuffix (snd q))"
  unfolding atomically_def by blast

lemma createTemp_Inr:
  assumes "createTemp d base tmpSuffix s = (Inr tmp, t)"
  shows "lookupFile s tmp = None" and "lookupFile t tmp = Some \<lparr>fdata = [], fdisk = []\<rparr>"
    and "same_files {tmp} s t" and "fst tmp = d" and "suffix tmpSuffix (snd tmp)" and "tmp \<noteq> (d, base)"
proof -
  from assms obtain f u r rs where f: "sysCall s = (f, u)"
    and r: "dropWhile (\<lambda>r. lookupFile u (d, tempName base tmpSuffix r) \<noteq> None) (fsRandom u) = r # rs"
    and tmp: "tmp = (d, tempName base tmpSuffix r)"
    and t: "t = putFile tmp \<lparr>fdata = [], fdisk = []\<rparr> (u\<lparr>fsRandom := rs\<rparr>)"
    by (auto simp: createTemp_def split: prod.splits option.splits if_splits list.splits)
  have "lookupFile u tmp = None"
    using r tmp by (simp add: dropWhile_eq_Cons_conv)
  then show "lookupFile s tmp = None" by (simp add: sysCall_simps [OF f])
  show "lookupFile t tmp = Some \<lparr>fdata = [], fdisk = []\<rparr>" by (simp add: t)
  show "same_files {tmp} s t" by (auto simp: same_files_def t sysCall_simps [OF f])
  show "fst tmp = d" by (simp add: tmp)
  show "suffix tmpSuffix (snd tmp)" by (auto simp: tmp tempName_def suffix_def)
  show "tmp \<noteq> (d, base)" by (simp add: tmp tempName_def)
qed

lemma createTemp_Inl: "createTemp d base suf s = (Inl e, t) \<Longrightarrow> same_files {} s t"
  by (auto simp: createTemp_def same_files_def sysCall_simps
      split: prod.splits option.splits if_splits list.splits)

text \<open>A body that writes the bytes \<open>bs\<close> and touches nothing but its temporary file.\<close>

definition writes :: "(sink \<Rightarrow> error option \<times> sink) \<Rightarrow> bytes \<Rightarrow> bool" where
  "writes body bs \<longleftrightarrow>
     (\<forall>k k'. body k = (None, k') \<longrightarrow> sinkContent k' = sinkContent k @ bs) \<and>
     (\<forall>k e k'. body k = (e, k') \<longrightarrow> sinkFrame k k')"

lemma writesD:
  assumes "writes body bs"
  shows "body k = (None, k') \<Longrightarrow> sinkContent k' = sinkContent k @ bs"
    and "body k = (e, k') \<Longrightarrow> sinkFrame k k'"
  using assms unfolding writes_def by blast+

lemma runBody_writes: "writes (runBody bufWrite v recs) (runBytes v recs)"
  by (simp add: writes_def sink.runBody_bytes sink.runBody_frame)

lemma fstBody_writes: "writes (fstBody bufWrite data) (fstBytes data)"
  by (simp add: writes_def sink.fstBody_bytes sink.fstBody_frame)

lemma fileSync_data:
  "fileSync p s = (None, t) \<Longrightarrow>
     \<exists>f. lookupFile s p = Some f \<and> lookupFile t p = Some \<lparr>fdata = fdata f, fdisk = fdata f\<rparr>"
  by (auto simp: fileSync_def split: option.splits prod.splits)

lemma writeSteps_atomic:
  assumes "writes body bs" and "lookupFile s tmp = Some \<lparr>fdata = [], fdisk = []\<rparr>" and "tmp \<noteq> p"
    and "writeSteps p tmp body s = (e, t)"
  shows "(e \<noteq> None \<and> same_files {tmp} s t) \<or>
    (e = None \<and> lookupFile t p = Some \<lparr>fdata = bs, fdisk = bs\<rparr> \<and> lookupFile t tmp = None \<and>
      same_files {tmp, p} s t)"
proof -
  obtain e1 k1 where b: "body (newWriter tmp, s) = (e1, k1)" by (rule prod.exhaust)
  have f1: "sinkFrame (newWriter tmp, s) k1" using assms(1) b by (simp add: writes_def del: split_paired_All)
  then have s1: "same_files {tmp} s (snd k1)" and w1: "bwFile (fst k1) = tmp"
    by (simp_all add: sinkFrame_def newWriter_def)
  show ?thesis
  proof (cases e1)
    case (Some err)
    with assms(4) b s1 show ?thesis by (auto simp: writeSteps_def)
  next
    case None
    with writesD(1) [OF assms(1), of "(newWriter tmp, s)" k1] b have "sinkContent k1 = sinkContent (newWriter tmp, s) @ bs"
      by simp
    then have c1: "sinkContent k1 = bs" using assms(2) by (simp add: sinkContent_def newWriter_def)
    obtain e2 k2 where fl: "flush k1 = (e2, k2)" by (rule prod.exhaust)
    then have f2: "sinkFrame k1 k2" by (rule flush_frame)
    then have s2: "same_files {tmp} s (snd k2)" and w2: "bwFile (fst k2) = tmp"
      using s1 w1 by (auto simp: sinkFrame_def intro: same_files_trans)
    show ?thesis
    proof (cases e2)
      case (Some err)
      with assms(4) b None fl s2 show ?thesis by (auto simp: writeSteps_def)
    next
      case None2: None
      with flush_content fl c1 have c2: "sinkContent k2 = bs" "bwBuf (fst k2) = []" by auto
      have "lookupFile (snd k2) tmp \<noteq> None"
        using f1 f2 assms(2) by (auto simp: sinkFrame_def newWriter_def)
      with c2 w2 obtain f where f: "lookupFile (snd k2) tmp = Some f" "fdata f = bs"
        by (cases k2) (auto simp: sinkContent_def)
      obtain e3 s3 where sy: "fileSync tmp (snd k2) = (e3, s3)" by (rule prod.exhaust)
      then have same3: "same_files {tmp} s s3" using s2 by (blast intro: same_files_trans fileSync_same)
      obtain e4 s4 where cl: "fileClose s3 = (e4, s4)" by (rule prod.exhaust)
      have same4: "same_files {} s3 s4" using fileClose_same [OF cl] .
      then have same4': "same_files {tmp} s s4" using same3 by (auto simp: same_files_def)
      obtain e5 s5 where rn: "rename tmp p s4 = (e5, s5)" by (rule prod.exhaust)
      show ?thesis
      proof (cases "e3 = None \<and> e4 = None")
        case False
        with assms(4) b None fl None2 sy cl same3 same4' show ?thesis
          by (auto simp: writeSteps_def split: option.splits)
      next
        case True
        with assms(4) b None fl None2 sy cl rn have r: "rename tmp p s4 = (e, t)"
          by (simp add: writeSteps_def)
        have "lookupFile s4 tmp = Some \<lparr>fdata = bs, fdisk = bs\<rparr>"
          using fileSync_data [of tmp "snd k2" s3] sy True f same4
          by (auto simp: same_files_def simp del: split_paired_All)
        with rename_cases [OF r assms(3)] same4' show ?thesis
          by (auto simp: same_files_def)
      qed
    qed
  qed
qed

lemma writeAtomic_atomic:
  assumes "writes body bs" and "writeAtomic p body s = (e, t)"
  shows "atomically p bs e s t"
proof -
  obtain c s1 where ct: "createTemp (fst p) (snd p) tmpSuffix s = (c, s1)" by (rule prod.exhaust)
  show ?thesis
  proof (cases c)
    case (Inl err)
    with assms(2) ct have "e = Some err" "t = s1" by (auto simp: writeAtomic_def)
    with createTemp_Inl [OF ct [unfolded Inl]] show ?thesis
      by (simp add: atomically_def same_files_def del: split_paired_All)
  next
    case (Inr tmp)
    note tmp = createTemp_Inr [OF ct [unfolded Inr]]
    have ne: "tmp \<noteq> p" using tmp(6) by simp
    obtain e2 s2 where st: "writeSteps p tmp body s1 = (e2, s2)" by (rule prod.exhaust)
    show ?thesis
    proof (cases e2)
      case None
      with assms(2) ct Inr st have "e = None" "t = s2" by (simp_all add: writeAtomic_def)
      with writeSteps_atomic [OF assms(1) tmp(2) ne st] None
      have p: "lookupFile t p = Some \<lparr>fdata = bs, fdisk = bs\<rparr>" and gone: "lookupFile t tmp = None"
        and same: "same_files {tmp, p} s1 t" by simp_all
      have "lookupFile t q = lookupFile s q" if "q \<noteq> p" for q
        using that gone same tmp(1,3) by (cases "q = tmp") (simp_all add: same_files_def del: split_paired_All)
      with p same tmp(3) \<open>e = None\<close> show ?thesis by (simp add: atomically_def same_files_def)
    next
      case (Some err)
      obtain e3 s3 where cl: "fileClose s2 = (e3, s3)" by (rule prod.exhaust)
      obtain e4 s4 where rm: "removeFile tmp s3 = (e4, s4)" by (rule prod.exhaust)
      from assms(2) ct Inr st Some cl rm have "e = Some err" "t = s4" by (simp_all add: writeAtomic_def)
      moreover have "same_files {tmp} s s4"
        using writeSteps_atomic [OF assms(1) tmp(2) ne st] Some tmp(3) fileClose_same [OF cl]
          removeFile_same [OF rm]
        by (auto simp: same_files_def)
      moreover from calculation have "lookupFile t q = lookupFile s q \<or> q = tmp" for q
        by (auto simp: same_files_def simp del: split_paired_All)
      ultimately show ?thesis using tmp(1,4,5) ne unfolding atomically_def
        by (metis option.distinct(1) same_files_def)
    qed
  qed
qed

text \<open>
  C9. Writes of the store are atomic: whatever calls fail while \<open>WriteRun\<close> or \<open>SaveFST\<close> runs, and
  wherever the process stops, the file under its final name is either the old one or the complete
  new one, and the new one is on the disk. An operation that reports no error has replaced the
  file; one that reports an error has changed nothing but, at most, a file with the suffix of
  temporary files. No other file of the store changes.
\<close>

theorem store_writes_atomic:
  "(case WriteRun st name v recs s of (e, t) \<Rightarrow>
      atomically (runsDir st, runFile name) (runBytes v recs) e s t) \<and>
   (case SaveFST st data s of (e, t) \<Rightarrow> atomically (dir st, fstName) (fstBytes data) e s t)"
  by (auto simp: WriteRun_def SaveFST_def split: prod.split
      intro: writeAtomic_atomic [OF runBody_writes] writeAtomic_atomic [OF fstBody_writes])

section \<open>Reading a run\<close>

lemma runNext_Some:
  assumes "runNext r = (Inr (Some x), r')"
  shows "unat (runRemain r') + (3 + length (Key x)) = unat (runRemain r)"
proof -
  from assms have ge: "3 \<le> runRemain r"
    by (auto simp: runNext_def not_less split: if_splits)
  with assms obtain rh br where f1: "readFull recordHeaderLen (runBr r) = (Inr rh, br)"
    by (auto simp: runNext_def split: if_splits prod.splits sum.splits)
  let ?keyLen = "word_of_nat (be_get (drop 1 rh)) :: u32"
  have le: "?keyLen \<le> runRemain r - 3"
    using assms ge f1 by (auto simp: runNext_def Let_def split: if_splits prod.splits sum.splits)
  with assms ge f1 obtain key br2 where f2: "readFull (unat ?keyLen) br = (Inr key, br2)"
    and x: "Key x = key" and r': "runRemain r' = runRemain r - 3 - ?keyLen"
    by (auto simp: runNext_def Let_def split: if_splits prod.splits sum.splits)
  have "length key = unat ?keyLen" using readFull_Inr [OF f2] by simp
  moreover have "unat (runRemain r - 3) = unat (runRemain r) - 3" using ge by (simp add: unat_sub)
  moreover have "unat (runRemain r - 3 - ?keyLen) = unat (runRemain r - 3) - unat ?keyLen"
    using le by (simp add: unat_sub)
  moreover have "3 \<le> unat (runRemain r)" "unat ?keyLen \<le> unat (runRemain r - 3)"
    using ge le by (simp_all add: word_le_nat_alt)
  ultimately show ?thesis by (simp add: x r')
qed

lemma drainRun_enough:
  "unat (runRemain r) < 3 * n \<Longrightarrow> \<exists>recs e. drainRun n r = Some (recs, e) \<and>
     sum_list (map (\<lambda>x. 3 + length (Key x)) recs) \<le> unat (runRemain r)"
proof (induction n arbitrary: r)
  case (Suc n)
  obtain res r' where nx: "runNext r = (res, r')" by (rule prod.exhaust)
  show ?case
  proof (cases "\<exists>x. res = Inr (Some x)")
    case True
    then obtain x where "res = Inr (Some x)" by blast
    with nx have nx: "runNext r = (Inr (Some x), r')" by simp
    note less = runNext_Some [OF nx]
    with Suc.prems have "unat (runRemain r') < 3 * n" by simp
    from Suc.IH [OF this] obtain recs e where "drainRun n r' = Some (recs, e)"
      "sum_list (map (\<lambda>x. 3 + length (Key x)) recs) \<le> unat (runRemain r')" by blast
    with nx less show ?thesis by (intro exI [of _ "x # recs"] exI [of _ e]) simp
  next
    case False
    then have "(\<exists>err. res = Inl err) \<or> res = Inr None" by (cases res) auto
    with nx show ?thesis by auto
  qed
qed simp

text \<open>
  C33. Reading a run ends, whatever the file holds: a caller that asks \<open>Next\<close> for records gets the
  end or an error after at most one third of the length of the data section plus one calls, and
  the records it got are no longer than that section.
\<close>

theorem run_drain_terminates:
  "\<exists>recs e. drainRun (unat (runRemain r) div 3 + 1) r = Some (recs, e) \<and>
     sum_list (map (\<lambda>x. 3 + length (Key x)) recs) \<le> unat (runRemain r)"
  by (rule drainRun_enough) presburger

text \<open>The records of a data section come back one by one.\<close>

lemma runNext_record:
  assumes "3 + length (Key x) mod 2 ^ 16 + n < 2 ^ 32"
  shows "runNext \<lparr>runBr = \<lparr>rest = recordBytes x @ s, atEnd = e\<rparr>,
      runRemain = word_of_nat (3 + length (Key x) mod 2 ^ 16 + n)\<rparr> =
    (Inr (Some (Record (take (length (Key x) mod 2 ^ 16) (Key x)) (Mode x))),
     \<lparr>runBr = \<lparr>rest = drop (length (Key x) mod 2 ^ 16) (Key x) @ s, atEnd = e\<rparr>, runRemain = word_of_nat n\<rparr>)"
proof -
  let ?h = "char_of (unat (Mode x)) # be_put 2 (length (Key x))"
  define k where "k = length (Key x) mod 2 ^ 16"
  have k: "k \<le> length (Key x)" "k < 2 ^ 16" by (simp_all add: k_def)
  have f1: "readFull recordHeaderLen \<lparr>rest = recordBytes x @ s, atEnd = e\<rparr> =
      (Inr ?h, \<lparr>rest = Key x @ s, atEnd = e\<rparr>)"
    using readFull_append [of recordHeaderLen ?h "Key x @ s" e]
    by (simp add: recordHeaderLen_def recordBytes_def)
  have key: "be_get (drop 1 ?h) = k" by (simp add: be_get_put k_def)
  have rem: "unat (word_of_nat (3 + k + n) :: u32) = 3 + k + n"
    by (rule unat_of_small) (use assms in \<open>simp add: k_def\<close>)
  have len: "unat (word_of_nat k :: u32) = k"
    by (rule unat_of_small) (use k(2) in simp)
  have ge: "\<not> word_of_nat (3 + k + n) < (3 :: u32)"
    using rem by (simp add: word_less_nat_alt)
  have sub: "word_of_nat (3 + k + n) - 3 = (word_of_nat (k + n) :: u32)"
    by simp
  have fits: "\<not> (word_of_nat k :: u32) > word_of_nat (k + n)"
  proof -
    have "unat (word_of_nat (k + n) :: u32) = k + n"
      by (rule unat_of_small) (use assms in \<open>simp add: k_def\<close>)
    then show ?thesis by (simp add: word_less_nat_alt len del: of_nat_add)
  qed
  have mode: "word_of_nat (of_char (?h ! 0)) = Mode x"
  proof -
    have "unat (Mode x) < 2 ^ LENGTH(8)" by (rule unsigned_less)
    then show ?thesis by (simp add: of_char_of)
  qed
  have "word_of_nat (k + n) - (word_of_nat k :: u32) = word_of_nat n" by simp
  moreover have "readFull k \<lparr>rest = Key x @ s, atEnd = e\<rparr> =
      (Inr (take k (Key x)), \<lparr>rest = drop k (Key x) @ s, atEnd = e\<rparr>)"
    using k(1) by (simp add: readFull_def)
  ultimately show ?thesis
    unfolding k_def [symmetric]
    by (simp only: runNext_def RunReader.simps ge f1 key sub fits len mode if_False prod.case sum.case Let_def)
qed

lemma drainRun_records:
  assumes "\<forall>x \<in> set recs. length (Key x) < 2 ^ 16" and "dataLen recs < 2 ^ 32" and "length recs < n"
  shows "drainRun n \<lparr>runBr = \<lparr>rest = recordsBytes recs, atEnd = e\<rparr>, runRemain = word_of_nat (dataLen recs)\<rparr> =
    Some (recs, None)"
  using assms
proof (induction recs arbitrary: n)
  case Nil
  then obtain m where "n = Suc m" by (cases n) auto
  then show ?case by (simp add: runNext_def dataLen_def)
next
  case (Cons x recs)
  then obtain m where n: "n = Suc m" "length recs < m" by (cases n) auto
  have len: "dataLen (x # recs) = 3 + length (Key x) + dataLen recs"
    by (simp add: dataLen_def recordHeaderLen_def)
  have "recordsBytes (x # recs) = recordBytes x @ recordsBytes recs" by (simp add: recordsBytes_def)
  have small: "length (Key x) mod 2 ^ 16 = length (Key x)" using Cons.prems(1) by simp
  have "3 + length (Key x) mod 2 ^ 16 + dataLen recs < 2 ^ 32" using Cons.prems(2) len small by simp
  from runNext_record [OF this, of "recordsBytes recs" e] Cons n len small
  show ?case by (simp add: recordsBytes_def)
qed

definition calm :: "fs \<Rightarrow> fs" where
  "calm s = s\<lparr>fsFaults := []\<rparr>"

lemma calm_simps [simp]: "fsFaults (calm s) = []" "lookupFile (calm s) q = lookupFile s q" "fsDirs (calm s) = fsDirs s"
  by (simp_all add: calm_def)

lemma openFile_calm:
  "lookupFile s p = Some f \<Longrightarrow> openFile p (calm s) = (Inr (fdata f, None), calm s)"
  by (simp add: openFile_def sysCall_calm)

lemma readHeader_run:
  assumes "short v" and "dataLen (written recs) < 2 ^ 32"
  shows "readHeader (newReader (runBytes v recs, None)) =
    ((v, word_of_nat (dataLen (written recs)), None), \<lparr>rest = recordsBytes (written recs), atEnd = EOF\<rparr>)"
  using readHeader_bytes [OF assms] by (simp add: newReader_def runBytes_def dataBytes_def)

lemma atomically_done: "atomically p bs None s t \<Longrightarrow> lookupFile t p = Some \<lparr>fdata = bs, fdisk = bs\<rparr>"
  by (simp add: atomically_def)

lemma WriteRun_done:
  "WriteRun st name v recs s = (None, t) \<Longrightarrow>
     lookupFile t (runsDir st, runFile name) = Some \<lparr>fdata = runBytes v recs, fdisk = runBytes v recs\<rparr>"
  unfolding WriteRun_def by (rule atomically_done [OF writeAtomic_atomic [OF runBody_writes]])

lemma SaveFST_done:
  "SaveFST st data s = (None, t) \<Longrightarrow>
     lookupFile t (dir st, fstName) = Some \<lparr>fdata = fstBytes data, fdisk = fstBytes data\<rparr>"
  unfolding SaveFST_def by (rule atomically_done [OF writeAtomic_atomic [OF fstBody_writes]])

lemma OpenRun_written:
  assumes "lookupFile t (runsDir st, runFile name) = Some \<lparr>fdata = runBytes v recs, fdisk = disk\<rparr>"
    and "short v" and "dataLen (written recs) < 2 ^ 32"
  shows "OpenRun st name (calm t) =
      ((v, Some \<lparr>runBr = \<lparr>rest = recordsBytes (written recs), atEnd = EOF\<rparr>,
                 runRemain = word_of_nat (dataLen (written recs))\<rparr>, None), calm t)"
    and "LoadValidator st name (calm t) = ((v, None), calm t)"
  using openFile_calm [OF assms(1)] readHeader_run [OF assms(2,3)]
  by (simp_all add: OpenRun_def LoadValidator_def)

context live_writer
begin

lemma runBody_live:
  assumes "ok w"
  shows "\<exists>w'. runBody wr v recs w = (None, w') \<and> ok w'"
proof -
  obtain w1 where 1: "writePreamble wr w = (None, w1)" "ok w1" using writePreamble_live [OF assms] by blast
  obtain w2 where 2: "writeValidator wr v w1 = (None, w2)" "ok w2" using writeValidator_live [OF 1(2)] by blast
  show ?thesis using writeData_live [OF 2(2)] by (simp add: runBody_def 1 2)
qed

lemma fstBody_live:
  assumes "ok w"
  shows "\<exists>w'. fstBody wr data w = (None, w') \<and> ok w'"
proof -
  obtain w1 where 1: "writePreamble wr w = (None, w1)" "ok w1" using writePreamble_live [OF assms] by blast
  show ?thesis using writeSection_live [OF 1(2)] by (simp add: fstBody_def 1)
qed

end

text \<open>Without faults, in a directory that exists and with a free temporary name, a write succeeds.\<close>

definition writable :: "path \<Rightarrow> fs \<Rightarrow> bool" where
  "writable p s \<longleftrightarrow> fsFaults s = [] \<and> fst p \<in> set (fsDirs s) \<and>
     (\<exists>r \<in> set (fsRandom s). lookupFile s (fst p, tempName (snd p) tmpSuffix r) = None)"

lemma createTemp_calm:
  assumes "writable p s"
  shows "\<exists>tmp t. createTemp (fst p) (snd p) tmpSuffix s = (Inr tmp, t) \<and> fsFaults t = [] \<and>
    fsRandom t = tl (dropWhile (\<lambda>r. lookupFile s (fst p, tempName (snd p) tmpSuffix r) \<noteq> None) (fsRandom s))"
proof -
  let ?taken = "\<lambda>r. lookupFile s (fst p, tempName (snd p) tmpSuffix r) \<noteq> None"
  have "dropWhile ?taken (fsRandom s) \<noteq> []"
    using assms by (auto simp: writable_def dropWhile_eq_Nil_conv)
  then obtain r rs where "dropWhile ?taken (fsRandom s) = r # rs" by (cases "dropWhile ?taken (fsRandom s)") auto
  with assms show ?thesis by (simp add: createTemp_def sysCall_calm writable_def)
qed

lemma writeAtomic_live:
  assumes "writable p s" and "writes body bs" and "\<And>k. sinkOk k \<Longrightarrow> \<exists>k'. body k = (None, k') \<and> sinkOk k'"
  shows "\<exists>t. writeAtomic p body s = (None, t) \<and> fsFaults t = [] \<and>
    fsRandom t = tl (dropWhile (\<lambda>r. lookupFile s (fst p, tempName (snd p) tmpSuffix r) \<noteq> None) (fsRandom s))"
proof -
  obtain tmp s1 where ct: "createTemp (fst p) (snd p) tmpSuffix s = (Inr tmp, s1)" and "fsFaults s1 = []"
    and rnd: "fsRandom s1 = tl (dropWhile (\<lambda>r. lookupFile s (fst p, tempName (snd p) tmpSuffix r) \<noteq> None) (fsRandom s))"
    using createTemp_calm [OF assms(1)] by blast
  with createTemp_Inr [OF ct] have "sinkOk (newWriter tmp, s1)" by (simp add: sinkOk_def newWriter_def)
  with assms(3) obtain k1 where k1: "body (newWriter tmp, s1) = (None, k1)" "sinkOk k1" by blast
  have f1: "bwFile (fst k1) = tmp" "fsRandom (snd k1) = fsRandom s1"
    using writesD(2) [OF assms(2) k1(1)] by (simp_all add: sinkFrame_def newWriter_def)
  from flush_ok [OF k1(2)] obtain k2 where k2: "flush k1 = (None, k2)" "sinkOk k2" by blast
  have f2: "bwFile (fst k2) = tmp" "fsRandom (snd k2) = fsRandom s1"
    using flush_frame [OF k2(1)] f1 by (simp_all add: sinkFrame_def)
  with k2 obtain s3 where s3: "fileSync tmp (snd k2) = (None, s3)" "fsFaults s3 = []" "lookupFile s3 tmp \<noteq> None"
    "fsRandom s3 = fsRandom s1"
    by (auto simp: sinkOk_def fileSync_def sysCall_calm)
  then obtain t where t: "rename tmp p s3 = (None, t)" "fsFaults t = []" "fsRandom t = fsRandom s1"
    by (auto simp: rename_def sysCall_calm)
  with s3 have "writeSteps p tmp body s1 = (None, t)"
    by (simp add: writeSteps_def k1 k2 fileClose_def sysCall_calm)
  with ct t rnd show ?thesis by (simp add: writeAtomic_def)
qed

lemma WriteRun_live:
  "writable (runsDir st, runFile name) s \<Longrightarrow> \<exists>t. WriteRun st name v recs s = (None, t)"
  using writeAtomic_live [OF _ runBody_writes sink_live.runBody_live] unfolding WriteRun_def by blast

lemma SaveFST_live: "writable (dir st, fstName) s \<Longrightarrow> \<exists>t. SaveFST st data s = (None, t)"
  using writeAtomic_live [OF _ fstBody_writes sink_live.fstBody_live] unfolding SaveFST_def by blast

text \<open>
  A disk on which the store can work: no call fails, the directories are there, no temporary file is
  left, and \<open>n\<close> random numbers are left for new ones. A write uses one of them.
\<close>

definition roomy :: "store \<Rightarrow> nat \<Rightarrow> fs \<Rightarrow> bool" where
  "roomy st n s \<longleftrightarrow> fsFaults s = [] \<and> {dir st, runsDir st} \<subseteq> set (fsDirs s) \<and> n \<le> length (fsRandom s) \<and>
     (\<forall>q. suffix tmpSuffix (snd q) \<longrightarrow> lookupFile s q = None)"

lemma tempName_suffix [simp]: "suffix tmpSuffix (tempName base tmpSuffix r)"
  by (auto simp: tempName_def suffix_def)

lemma roomy_writable:
  assumes "roomy st (Suc n) s" and "fst p = dir st \<or> fst p = runsDir st"
  shows "writable p s"
    and "dropWhile (\<lambda>r. lookupFile s (fst p, tempName (snd p) tmpSuffix r) \<noteq> None) (fsRandom s) = fsRandom s"
  using assms by (cases "fsRandom s"; auto simp: writable_def roomy_def)+

lemma writeAtomic_roomy:
  assumes "roomy st (Suc n) s" and "fst p = dir st \<or> fst p = runsDir st" and "\<not> suffix tmpSuffix (snd p)"
    and "writes body bs" and "\<And>k. sinkOk k \<Longrightarrow> \<exists>k'. body k = (None, k') \<and> sinkOk k'"
  shows "\<exists>t. writeAtomic p body s = (None, t) \<and> roomy st n t"
proof -
  obtain t where t: "writeAtomic p body s = (None, t)" "fsFaults t = []" "fsRandom t = tl (fsRandom s)"
    using writeAtomic_live [OF roomy_writable(1) [OF assms(1,2)] assms(4,5)]
    unfolding roomy_writable(2) [OF assms(1,2)] by blast
  have "lookupFile t q = None" if "suffix tmpSuffix (snd q)" for q
  proof -
    have "q \<noteq> p" using that assms(3) by blast
    with writeAtomic_atomic [OF assms(4) t(1)] have "lookupFile t q = lookupFile s q"
      unfolding atomically_def by blast
    with that assms(1) show ?thesis by (simp add: roomy_def del: split_paired_All)
  qed
  moreover have "fsDirs t = fsDirs s" using writeAtomic_atomic [OF assms(4) t(1)] by (simp add: atomically_def)
  ultimately show ?thesis using assms(1) t by (auto simp: roomy_def)
qed

text \<open>
  C25. A run comes back as it was written: after \<open>WriteRun\<close> succeeded, \<open>LoadValidator\<close> and
  \<open>OpenRun\<close> give the validator, and the reader gives one record for each key in strictly ascending
  order, and then the end. A record whose key occurs more than once has the largest of its modes.
  Keys have to be shorter than 64 KiB, and the fields of the validator and the data section shorter
  than 4 GiB, which are the widths of their length fields.
\<close>

theorem run_roundtrip:
  assumes "WriteRun st name v recs s = (None, t)" and "short v"
    and "\<forall>x \<in> set recs. length (Key x) < 2 ^ 16" and "dataLen (written recs) < 2 ^ 32"
  shows "LoadValidator st name (calm t) = ((v, None), calm t) \<and>
    (\<exists>r out. OpenRun st name (calm t) = ((v, Some r, None), calm t) \<and>
      drainRun (length out + 1) r = Some (out, None) \<and> sorted_wrt (<) (map Key out) \<and>
      set out \<subseteq> set recs \<and> (\<forall>x \<in> set recs. \<exists>y \<in> set out. Key y = Key x \<and> Mode x \<le> Mode y))"
proof -
  let ?r = "\<lparr>runBr = \<lparr>rest = recordsBytes (written recs), atEnd = EOF\<rparr>,
    runRemain = word_of_nat (dataLen (written recs))\<rparr>"
  note opened = OpenRun_written [OF WriteRun_done [OF assms(1)] assms(2,4)]
  have "\<forall>x \<in> set (written recs). length (Key x) < 2 ^ 16" using assms(3) written_set by blast
  then have "drainRun (length (written recs) + 1) ?r = Some (written recs, None)"
    by (intro drainRun_records) (use assms(4) in auto)
  with opened written_ascending [of recs] written_set [of recs] written_covers [of _ recs] show ?thesis by blast
qed

definition demo_store :: store where
  "demo_store = \<lparr>dir = ''/var/azg'', runsDir = ''/var/azg/runs''\<rparr>"

definition demo_fs :: fs where
  "demo_fs = \<lparr>fsFiles = [], fsDirs = [''/var/azg'', ''/var/azg/runs''], fsFaults = [], fsRandom = [''17'']\<rparr>"

lemma demo_writable: "fst p \<in> {''/var/azg'', ''/var/azg/runs''} \<Longrightarrow> writable p demo_fs"
  by (auto simp: writable_def demo_fs_def lookupFile_def)

definition demo_records :: "Record list" where
  "demo_records = [Record ''com.b'' 1, Record ''com.a'' 1, Record ''com.b'' 2]"

lemma demo_written: "written demo_records = [Record ''com.a'' 1, Record ''com.b'' 2]"
  by (simp add: written_def demo_records_def insort_key.simps less_eq_Record_def cmpRecord_def)

lemma run_roundtrip_witness:
  "\<exists>t r out. WriteRun demo_store ''src'' noValidator demo_records demo_fs = (None, t) \<and>
     OpenRun demo_store ''src'' (calm t) = ((noValidator, Some r, None), calm t) \<and>
     drainRun (length out + 1) r = Some (out, None) \<and> set out \<subseteq> set demo_records"
proof -
  obtain t where w: "WriteRun demo_store ''src'' noValidator demo_records demo_fs = (None, t)"
    using WriteRun_live [OF demo_writable] by (fastforce simp: demo_store_def)
  have "short noValidator" by (simp add: short_def noValidator_def)
  moreover have "\<forall>x \<in> set demo_records. length (Key x) < 2 ^ 16" by (simp add: demo_records_def)
  moreover have "dataLen (written demo_records) < 2 ^ 32"
    by (simp add: demo_written dataLen_def recordHeaderLen_def)
  ultimately show ?thesis using run_roundtrip [OF w] w by blast
qed

text \<open>The saved matcher comes back.\<close>

lemma loadFSTData_saved:
  assumes "lookupFile t (dir st, fstName) = Some \<lparr>fdata = fstBytes data, fdisk = disk\<rparr>"
    and "length data < 2 ^ 32"
  shows "loadFSTData st (calm t) = (Inr data, calm t)"
proof -
  have loop: "sectionLoop (fstBytes data) secData preambleLen = Inr data"
    using sectionLoop_section [OF assms(2), of preambleBytes secData "[]" secData]
    by (simp add: fstBytes_def preambleBytes_def preambleLen_def)
  then have "sectionValue (fstBytes data) secData = Inr data"
    by (simp add: sectionValue_def fstBytes_def preambleBytes_def preambleLen_def nth_append)
  then show ?thesis by (simp add: loadFSTData_def readFile_def openFile_calm [OF assms(1)])
qed

text \<open>
  C35. The length fields of the format bound what can be stored: the field of a key has sixteen bits, and \<open>WriteRun\<close>
  writes the length modulo 64 KiB and reports no error. On a disk without faults, a run with one record of any length (below
  4 GiB, with texts of the validator below 4 GiB) is written and opens, and its first record has the mode, but only so many bytes of the key as the length modulo 64 KiB says; the
  remaining bytes of the key are what the next record is read from. So the record comes back whole
  exactly if its key is shorter than 64 KiB.
\<close>

theorem overlong_key:
  assumes "writable (runsDir st, runFile name) s" and "short v" and "3 + length (Key x) < 2 ^ 32"
  shows "\<exists>t r r'. WriteRun st name v [x] s = (None, t) \<and>
    OpenRun st name (calm t) = ((v, Some r, None), calm t) \<and>
    runNext r = (Inr (Some (Record (take (length (Key x) mod 2 ^ 16) (Key x)) (Mode x))), r') \<and>
    rest (runBr r') = drop (length (Key x) mod 2 ^ 16) (Key x) \<and>
    unat (runRemain r') = length (Key x) - length (Key x) mod 2 ^ 16 \<and>
    (Record (take (length (Key x) mod 2 ^ 16) (Key x)) (Mode x) = x \<longleftrightarrow> length (Key x) < 2 ^ 16)"
proof -
  obtain t where t: "WriteRun st name v [x] s = (None, t)" using WriteRun_live [OF assms(1)] by blast
  let ?k = "length (Key x)"
  let ?n = "?k - ?k mod 2 ^ 16"
  have w: "written [x] = [x]" by (simp add: written_def)
  have d: "dataLen [x] = 3 + ?k mod 2 ^ 16 + ?n" by (simp add: dataLen_def recordHeaderLen_def)
  have b: "recordsBytes [x] = recordBytes x @ []" by (simp add: recordsBytes_def)
  have "dataLen (written [x]) < 2 ^ 32" using assms(3) by (simp add: w dataLen_def recordHeaderLen_def)
  from OpenRun_written(1) [OF WriteRun_done [OF t] assms(2) this]
  have op: "OpenRun st name (calm t) =
      ((v, Some \<lparr>runBr = \<lparr>rest = recordBytes x @ [], atEnd = EOF\<rparr>, runRemain = word_of_nat (3 + ?k mod 2 ^ 16 + ?n)\<rparr>, None), calm t)"
    by (simp only: w b d)
  have lt: "3 + ?k mod 2 ^ 16 + ?n < 2 ^ 32" using assms(3) by simp
  note nxt = runNext_record [OF this, of "[]" EOF]
  have "unat (word_of_nat ?n :: u32) = ?n" by (rule unat_of_small) (use assms(3) in simp)
  moreover have "Record (take (?k mod 2 ^ 16) (Key x)) (Mode x) = x \<longleftrightarrow> ?k < 2 ^ 16"
  proof
    assume "Record (take (?k mod 2 ^ 16) (Key x)) (Mode x) = x"
    then have "length (take (?k mod 2 ^ 16) (Key x)) = ?k" by (metis Record.sel(1))
    then show "?k < 2 ^ 16" by simp
  qed simp
  ultimately show ?thesis using t op nxt by auto
qed

lemma overlong_key_witness:
  "\<exists>t r r'. WriteRun demo_store ''src'' noValidator [Record (replicate (2 ^ 16) CHR ''a'') 2] demo_fs = (None, t) \<and>
     OpenRun demo_store ''src'' (calm t) = ((noValidator, Some r, None), calm t) \<and>
     runNext r = (Inr (Some (Record [] 2)), r')"
proof -
  have "writable (runsDir demo_store, runFile ''src'') demo_fs" by (rule demo_writable) (simp add: demo_store_def)
  moreover have "short noValidator" by (simp add: short_def noValidator_def)
  ultimately show ?thesis
    using overlong_key [of demo_store "''src''" demo_fs noValidator "Record (replicate (2 ^ 16) CHR ''a'') 2"]
    by auto
qed

section \<open>Names\<close>

definition nameChar :: "char \<Rightarrow> bool" where
  "nameChar c \<longleftrightarrow>
     (let r = of_char c :: nat
      in (97 \<le> r \<and> r \<le> 122) \<or> (65 \<le> r \<and> r \<le> 90) \<or> (48 \<le> r \<and> r \<le> 57) \<or> r = 45 \<or> r = 46 \<or> r = 95)"

lemma nameChar_of: "(97 \<le> r \<and> r \<le> 122) \<or> (65 \<le> r \<and> r \<le> 90) \<or> (48 \<le> r \<and> r \<le> 57) \<or> r = 45 \<or> r = 95 \<Longrightarrow>
    nameChar (char_of (r :: nat))"
  by (auto simp: nameChar_def Let_def of_char_of)

lemma sanitize_chars: "c \<in> set (sanitize name) \<Longrightarrow> nameChar c"
proof -
  have "nameChar c" if "c \<in> set (sanitizeRune r)" for c r
    using that nameChar_of [of r] by (auto simp: sanitizeRune_def nameChar_def split: if_splits)
  moreover have "\<forall>c \<in> set ''src''. nameChar c" by (simp add: nameChar_def)
  ultimately show "c \<in> set (sanitize name) \<Longrightarrow> nameChar c"
    by (auto simp: sanitize_def Let_def split: if_splits)
qed

lemma hex_chars: "c \<in> set (hexEncode bs) \<Longrightarrow> nameChar c"
proof -
  have "nameChar (hexDigit n)" if "n < 16" for n
    using that by (auto simp: hexDigit_def intro!: nameChar_of)
  moreover have "of_char x div 16 < (16 :: nat)" for x :: char
    by (rule less_mult_imp_div_less) (simp add: nat_of_char_less_256)
  ultimately show "c \<in> set (hexEncode bs) \<Longrightarrow> nameChar c" by (auto simp: hexEncode_def)
qed

lemma runFile_chars: "set (runFile name) \<subseteq> {c. nameChar c}"
proof -
  have "\<forall>c \<in> set (''.'' @ runSuffix). nameChar c" by (simp add: nameChar_def runSuffix_def)
  then show ?thesis
    by (auto simp: runFile_def dest: sanitize_chars hex_chars)
qed

lemma runFile_suffix [simp]: "suffix runSuffix (runFile name)"
  by (auto simp: runFile_def suffix_def)

lemma run_not_temp: "suffix runSuffix n \<Longrightarrow> \<not> suffix tmpSuffix n"
  by (auto simp: suffix_def runSuffix_def tmpSuffix_def)

lemma runFile_eq:
  "runFile a = runFile b \<longleftrightarrow> sanitize a = sanitize b \<and> take 4 (sha256 a) = take 4 (sha256 b)"
proof -
  have len: "length (''.'' @ hexEncode (take 4 (sha256 m)) @ runSuffix) = 13" for m
    by (simp add: length_sha256 runSuffix_def)
  have "runFile a = runFile b \<longleftrightarrow> sanitize a = sanitize b \<and>
      ''.'' @ hexEncode (take 4 (sha256 a)) @ runSuffix = ''.'' @ hexEncode (take 4 (sha256 b)) @ runSuffix"
    unfolding runFile_def by (rule append_eq_append_conv) (simp only: len simp_thms)
  then show ?thesis by (simp add: hexEncode_inj)
qed

text \<open>
  The name of a source cannot lead outside the directory of the runs: the name of its file has
  only letters, digits, dashes, underscores and dots, so no slash, and ends in \<open>.run\<close>, so it is
  none of the names of a directory and never that of a temporary file. Two sources have the same
  file only if their names agree after cleaning and in the first four bytes of their hashes.
\<close>

lemma runFile_safe:
  "set (runFile name) \<subseteq> {c. nameChar c} \<and> CHR ''/'' \<notin> set (runFile name) \<and>
   suffix runSuffix (runFile name) \<and> \<not> suffix tmpSuffix (runFile name) \<and>
   runFile name \<notin> {[], ''.'', ''..''} \<and>
   (runFile name = runFile other \<longleftrightarrow> sanitize name = sanitize other \<and>
      take 4 (sha256 name) = take 4 (sha256 other))"
proof -
  have "\<not> nameChar (CHR ''/'')" by (simp add: nameChar_def)
  with runFile_chars have "CHR ''/'' \<notin> set (runFile name)" by blast
  moreover have "13 \<le> length (runFile name)"
    by (simp add: runFile_def length_sha256 runSuffix_def)
  then have "runFile name \<notin> {[], ''.'', ''..''}" by auto
  ultimately show ?thesis
    using runFile_chars [of name] run_not_temp [OF runFile_suffix] runFile_eq [of name other] by simp
qed

section \<open>Files that are removed\<close>

lemma removeFile_calm:
  "fsFaults s = [] \<Longrightarrow> lookupFile s p \<noteq> None \<Longrightarrow> removeFile p s = (None, dropFile p s)"
  by (simp add: removeFile_def sysCall_calm)

lemma readDir_calm:
  assumes "fsFaults s = []" and "d \<in> set (fsDirs s)"
  shows "\<exists>ns. readDir d s = (Inr ns, s) \<and> distinct ns \<and> set ns = {n. lookupFile s (d, n) \<noteq> None}"
proof -
  have "set (remdups (map (snd \<circ> fst) (filter (\<lambda>(p, f). fst p = d) fs))) = {n. map_of fs (d, n) \<noteq> None}"
    for fs :: "(path \<times> inode) list"
    by (force simp: map_of_eq_None_iff image_iff)
  with assms show ?thesis
    by (simp add: readDir_def sysCall_calm lookupFile_def del: set_remdups)
qed

lemma removeTempEntries_calm:
  assumes "fsFaults s = []" and "\<forall>n \<in> set ns. lookupFile s (d, n) \<noteq> None" and "distinct ns"
  shows "fsFaults (removeTempEntries d ns s) = [] \<and> fsDirs (removeTempEntries d ns s) = fsDirs s \<and>
    lookupFile (removeTempEntries d ns s) q =
      (if fst q = d \<and> snd q \<in> set ns \<and> suffix tmpSuffix (snd q) then None else lookupFile s q)"
  using assms
proof (induction ns arbitrary: s)
  case (Cons n ns)
  let ?s = "if suffix tmpSuffix n then snd (removeFile (d, n) s) else s"
  have s: "?s = (if suffix tmpSuffix n then dropFile (d, n) s else s)"
    using Cons.prems by (simp add: removeFile_calm)
  have "fsFaults ?s = []" "\<forall>n \<in> set ns. lookupFile ?s (d, n) \<noteq> None" "distinct ns" "fsDirs ?s = fsDirs s"
    using Cons.prems by (auto simp: s)
  with Cons.IH [of ?s] show ?case by (auto simp: s)
qed simp

lemma removeTemps_calm:
  assumes "fsFaults s = []" and "d \<in> set (fsDirs s)"
  shows "fsFaults (removeTemps d s) = [] \<and> fsDirs (removeTemps d s) = fsDirs s \<and>
    lookupFile (removeTemps d s) q =
      (if fst q = d \<and> suffix tmpSuffix (snd q) then None else lookupFile s q)"
proof -
  obtain ns where r: "readDir d s = (Inr ns, s)" and d: "distinct ns"
    and ns: "set ns = {n. lookupFile s (d, n) \<noteq> None}"
    using readDir_calm [OF assms] by blast
  have "\<forall>n \<in> set ns. lookupFile s (d, n) \<noteq> None" using ns by simp
  from removeTempEntries_calm [OF assms(1) this d, of q] ns show ?thesis
    by (cases q) (auto simp: removeTemps_def r)
qed

lemma ancestors_self [simp]: "d \<in> set (ancestors d)" "x \<noteq> [] \<Longrightarrow> x \<in> set (ancestors (join x n))"
proof -
  show "d \<in> set (ancestors d)" by (simp add: ancestors_def)
  assume "x \<noteq> []"
  then have "length x \<in> set (filter (\<lambda>i. 0 < i \<and> join x n ! i = CHR ''/'') [0..<length (join x n)])"
    by (simp add: join_def)
  moreover have "take (length x) (join x n) = x" by (simp add: join_def)
  ultimately show "x \<in> set (ancestors (join x n))" by (force simp: ancestors_def image_iff)
qed

lemma New_calm:
  assumes "fsFaults s = []" and "d \<noteq> []"
  shows "\<exists>t. New d s = (Inr \<lparr>dir = d, runsDir = join d runsSubdir\<rparr>, t) \<and>
    (\<forall>q. lookupFile t q =
       (if fst q \<in> {d, join d runsSubdir} \<and> suffix tmpSuffix (snd q) then None else lookupFile s q))"
proof -
  define s1 where "s1 = s\<lparr>fsDirs := remdups (ancestors (join d runsSubdir) @ fsDirs s)\<rparr>"
  have mk: "mkdirAll (join d runsSubdir) s = (None, s1)"
    using assms(1) by (simp add: mkdirAll_def sysCall_calm s1_def)
  have s1: "fsFaults s1 = []" "join d runsSubdir \<in> set (fsDirs s1)" "d \<in> set (fsDirs s1)"
    and files: "lookupFile s1 q = lookupFile s q" for q
    using assms by (simp_all add: s1_def)
  note r1 = removeTemps_calm [OF s1(1,2)]
  let ?s2 = "removeTemps (join d runsSubdir) s1"
  have s2: "fsFaults ?s2 = []" "d \<in> set (fsDirs ?s2)" using r1 s1(3) by auto
  note r2 = removeTemps_calm [OF s2]
  show ?thesis
    using r1 r2 by (auto simp: New_def mk Let_def cleanTemps_def files)
qed

text \<open>
  C34. A write that is interrupted at any call is forgotten or complete after a restart: opening the
  store again gives a directory in which the run is the old one or the new one, every other file is
  as it was before the write, and no temporary file is left.
\<close>

theorem store_recovers:
  assumes "WriteRun \<lparr>dir = d, runsDir = join d runsSubdir\<rparr> name v recs s = (e, t)"
    and "\<And>q. suffix tmpSuffix (snd q) \<Longrightarrow> lookupFile s q = None" and "d \<noteq> []"
  shows "\<exists>u. New d (calm t) = (Inr \<lparr>dir = d, runsDir = join d runsSubdir\<rparr>, u) \<and>
    (\<forall>q. q \<noteq> (join d runsSubdir, runFile name) \<longrightarrow> lookupFile u q = lookupFile s q) \<and>
    lookupFile u (join d runsSubdir, runFile name) \<in>
      {lookupFile s (join d runsSubdir, runFile name),
       Some \<lparr>fdata = runBytes v recs, fdisk = runBytes v recs\<rparr>}"
proof -
  let ?p = "(join d runsSubdir, runFile name)"
  have a: "atomically ?p (runBytes v recs) e s t"
    using assms(1) unfolding WriteRun_def by (simp add: writeAtomic_atomic [OF runBody_writes])
  obtain u where new: "New d (calm t) = (Inr \<lparr>dir = d, runsDir = join d runsSubdir\<rparr>, u)"
    and u: "lookupFile u q = (if fst q \<in> {d, join d runsSubdir} \<and> suffix tmpSuffix (snd q) then None
        else lookupFile t q)" for q
    using New_calm [of "calm t" d] assms(3) by auto
  have "lookupFile u q = lookupFile s q" if "q \<noteq> ?p" for q
  proof -
    show ?thesis using atomically_other [OF a that] u [of q] assms(2) [of q] by auto
  qed
  moreover have "lookupFile u ?p = lookupFile t ?p" using u [of ?p] run_not_temp [OF runFile_suffix] by simp
  with a have "lookupFile u ?p \<in> {lookupFile s ?p, Some \<lparr>fdata = runBytes v recs, fdisk = runBytes v recs\<rparr>}"
    by (simp add: atomically_def)
  ultimately show ?thesis using new by blast
qed

lemma store_recovers_witness:
  "\<exists>u. New ''/var/azg'' (calm (snd (WriteRun demo_store ''src'' noValidator demo_records demo_fs))) =
      (Inr demo_store, u) \<and>
     lookupFile u (runsDir demo_store, runFile ''src'') \<in>
       {None, Some \<lparr>fdata = runBytes noValidator demo_records, fdisk = runBytes noValidator demo_records\<rparr>}"
proof -
  let ?st = "\<lparr>dir = ''/var/azg'', runsDir = join ''/var/azg'' runsSubdir\<rparr>"
  have st: "demo_store = ?st" by (simp add: demo_store_def join_def runsSubdir_def)
  obtain e t where w: "WriteRun ?st ''src'' noValidator demo_records demo_fs = (e, t)" by (rule prod.exhaust)
  have none: "lookupFile demo_fs q = None" for q by (simp add: lookupFile_def demo_fs_def)
  from store_recovers [OF w] none show ?thesis by (auto simp: st w)
qed

section \<open>Pruning the runs\<close>

definition stale :: "bytes list \<Rightarrow> string \<Rightarrow> bool" where
  "stale names n \<longleftrightarrow> suffix tmpSuffix n \<or> (suffix runSuffix n \<and> n \<notin> runFile ` set names)"

lemma retainLoop_safe:
  "retainLoop (runFile ` set names) d ns m s = (m', t) \<Longrightarrow>
     lookupFile t q = lookupFile s q \<or> (lookupFile t q = None \<and> fst q = d \<and> stale names (snd q))"
proof (induction ns arbitrary: m s)
  case (Cons n ns)
  obtain e s1 where r: "removeFile (d, n) s = (e, s1)" by (rule prod.exhaust)
  have one: "lookupFile s1 q = lookupFile s q \<or> (lookupFile s1 q = None \<and> q = (d, n))"
    using r by (auto simp: removeFile_def sysCall_simps split: prod.splits option.splits if_splits)
  from Cons.prems r consider "retainLoop (runFile ` set names) d ns m s = (m', t)"
    | k where "stale names n" "retainLoop (runFile ` set names) d ns k s1 = (m', t)"
    by (auto simp: stale_def split: if_splits option.splits)
  then show ?case
  proof cases
    case 1 then show ?thesis by (rule Cons.IH)
  next
    case 2 with Cons.IH [OF 2(2)] one show ?thesis by auto
  qed
qed simp

lemma retainLoop_calm:
  assumes "fsFaults s = []" and "\<forall>n \<in> set ns. lookupFile s (d, n) \<noteq> None" and "distinct ns"
  shows "\<exists>t. retainLoop (runFile ` set names) d ns m s =
      (m + length (filter (\<lambda>n. stale names n \<and> suffix runSuffix n) ns), t) \<and>
    (\<forall>q. lookupFile t q = (if fst q = d \<and> snd q \<in> set ns \<and> stale names (snd q) then None else lookupFile s q))"
  using assms
proof (induction ns arbitrary: s m)
  case (Cons n ns)
  have r: "removeFile (d, n) s = (None, dropFile (d, n) s)"
    using Cons.prems by (simp add: removeFile_calm)
  show ?case
  proof (cases "stale names n")
    case True
    have "lookupFile (dropFile (d, n) s) (d, k) \<noteq> None" if "k \<in> set ns" for k
      using Cons.prems that by auto
    then have d: "fsFaults (dropFile (d, n) s) = []"
      "\<forall>k \<in> set ns. lookupFile (dropFile (d, n) s) (d, k) \<noteq> None" "distinct ns"
      using Cons.prems by simp_all
    from Cons.IH [OF d, of "if suffix tmpSuffix n then m else m + 1"] True r Cons.prems(3) show ?thesis
      by (auto simp: stale_def dest: run_not_temp)
  next
    case False
    from Cons.IH [of s m] Cons.prems False show ?thesis by (auto simp: stale_def)
  qed
qed simp

lemma Retain_safe:
  assumes "Retain st names s = (res, t)"
  shows "lookupFile t q = lookupFile s q \<or> (lookupFile t q = None \<and> fst q = runsDir st \<and> stale names (snd q))"
proof -
  obtain l s1 where rd: "readDir (runsDir st) s = (l, s1)" by (rule prod.exhaust)
  have s1: "lookupFile s1 q = lookupFile s q"
    using rd by (auto simp: readDir_def sysCall_simps split: prod.splits option.splits if_splits)
  show ?thesis
  proof (cases l)
    case (Inl err)
    with assms rd s1 show ?thesis by (simp add: Retain_def)
  next
    case (Inr ns)
    obtain m u where "retainLoop (runFile ` set names) (runsDir st) ns 0 s1 = (m, u)" by (rule prod.exhaust)
    with assms rd Inr s1 retainLoop_safe [OF this, of q] show ?thesis by (simp add: Retain_def)
  qed
qed

text \<open>
  \<open>Retain\<close> keeps the runs of the configured sources. Whatever calls fail, it removes only files of
  the runs directory that are temporary or runs of no configured source; without a fault it
  removes all of these, leaves every other file, and returns the number of runs it removed.
\<close>

lemma Retain_effect:
  assumes "Retain st names s = (res, t)"
  shows "(\<forall>q. lookupFile t q = lookupFile s q \<or>
        (lookupFile t q = None \<and> fst q = runsDir st \<and> stale names (snd q))) \<and>
    (fsFaults s = [] \<longrightarrow> runsDir st \<in> set (fsDirs s) \<longrightarrow>
       res = Inr (card {n. lookupFile s (runsDir st, n) \<noteq> None \<and> suffix runSuffix n \<and> n \<notin> runFile ` set names}) \<and>
       (\<forall>q. lookupFile t q = (if fst q = runsDir st \<and> stale names (snd q) then None else lookupFile s q)))"
proof (intro conjI allI impI)
  show "lookupFile t q = lookupFile s q \<or> (lookupFile t q = None \<and> fst q = runsDir st \<and> stale names (snd q))" for q
    by (rule Retain_safe [OF assms])
next
  assume calm: "fsFaults s = []" and dirs: "runsDir st \<in> set (fsDirs s)"
  obtain ns where rd: "readDir (runsDir st) s = (Inr ns, s)" and d: "distinct ns"
    and ns: "set ns = {n. lookupFile s (runsDir st, n) \<noteq> None}"
    using readDir_calm [OF calm dirs] by blast
  have "\<forall>n \<in> set ns. lookupFile s (runsDir st, n) \<noteq> None" using ns by simp
  from retainLoop_calm [OF calm this d, of names 0] obtain u where
    loop: "retainLoop (runFile ` set names) (runsDir st) ns 0 s =
        (length (filter (\<lambda>n. stale names n \<and> suffix runSuffix n) ns), u)"
    and u: "\<And>q. lookupFile u q =
        (if fst q = runsDir st \<and> snd q \<in> set ns \<and> stale names (snd q) then None else lookupFile s q)"
    by auto
  have t: "t = u" and res: "res = Inr (length (filter (\<lambda>n. stale names n \<and> suffix runSuffix n) ns))"
    using assms rd loop by (simp_all add: Retain_def)
  have "length (filter (\<lambda>n. stale names n \<and> suffix runSuffix n) ns) =
      card {n \<in> set ns. stale names n \<and> suffix runSuffix n}"
    using distinct_card [OF distinct_filter [OF d]] by simp
  also have "{n \<in> set ns. stale names n \<and> suffix runSuffix n} =
      {n. lookupFile s (runsDir st, n) \<noteq> None \<and> suffix runSuffix n \<and> n \<notin> runFile ` set names}"
    using ns by (auto simp: stale_def dest: run_not_temp)
  finally show "res = Inr (card {n. lookupFile s (runsDir st, n) \<noteq> None \<and> suffix runSuffix n \<and>
      n \<notin> runFile ` set names})"
    using res by simp
  show "lookupFile t q = (if fst q = runsDir st \<and> stale names (snd q) then None else lookupFile s q)" for q
    using u [of q] ns by (cases q) (auto simp: t)
qed

text \<open>On a disk with room the store works, and leaves room.\<close>

lemma WriteRun_roomy:
  assumes "roomy st (Suc n) s"
  shows "\<exists>t. WriteRun st name v recs s = (None, t) \<and> roomy st n t"
  unfolding WriteRun_def
  by (rule writeAtomic_roomy [OF assms _ _ runBody_writes sink_live.runBody_live])
    (simp_all add: run_not_temp)

lemma retainLoop_script:
  "retainLoop keep d ns m s = (m', t) \<Longrightarrow> fsFaults s = [] \<Longrightarrow>
     fsFaults t = [] \<and> fsDirs t = fsDirs s \<and> fsRandom t = fsRandom s"
proof (induction ns arbitrary: m s)
  case (Cons n ns)
  obtain e s1 where r: "removeFile (d, n) s = (e, s1)" by (rule prod.exhaust)
  then have "fsFaults s1 = [] \<and> fsDirs s1 = fsDirs s \<and> fsRandom s1 = fsRandom s"
    using Cons.prems(2) by (auto simp: removeFile_def sysCall_calm split: if_splits)
  with Cons.IH Cons.prems r show ?case by (auto split: if_splits option.splits)
qed simp

lemma Retain_roomy:
  assumes "roomy st n s" and "Retain st names s = (res, t)"
  shows "roomy st n t"
    and "res = Inr (card {n. lookupFile s (runsDir st, n) \<noteq> None \<and> suffix runSuffix n \<and> n \<notin> runFile ` set names})"
proof -
  have r: "fsFaults s = []" "runsDir st \<in> set (fsDirs s)" using assms(1) by (simp_all add: roomy_def)
  obtain ns where rd: "readDir (runsDir st) s = (Inr ns, s)" using readDir_calm [OF r] by blast
  obtain m u where l: "retainLoop (runFile ` set names) (runsDir st) ns 0 s = (m, u)" by (rule prod.exhaust)
  with assms(2) rd have t: "t = u" by (simp add: Retain_def)
  have "lookupFile t q = None" if "suffix tmpSuffix (snd q)" for q
    using Retain_safe [OF assms(2), of q] assms(1) that by (auto simp: roomy_def simp del: split_paired_All)
  with retainLoop_script [OF l r(1)] assms(1) show "roomy st n t"
    by (simp add: roomy_def t del: split_paired_All)
  show "res = Inr (card {n. lookupFile s (runsDir st, n) \<noteq> None \<and> suffix runSuffix n \<and> n \<notin> runFile ` set names})"
    using Retain_effect [OF assms(2)] r by blast
qed

definition demo_runs :: fs where
  "demo_runs = demo_fs\<lparr>fsFiles :=
     [((''/var/azg/runs'', ''old.run''), \<lparr>fdata = [], fdisk = []\<rparr>),
      ((''/var/azg/runs'', ''notes''), \<lparr>fdata = [], fdisk = []\<rparr>)]\<rparr>"

lemma Retain_effect_witness:
  "\<exists>t. Retain demo_store [] demo_runs = (Inr 1, t) \<and>
     lookupFile t (''/var/azg/runs'', ''old.run'') = None \<and>
     lookupFile t (''/var/azg/runs'', ''notes'') \<noteq> None"
proof -
  obtain res t where r: "Retain demo_store [] demo_runs = (res, t)" by (rule prod.exhaust)
  have l: "lookupFile demo_runs (''/var/azg/runs'', n) \<noteq> None \<longleftrightarrow> n = ''old.run'' \<or> n = ''notes''" for n
    by (auto simp: demo_runs_def lookupFile_def)
  have one: "P a \<Longrightarrow> \<not> P b \<Longrightarrow> {n. (n = a \<or> n = b) \<and> P n} = {a}" for P and a b :: string
    by auto
  have runs: "suffix runSuffix ''old.run''" "\<not> suffix runSuffix ''notes''"
    by (simp_all add: suffix_to_prefix runSuffix_def)
  have "{n. lookupFile demo_runs (runsDir demo_store, n) \<noteq> None \<and> suffix runSuffix n \<and>
      n \<notin> runFile ` set []} = {n. (n = ''old.run'' \<or> n = ''notes'') \<and> suffix runSuffix n}"
    by (simp only: demo_store_def store.simps l set_simps image_empty empty_iff not_False_eq_True simp_thms)
  also have "\<dots> = {''old.run''}" by (rule one [OF runs])
  finally have set: "{n. lookupFile demo_runs (runsDir demo_store, n) \<noteq> None \<and> suffix runSuffix n \<and>
      n \<notin> runFile ` set []} = {''old.run''}" .
  have "stale [] ''old.run''" "\<not> stale [] ''notes''"
    by (simp_all add: stale_def suffix_to_prefix runSuffix_def tmpSuffix_def)
  with Retain_effect [OF r] l r set show ?thesis
    by (simp add: demo_runs_def demo_fs_def demo_store_def)
qed

end
