(* ===== verification/Lookup_Spec.thy ===== *)
theory Lookup_Spec
  imports Labels
begin

text \<open>
  What a lookup means. A table of rules is a partial map from keys to a match mode
  (\<open>MatchMode\<close> of \<open>src/server/router/matcher/radix.go\<close>) and a value. A key that is in the table
  gets its value; any other key gets the value of the longest key with mode \<open>MatchPrefix\<close> that
  covers it. Both matchers of the router implement this.
\<close>

type_synonym matchMode = u8

definition MatchNone :: matchMode where "MatchNone = 0"
definition MatchExact :: matchMode where "MatchExact = 1"
definition MatchPrefix :: matchMode where "MatchPrefix = 2"

lemma MatchMode_distinct [simp]:
  "MatchNone \<noteq> MatchExact" "MatchNone \<noteq> MatchPrefix" "MatchExact \<noteq> MatchPrefix"
  "MatchExact \<noteq> MatchNone" "MatchPrefix \<noteq> MatchNone" "MatchPrefix \<noteq> MatchExact"
  by (simp_all add: MatchNone_def MatchExact_def MatchPrefix_def)

type_synonym 'a rules = "bytes \<rightharpoonup> matchMode \<times> 'a"

text \<open>The search for a covering rule, from the end of the key, executable.\<close>

fun cover :: "'a rules \<Rightarrow> bytes \<Rightarrow> nat \<Rightarrow> 'a option" where
  "cover E s 0 = None"
| "cover E s (Suc i) =
     (if s ! i = CHR ''.'' then
        (case E (take i s) of
           Some (m, v) \<Rightarrow> if m = MatchPrefix then Some v else cover E s i
         | None \<Rightarrow> cover E s i)
      else cover E s i)"

definition resolve :: "'a rules \<Rightarrow> bytes \<Rightarrow> 'a option" where
  "resolve E s = (case E s of Some (m, v) \<Rightarrow> Some v | None \<Rightarrow> cover E s (length s))"

lemma cover_Some:
  "cover E s n = Some v \<Longrightarrow> n \<le> length s \<Longrightarrow>
     \<exists>i < n. s ! i = CHR ''.'' \<and> E (take i s) = Some (MatchPrefix, v) \<and>
       (\<forall>j. i < j \<longrightarrow> j < n \<longrightarrow> s ! j = CHR ''.'' \<longrightarrow> (\<forall>w. E (take j s) \<noteq> Some (MatchPrefix, w)))"
proof (induction n)
  case (Suc n)
  show ?case
  proof (cases "s ! n = CHR ''.'' \<and> (\<exists>w. E (take n s) = Some (MatchPrefix, w))")
    case True
    with Suc.prems have "E (take n s) = Some (MatchPrefix, v)" by auto
    with True show ?thesis by (intro exI [of _ n]) simp
  next
    case False
    with Suc.prems have "cover E s n = Some v" by (auto split: if_splits option.splits)
    with Suc.IH Suc.prems(2) obtain i where i: "i < n" "s ! i = CHR ''.''" "E (take i s) = Some (MatchPrefix, v)"
      "\<forall>j. i < j \<longrightarrow> j < n \<longrightarrow> s ! j = CHR ''.'' \<longrightarrow> (\<forall>w. E (take j s) \<noteq> Some (MatchPrefix, w))"
      by auto
    with False show ?thesis by (intro exI [of _ i]) (auto simp: less_Suc_eq)
  qed
qed simp

lemma cover_None:
  "cover E s n = None \<Longrightarrow> i < n \<Longrightarrow> s ! i = CHR ''.'' \<Longrightarrow> E (take i s) \<noteq> Some (MatchPrefix, v)"
  by (induction n) (auto simp: less_Suc_eq split: if_splits option.splits)

lemma labelCovers_take:
  "i < length s \<Longrightarrow> labelCovers (take i s) s \<longleftrightarrow> s ! i = CHR ''.''"
  by (simp add: labelCovers_def take_is_prefix)

lemma labelCoversE:
  assumes "labelCovers k s"
  obtains i where "i < length s" and "k = take i s" and "s ! i = CHR ''.''"
  using assms by (auto simp: labelCovers_iff intro: that [of "length k"])

text \<open>The longest covering rule decides when no rule has the key itself.\<close>

lemma resolve_longest:
  assumes "resolve E s = Some v"
  shows "(\<exists>m. E s = Some (m, v)) \<or>
    E s = None \<and> (\<exists>k. labelCovers k s \<and> E k = Some (MatchPrefix, v) \<and>
      (\<forall>k' w. labelCovers k' s \<longrightarrow> E k' = Some (MatchPrefix, w) \<longrightarrow> length k' \<le> length k))"
proof (cases "E s")
  case None
  with assms have "cover E s (length s) = Some v" by (simp add: resolve_def)
  then obtain i where i: "i < length s" "s ! i = CHR ''.''" "E (take i s) = Some (MatchPrefix, v)"
    and max: "\<forall>j. i < j \<longrightarrow> j < length s \<longrightarrow> s ! j = CHR ''.'' \<longrightarrow> (\<forall>w. E (take j s) \<noteq> Some (MatchPrefix, w))"
    using cover_Some [of E s "length s" v] by blast
  have "length k' \<le> length (take i s)" if "labelCovers k' s" "E k' = Some (MatchPrefix, w)" for k' w
  proof -
    from that(1) obtain j where j: "j < length s" "k' = take j s" "s ! j = CHR ''.''" by (rule labelCoversE)
    with that(2) max have "\<not> i < j" by blast
    with j i show ?thesis by simp
  qed
  with i None show ?thesis using labelCovers_take [OF i(1)] by blast
next
  case (Some mv)
  with assms show ?thesis by (cases mv) (simp add: resolve_def)
qed

lemma resolve_none:
  assumes "resolve E s = None"
  shows "E s = None \<and> (\<forall>k v. labelCovers k s \<longrightarrow> E k \<noteq> Some (MatchPrefix, v))"
proof -
  from assms have n: "E s = None" "cover E s (length s) = None"
    by (auto simp: resolve_def split: option.splits)
  have "E k \<noteq> Some (MatchPrefix, v)" if "labelCovers k s" for k v
    using that by (rule labelCoversE) (use cover_None [OF n(2)] in auto)
  with n show ?thesis by blast
qed

text \<open>What the search reads of the table.\<close>

lemma cover_cong:
  "(\<And>i. i < n \<Longrightarrow> s ! i = CHR ''.'' \<Longrightarrow> E (take i s) = F (take i s)) \<Longrightarrow> cover E s n = cover F s n"
  by (induction n) (auto split: option.splits)

lemma cover_empty: "(\<And>i. i < n \<Longrightarrow> E (take i s) = None) \<Longrightarrow> cover E s n = None"
  by (induction n) auto

end
