(* ===== verification/Merge.thy ===== *)
theory Merge
  imports Lookup_Spec
begin

text \<open>
  The merge of the sources' runs, \<open>mergeResolve\<close> of \<open>src/server/router/matcher/matcher.go\<close>, and the
  actions of \<open>action.go\<close>. The position of a source in the list is its priority.
\<close>

section \<open>Actions\<close>

type_synonym action = u8

definition ActionBlackhole :: action where "ActionBlackhole = 0"
definition ActionRemap :: action where "ActionRemap = 1"
definition ActionPass :: action where "ActionPass = 2"
definition ActionNXDomain :: action where "ActionNXDomain = 3"

lemmas action_defs = ActionBlackhole_def ActionRemap_def ActionPass_def ActionNXDomain_def

definition actionString :: "action \<Rightarrow> string" where
  "actionString a =
     (if a = ActionRemap then ''remap''
      else if a = ActionBlackhole then ''blackhole''
      else if a = ActionPass then ''passthrough''
      else if a = ActionNXDomain then ''nxdomain''
      else ''unknown'')"

section \<open>Operations\<close>

text \<open>
  A source hands out its records one by one through the closure \<open>Next\<close>. The closure's state is
  the list of the records that are still to come.
\<close>

type_synonym run_record = "bytes \<times> matchMode"

record RunSource =
  Next :: "run_record list"
  Action :: action
  Prune :: bool

record cursor =
  ckey :: bytes
  cmode :: matchMode
  cok :: bool

text \<open>The closure \<open>advance\<close>: the new cursor of a source and the records that remain.\<close>

fun advance :: "run_record list \<Rightarrow> cursor \<times> run_record list" where
  "advance [] = (\<lparr>ckey = [], cmode = 0, cok = False\<rparr>, [])"
| "advance ((k, m) # rs) = (\<lparr>ckey = k, cmode = m, cok = True\<rparr>, rs)"

text \<open>The loop that looks for the smallest key; \<^const>\<open>None\<close> is the value \<open>-1\<close> of \<open>best\<close>.\<close>

fun bestLoop :: "cursor list \<Rightarrow> nat list \<Rightarrow> nat option \<Rightarrow> nat option" where
  "bestLoop curs [] best = best"
| "bestLoop curs (i # is) best =
     bestLoop curs is
       (if cok (curs ! i) \<and> (best = None \<or> ckey (curs ! i) < ckey (curs ! the best)) then Some i else best)"

fun winnerLoop :: "cursor list \<Rightarrow> bytes \<Rightarrow> nat list \<Rightarrow> nat option \<Rightarrow> nat option" where
  "winnerLoop curs key [] winner = winner"
| "winnerLoop curs key (i # is) winner =
     winnerLoop curs key is (if cok (curs ! i) \<and> ckey (curs ! i) = key then Some i else winner)"

text \<open>The stack \<open>prune\<close> of frames (a key and the index of its source) has its top at the head.\<close>

type_synonym frame = "bytes \<times> nat"

definition popFrames :: "bytes \<Rightarrow> frame list \<Rightarrow> frame list" where
  "popFrames key prune = dropWhile (\<lambda>f. \<not> prefix (fst f) key) prune"

definition isPruned :: "bytes \<Rightarrow> nat \<Rightarrow> frame list \<Rightarrow> bool" where
  "isPruned key winner prune \<longleftrightarrow> (\<exists>f \<in> set prune. snd f > winner \<and> labelCovers (fst f) key)"

definition advanceEqual :: "bytes \<Rightarrow> (cursor \<times> run_record list) list \<Rightarrow> (cursor \<times> run_record list) list" where
  "advanceEqual key cs = map (\<lambda>(c, rs). if cok c \<and> ckey c = key then advance rs else (c, rs)) cs"

text \<open>The loop of \<open>mergeResolve\<close>, on the cursors with the records behind them. \<open>emit\<close> works on a
  state \<^typ>\<open>'s\<close> of the caller.\<close>

definition remaining :: "(cursor \<times> run_record list) list \<Rightarrow> nat" where
  "remaining cs = sum_list (map (\<lambda>(c, rs). (if cok c then 1 else 0) + length rs) cs)"

lemma advance_less: "advance rs = (c, rs') \<Longrightarrow> (if cok c then 1 else 0) + length rs' \<le> length rs"
  by (cases rs rule: advance.cases) auto

lemma remaining_Cons [simp]: "remaining ((c, rs) # cs) = (if cok c then 1 else 0) + length rs + remaining cs"
  by (simp add: remaining_def)

lemma advanceEqual_Cons:
  "advanceEqual key ((c, rs) # cs) =
     (if cok c \<and> ckey c = key then advance rs else (c, rs)) # advanceEqual key cs"
  by (simp add: advanceEqual_def)

lemma advanceEqual_le: "remaining (advanceEqual key cs) \<le> remaining cs"
proof (induction cs)
  case (Cons x cs)
  obtain c rs where x: "x = (c, rs)" by force
  obtain c' rs' where "advance rs = (c', rs')" by force
  with Cons advance_less [OF this] show ?case by (auto simp: x advanceEqual_Cons)
qed (simp add: advanceEqual_def)

lemma advanceEqual_less:
  "i < length cs \<Longrightarrow> cok (fst (cs ! i)) \<Longrightarrow> ckey (fst (cs ! i)) = key \<Longrightarrow>
     remaining (advanceEqual key cs) < remaining cs"
proof (induction cs arbitrary: i)
  case (Cons x cs)
  obtain c rs where x: "x = (c, rs)" by force
  obtain c' rs' where a: "advance rs = (c', rs')" by force
  show ?case
  proof (cases i)
    case 0
    with Cons.prems x have "cok c" "ckey c = key" by simp_all
    with advance_less [OF a] advanceEqual_le [of key cs] show ?thesis
      by (simp add: x a advanceEqual_Cons)
  next
    case (Suc j)
    with Cons.IH [of j] Cons.prems have "remaining (advanceEqual key cs) < remaining cs" by simp
    with advance_less [OF a] show ?thesis by (simp add: x a advanceEqual_Cons)
  qed
qed simp

lemma bestLoop_cok:
  "bestLoop curs is best = Some b \<Longrightarrow> (\<forall>c. best = Some c \<longrightarrow> cok (curs ! c)) \<Longrightarrow>
     cok (curs ! b) \<and> (b \<in> set is \<or> best = Some b)"
proof (induction "is" arbitrary: best)
  case (Cons i "is")
  define best' where
    "best' = (if cok (curs ! i) \<and> (best = None \<or> ckey (curs ! i) < ckey (curs ! the best)) then Some i else best)"
  have "bestLoop curs is best' = Some b" using Cons.prems(1) by (simp add: best'_def)
  moreover have "\<forall>c. best' = Some c \<longrightarrow> cok (curs ! c)" using Cons.prems(2) by (simp add: best'_def)
  ultimately have "cok (curs ! b) \<and> (b \<in> set is \<or> best' = Some b)" by (rule Cons.IH)
  then show ?case by (auto simp: best'_def split: if_splits)
qed simp

function mergeLoop ::
  "RunSource list \<Rightarrow> (bytes \<Rightarrow> action \<Rightarrow> matchMode \<Rightarrow> 's \<Rightarrow> error option \<times> 's) \<Rightarrow>
   (cursor \<times> run_record list) list \<Rightarrow> frame list \<Rightarrow> nat \<Rightarrow> 's \<Rightarrow> nat \<times> error option \<times> 's"
where
  "mergeLoop srcs emit cs prune n s =
     (let curs = map fst cs
      in case bestLoop curs [0..<length curs] None of
        None \<Rightarrow> (n, None, s)
      | Some best \<Rightarrow>
          let key = ckey (curs ! best)
          in case winnerLoop curs key [0..<length curs] None of
            None \<Rightarrow> (n, Some (Panic ''index out of range''), s)
          | Some winner \<Rightarrow>
              let mode = cmode (curs ! winner);
                  prune = popFrames key prune;
                  pruned = isPruned key winner prune;
                  prune' = (if Prune (srcs ! winner) then (key, winner) # prune else prune)
              in if pruned then mergeLoop srcs emit (advanceEqual key cs) prune' n s
                 else case emit key (Action (srcs ! winner)) mode s of
                   (Some err, s) \<Rightarrow> (n, Some err, s)
                 | (None, s) \<Rightarrow> mergeLoop srcs emit (advanceEqual key cs) prune' (n + 1) s)"
  by pat_completeness auto
termination
proof (relation "measure (\<lambda>(srcs, emit, cs, prune, n, s). remaining cs)", goal_cases)
  case (2 srcs emit cs prune n s curs best)
  with bestLoop_cok [of curs "[0..<length curs]" None best] show ?case
    by (auto intro!: advanceEqual_less [of best])
next
  case (3 srcs emit cs prune n s curs best)
  with bestLoop_cok [of curs "[0..<length curs]" None best] show ?case
    by (auto intro!: advanceEqual_less [of best])
qed simp

declare mergeLoop.simps [simp del]

definition mergeResolve ::
  "RunSource list \<Rightarrow> (bytes \<Rightarrow> action \<Rightarrow> matchMode \<Rightarrow> 's \<Rightarrow> error option \<times> 's) \<Rightarrow> 's \<Rightarrow>
   nat \<times> error option \<times> 's"
where
  "mergeResolve srcs emit s = mergeLoop srcs emit (map (advance \<circ> Next) srcs) [] 0 s"

section \<open>What the merge means\<close>

text \<open>
  The sources' rules one by one: the winner for a key is the last source that has it. A key is
  dropped when a parent key is won by a pruning source of higher priority.
\<close>

definition keys_of :: "RunSource \<Rightarrow> bytes set" where
  "keys_of src = fst ` set (Next src)"

definition all_keys :: "RunSource list \<Rightarrow> bytes set" where
  "all_keys srcs = (\<Union>src \<in> set srcs. keys_of src)"

definition winner_of :: "RunSource list \<Rightarrow> bytes \<Rightarrow> nat" where
  "winner_of srcs k = last (filter (\<lambda>i. k \<in> keys_of (srcs ! i)) [0..<length srcs])"

definition dropped :: "RunSource list \<Rightarrow> bytes \<Rightarrow> bool" where
  "dropped srcs k \<longleftrightarrow> (\<exists>p \<in> all_keys srcs. labelCovers p k \<and>
     Prune (srcs ! winner_of srcs p) \<and> winner_of srcs p > winner_of srcs k)"

definition resolved_rule :: "RunSource list \<Rightarrow> bytes \<Rightarrow> bytes \<times> action \<times> matchMode" where
  "resolved_rule srcs k =
     (let w = winner_of srcs k in (k, Action (srcs ! w), the (map_of (Next (srcs ! w)) k)))"

definition resolved :: "RunSource list \<Rightarrow> (bytes \<times> action \<times> matchMode) list" where
  "resolved srcs = map (resolved_rule srcs)
     (filter (\<lambda>k. \<not> dropped srcs k) (sorted_list_of_set (all_keys srcs)))"

text \<open>Emitting a list of rules up to the first error.\<close>

fun emitAll ::
  "(bytes \<Rightarrow> action \<Rightarrow> matchMode \<Rightarrow> 's \<Rightarrow> error option \<times> 's) \<Rightarrow> (bytes \<times> action \<times> matchMode) list \<Rightarrow>
   nat \<Rightarrow> 's \<Rightarrow> nat \<times> error option \<times> 's"
where
  "emitAll emit [] n s = (n, None, s)"
| "emitAll emit ((k, a, m) # rs) n s =
     (case emit k a m s of
        (Some err, s) \<Rightarrow> (n, Some err, s)
      | (None, s) \<Rightarrow> emitAll emit rs (n + 1) s)"

text \<open>A source in order: its keys ascend strictly, as in the runs that the store writes.\<close>

definition ascending :: "RunSource \<Rightarrow> bool" where
  "ascending src \<longleftrightarrow> sorted_wrt (<) (map fst (Next src))"

section \<open>The cursors\<close>

text \<open>What is left of a source when the keys \<open>K\<close> are still to come.\<close>

definition left :: "bytes set \<Rightarrow> RunSource \<Rightarrow> run_record list" where
  "left K src = filter (\<lambda>x. fst x \<in> K) (Next src)"

lemma advance_simps [simp]:
  "cok (fst (advance l)) \<longleftrightarrow> l \<noteq> []"
  "l \<noteq> [] \<Longrightarrow> ckey (fst (advance l)) = fst (hd l)"
  "l \<noteq> [] \<Longrightarrow> cmode (fst (advance l)) = snd (hd l)"
  by (cases l rule: advance.cases; simp)+

lemma bestLoop_None: "bestLoop curs is best = None \<Longrightarrow> best = None \<and> (\<forall>i \<in> set is. \<not> cok (curs ! i))"
  by (induction "is" arbitrary: best) (auto split: if_splits)

lemma bestLoop_min:
  "bestLoop curs is best = Some b \<Longrightarrow>
     (\<forall>i \<in> set is. cok (curs ! i) \<longrightarrow> ckey (curs ! b) \<le> ckey (curs ! i)) \<and>
     (\<forall>i. best = Some i \<longrightarrow> ckey (curs ! b) \<le> ckey (curs ! i))"
proof (induction "is" arbitrary: best)
  case (Cons i "is")
  define best' where
    "best' = (if cok (curs ! i) \<and> (best = None \<or> ckey (curs ! i) < ckey (curs ! the best)) then Some i else best)"
  have "bestLoop curs is best' = Some b" using Cons.prems by (simp add: best'_def)
  note ih = Cons.IH [OF this]
  have new: "ckey (curs ! b) \<le> ckey (curs ! i)" if "cok (curs ! i)"
  proof (cases "best' = Some i")
    case False
    with that obtain j where j: "best' = Some j" "ckey (curs ! j) \<le> ckey (curs ! i)"
      by (cases best) (auto simp: best'_def split: if_splits)
    then have "ckey (curs ! b) \<le> ckey (curs ! j)" using ih by blast
    then show ?thesis using j(2) by (rule order.trans)
  qed (use ih in blast)
  have old: "ckey (curs ! b) \<le> ckey (curs ! j)" if "best = Some j" for j
  proof (cases "best' = Some j")
    case False
    with that have "best' = Some i" "ckey (curs ! i) < ckey (curs ! j)"
      by (auto simp: best'_def split: if_splits)
    then have "ckey (curs ! b) \<le> ckey (curs ! i)" using ih by blast
    with \<open>ckey (curs ! i) < ckey (curs ! j)\<close> show ?thesis by simp
  qed (use ih in blast)
  show ?case using ih new old by auto
qed simp

lemma winnerLoop_last:
  "winnerLoop curs key is w =
     (let fs = filter (\<lambda>i. cok (curs ! i) \<and> ckey (curs ! i) = key) is
      in if fs = [] then w else Some (last fs))"
  by (induction "is" arbitrary: w) (simp_all add: Let_def)

lemma left_sorted: "ascending src \<Longrightarrow> sorted_wrt (<) (map fst (left K src))"
  by (simp add: ascending_def left_def sorted_wrt_map sorted_wrt_filter)

lemma hd_left_le:
  assumes "ascending src" and "k \<in> K" and "k \<in> keys_of src"
  shows "left K src \<noteq> [] \<and> fst (hd (left K src)) \<le> k"
proof -
  from assms(2,3) obtain m where m: "(k, m) \<in> set (left K src)" by (auto simp: left_def keys_of_def)
  then obtain x xs where l: "left K src = x # xs" by (cases "left K src") auto
  with m left_sorted [OF assms(1), of K] show ?thesis by auto
qed

lemma hd_left_in: "left K src \<noteq> [] \<Longrightarrow> fst (hd (left K src)) \<in> K \<inter> keys_of src"
proof -
  assume "left K src \<noteq> []"
  then have "hd (left K src) \<in> set (left K src)" by simp
  then show ?thesis by (auto simp: left_def keys_of_def)
qed

text \<open>The smallest key that is left stands at the front of every source that has it.\<close>

lemma left_front:
  assumes "ascending src" and "k \<in> K" and "\<forall>k' \<in> K. k \<le> k'"
  shows "left K src \<noteq> [] \<and> fst (hd (left K src)) = k \<longleftrightarrow> k \<in> keys_of src"
  using hd_left_le [OF assms(1,2)] hd_left_in [of K src] assms(3) by force

lemma left_step:
  assumes "ascending src" and "k \<in> K" and "\<forall>k' \<in> K. k \<le> k'"
  shows "left (K - {k}) src =
    (if left K src \<noteq> [] \<and> fst (hd (left K src)) = k then tl (left K src) else left K src)"
proof -
  have l: "left (K - {k}) src = filter (\<lambda>x. fst x \<noteq> k) (left K src)"
    by (auto simp: left_def intro: filter_cong)
  show ?thesis
  proof (cases "k \<in> keys_of src")
    case True
    with left_front [OF assms] obtain x xs where x: "left K src = x # xs" "fst x = k"
      by (cases "left K src") auto
    with left_sorted [OF assms(1), of K] have "\<forall>y \<in> set xs. fst y \<noteq> k" by auto
    with x l show ?thesis by simp
  next
    case False
    then have "\<forall>y \<in> set (left K src). fst y \<noteq> k" by (force simp: left_def keys_of_def)
    with False left_front [OF assms] l show ?thesis by auto
  qed
qed

definition cursors :: "bytes set \<Rightarrow> RunSource list \<Rightarrow> (cursor \<times> run_record list) list" where
  "cursors K srcs = map (advance \<circ> left K) srcs"

lemma cursors_nth: "i < length srcs \<Longrightarrow> map fst (cursors K srcs) ! i = fst (advance (left K (srcs ! i)))"
  by (simp add: cursors_def)

lemma length_cursors [simp]: "length (cursors K srcs) = length srcs"
  by (simp add: cursors_def)

lemma cursors_step:
  assumes "\<forall>src \<in> set srcs. ascending src" and "k \<in> K" and "\<forall>k' \<in> K. k \<le> k'"
  shows "advanceEqual k (cursors K srcs) = cursors (K - {k}) srcs"
proof -
  have "(case advance (left K src) of (c, rs) \<Rightarrow> if cok c \<and> ckey c = k then advance rs else (c, rs)) =
      advance (left (K - {k}) src)" if "src \<in> set srcs" for src
    using left_step [OF bspec [OF assms(1) that] assms(2,3)]
    by (cases "left K src" rule: advance.cases) auto
  then show ?thesis by (simp add: advanceEqual_def cursors_def)
qed

lemma best_is_min:
  assumes "\<forall>src \<in> set srcs. ascending src" and "k \<in> K" and "\<forall>k' \<in> K. k \<le> k'" and "k \<in> all_keys srcs"
  obtains b where "bestLoop (map fst (cursors K srcs)) [0..<length srcs] None = Some b"
    and "ckey (map fst (cursors K srcs) ! b) = k"
proof -
  let ?c = "map fst (cursors K srcs)"
  from assms(4) obtain i where i: "i < length srcs" "k \<in> keys_of (srcs ! i)"
    by (auto simp: all_keys_def in_set_conv_nth)
  have li: "left K (srcs ! i) \<noteq> []" "fst (hd (left K (srcs ! i))) = k"
    using left_front [of "srcs ! i" k K] assms(1-3) i by simp_all
  then have "cok (?c ! i)" "ckey (?c ! i) = k" using i by (simp_all add: cursors_nth del: nth_map)
  then obtain b where b: "bestLoop ?c [0..<length srcs] None = Some b"
    using bestLoop_None [of ?c "[0..<length srcs]" None] i by (cases "bestLoop ?c [0..<length srcs] None") auto
  from bestLoop_min [OF b] i \<open>cok (?c ! i)\<close> \<open>ckey (?c ! i) = k\<close> have le: "ckey (?c ! b) \<le> k" by auto
  from bestLoop_cok [OF b] have bs: "b < length srcs" "cok (?c ! b)" by auto
  then have "left K (srcs ! b) \<noteq> []" by (simp add: cursors_nth del: nth_map)
  then have "ckey (?c ! b) \<in> K" using hd_left_in [of K "srcs ! b"] bs by (simp add: cursors_nth del: nth_map)
  with le assms(3) have "ckey (?c ! b) = k" by (simp add: order.antisym)
  with b that show ?thesis by blast
qed

lemma winner_is_last:
  assumes "\<forall>src \<in> set srcs. ascending src" and "k \<in> K" and "\<forall>k' \<in> K. k \<le> k'" and "k \<in> all_keys srcs"
  shows "winnerLoop (map fst (cursors K srcs)) k [0..<length srcs] None = Some (winner_of srcs k)"
    and "winner_of srcs k < length srcs" and "k \<in> keys_of (srcs ! winner_of srcs k)"
    and "cmode (map fst (cursors K srcs) ! winner_of srcs k) = the (map_of (Next (srcs ! winner_of srcs k)) k)"
proof -
  let ?c = "map fst (cursors K srcs)" and ?fs = "filter (\<lambda>i. k \<in> keys_of (srcs ! i)) [0..<length srcs]"
  have asc: "ascending (srcs ! i)" if "i < length srcs" for i using assms(1) that by simp
  have "cok (?c ! i) \<and> ckey (?c ! i) = k \<longleftrightarrow> k \<in> keys_of (srcs ! i)" if "i < length srcs" for i
    using left_front [OF asc [OF that] assms(2,3)] that by (auto simp: cursors_nth simp del: nth_map)
  then have fs: "filter (\<lambda>i. cok (?c ! i) \<and> ckey (?c ! i) = k) [0..<length srcs] = ?fs"
    by (intro filter_cong) auto
  from assms(4) obtain i where "i < length srcs" "k \<in> keys_of (srcs ! i)"
    by (auto simp: all_keys_def in_set_conv_nth)
  then have "i \<in> set ?fs" by simp
  then have ne: "?fs \<noteq> []" by force
  show "winnerLoop ?c k [0..<length srcs] None = Some (winner_of srcs k)"
    unfolding winnerLoop_last fs using ne by (simp add: winner_of_def Let_def)
  have "winner_of srcs k \<in> set ?fs" unfolding winner_of_def using ne by (rule last_in_set)
  then show w: "winner_of srcs k < length srcs" and kw: "k \<in> keys_of (srcs ! winner_of srcs k)" by simp_all
  let ?src = "srcs ! winner_of srcs k"
  have f: "left K ?src \<noteq> []" "fst (hd (left K ?src)) = k"
    using left_front [OF asc [OF w] assms(2,3)] kw by simp_all
  then have "hd (left K ?src) \<in> set (Next ?src)" using hd_in_set [of "left K ?src"] by (auto simp: left_def)
  then have "(k, snd (hd (left K ?src))) \<in> set (Next ?src)" using f(2) by (metis prod.collapse)
  moreover have "distinct (map fst (Next ?src))"
    using asc [OF w] by (simp add: ascending_def strict_sorted_iff)
  ultimately have "map_of (Next ?src) k = Some (snd (hd (left K ?src)))" by simp
  then show "cmode (?c ! winner_of srcs k) = the (map_of (Next ?src) k)"
    using w f(1) by (simp add: cursors_nth del: nth_map)
qed

section \<open>The stack of pruning keys\<close>

text \<open>
  When the keys \<open>K\<close> are still to come, the stack is a chain of prefixes, longest on top, of
  pruning keys that were seen, and it has each of them that is a prefix of a key to come.
\<close>

definition pruning :: "RunSource list \<Rightarrow> bytes \<Rightarrow> bool" where
  "pruning srcs p \<longleftrightarrow> Prune (srcs ! winner_of srcs p)"

definition stack_ok :: "RunSource list \<Rightarrow> bytes set \<Rightarrow> frame list \<Rightarrow> bool" where
  "stack_ok srcs K st \<longleftrightarrow>
     sorted_wrt (\<lambda>f g. prefix (fst g) (fst f)) st \<and>
     (\<forall>f \<in> set st. fst f \<in> all_keys srcs - K \<and> pruning srcs (fst f) \<and> snd f = winner_of srcs (fst f)) \<and>
     (\<forall>p \<in> all_keys srcs - K. pruning srcs p \<longrightarrow> (\<exists>k \<in> K. prefix p k) \<longrightarrow> (p, winner_of srcs p) \<in> set st)"

lemma popFrames_filter:
  "sorted_wrt (\<lambda>f g. prefix (fst g) (fst f)) st \<Longrightarrow> popFrames key st = filter (\<lambda>f. prefix (fst f) key) st"
proof (induction st)
  case (Cons f st)
  show ?case
  proof (cases "prefix (fst f) key")
    case True
    with Cons.prems have "\<forall>g \<in> set st. prefix (fst g) key" by (auto intro: prefix_order.trans)
    with True show ?thesis by (simp add: popFrames_def)
  next
    case False
    with Cons show ?thesis by (simp add: popFrames_def)
  qed
qed (simp add: popFrames_def)

lemma isPruned_dropped:
  assumes "stack_ok srcs K st" and "k \<in> K" and "\<forall>k' \<in> K. k \<le> k'"
  shows "isPruned k (winner_of srcs k) (popFrames k st) \<longleftrightarrow> dropped srcs k"
proof -
  have pop: "popFrames k st = filter (\<lambda>f. prefix (fst f) k) st"
    using assms(1) by (intro popFrames_filter) (simp add: stack_ok_def)
  show ?thesis
  proof
    assume "isPruned k (winner_of srcs k) (popFrames k st)"
    then show "dropped srcs k"
      using assms(1) unfolding pop by (fastforce simp: isPruned_def dropped_def stack_ok_def pruning_def)
  next
    assume "dropped srcs k"
    then obtain p where p: "p \<in> all_keys srcs" "labelCovers p k" "pruning srcs p" "winner_of srcs k < winner_of srcs p"
      by (auto simp: dropped_def pruning_def)
    then have "prefix p k" "p \<noteq> k" by (auto simp: labelCovers_def)
    then have "p < k" using prefix_imp_le by (metis order.not_eq_order_implies_strict)
    then have "p \<notin> K" using assms(3) by auto
    with assms(1,2) p \<open>prefix p k\<close> have "(p, winner_of srcs p) \<in> set st" by (auto simp: stack_ok_def)
    with p \<open>prefix p k\<close> show "isPruned k (winner_of srcs k) (popFrames k st)"
      unfolding pop isPruned_def by (intro bexI [of _ "(p, winner_of srcs p)"]) simp_all
  qed
qed

lemma stack_step:
  assumes "stack_ok srcs K st" and "k \<in> K" and "\<forall>k' \<in> K. k \<le> k'" and "k \<in> all_keys srcs"
    and "\<forall>p \<in> all_keys srcs - K. p < k"
  shows "stack_ok srcs (K - {k})
    (if Prune (srcs ! winner_of srcs k) then (k, winner_of srcs k) # popFrames k st else popFrames k st)"
proof -
  let ?st = "if Prune (srcs ! winner_of srcs k) then (k, winner_of srcs k) # popFrames k st else popFrames k st"
  have chain: "sorted_wrt (\<lambda>f g. prefix (fst g) (fst f)) st" using assms(1) by (simp add: stack_ok_def)
  have pop: "popFrames k st = filter (\<lambda>f. prefix (fst f) k) st" by (rule popFrames_filter [OF chain])
  have "sorted_wrt (\<lambda>f g. prefix (fst g) (fst f)) ?st"
    using chain by (auto simp: pop sorted_wrt_filter)
  moreover have "\<forall>f \<in> set ?st. fst f \<in> all_keys srcs - (K - {k}) \<and> pruning srcs (fst f) \<and> snd f = winner_of srcs (fst f)"
    using assms(1,4) by (auto simp: stack_ok_def pop pruning_def)
  moreover have "(p, winner_of srcs p) \<in> set ?st"
    if p: "p \<in> all_keys srcs - (K - {k})" "pruning srcs p" and k': "k' \<in> K - {k}" "prefix p k'" for p k'
  proof (cases "p = k")
    case True
    with p show ?thesis by (simp add: pruning_def)
  next
    case False
    with p have old: "p \<in> all_keys srcs - K" by simp
    have "p \<le> k" by (rule less_imp_le [OF bspec [OF assms(5) old]])
    moreover have "k \<le> k'" using assms(3) k' by simp
    ultimately have "prefix p k" using k'(2) by (rule prefix_interval)
    moreover have "(p, winner_of srcs p) \<in> set st"
      using assms(1) old p(2) k' by (auto simp: stack_ok_def)
    ultimately show ?thesis by (simp add: pop)
  qed
  ultimately show ?thesis unfolding stack_ok_def by blast
qed

section \<open>The merge computes the resolved rules\<close>

lemma mergeLoop_step:
  assumes "bestLoop (map fst cs) [0..<length cs] None = Some b" and "ckey (map fst cs ! b) = k"
    and "winnerLoop (map fst cs) k [0..<length cs] None = Some w"
  shows "mergeLoop srcs emit cs st n s =
    (let st' = popFrames k st;
         st'' = (if Prune (srcs ! w) then (k, w) # st' else st')
     in if isPruned k w st' then mergeLoop srcs emit (advanceEqual k cs) st'' n s
        else case emit k (Action (srcs ! w)) (cmode (map fst cs ! w)) s of
          (Some err, s) \<Rightarrow> (n, Some err, s)
        | (None, s) \<Rightarrow> mergeLoop srcs emit (advanceEqual k cs) st'' (n + 1) s)"
  using assms by (subst mergeLoop.simps) (simp add: Let_def del: nth_map)

lemma mergeLoop_resolved:
  assumes asc: "\<forall>src \<in> set srcs. ascending src"
  shows "sorted_wrt (<) ks \<Longrightarrow> set ks \<subseteq> all_keys srcs \<Longrightarrow>
    (\<forall>p \<in> all_keys srcs - set ks. \<forall>k \<in> set ks. p < k) \<Longrightarrow> stack_ok srcs (set ks) st \<Longrightarrow>
    mergeLoop srcs emit (cursors (set ks) srcs) st n s =
      emitAll emit (map (resolved_rule srcs) (filter (\<lambda>k. \<not> dropped srcs k) ks)) n s"
proof (induction ks arbitrary: st n s)
  case Nil
  have "bestLoop (map fst (cursors {} srcs)) [0..<length srcs] None = None"
  proof (cases "bestLoop (map fst (cursors {} srcs)) [0..<length srcs] None")
    case (Some b)
    with bestLoop_cok [OF Some] show ?thesis by (auto simp: cursors_def left_def)
  qed
  then show ?case by (subst mergeLoop.simps) simp
next
  case (Cons k ks)
  let ?K = "set (k # ks)" and ?w = "winner_of srcs k"
  have min: "\<forall>k' \<in> ?K. k \<le> k'" using Cons.prems(1) by auto
  have k: "k \<in> ?K" "k \<in> all_keys srcs" using Cons.prems(2) by simp_all
  have K: "?K - {k} = set ks" using Cons.prems(1) by auto
  obtain b where b: "bestLoop (map fst (cursors ?K srcs)) [0..<length srcs] None = Some b"
    "ckey (map fst (cursors ?K srcs) ! b) = k" by (rule best_is_min [OF asc k(1) min k(2)])
  note w = winner_is_last [OF asc k(1) min k(2)]
  note step = mergeLoop_step [of "cursors ?K srcs" b k ?w srcs emit st n s, unfolded length_cursors, OF b w(1)]
  have adv: "advanceEqual k (cursors ?K srcs) = cursors (set ks) srcs"
    using cursors_step [OF asc k(1) min] K by simp
  let ?st = "if Prune (srcs ! ?w) then (k, ?w) # popFrames k st else popFrames k st"
  have "\<forall>p \<in> all_keys srcs - ?K. p < k" using Cons.prems(3) by simp
  from stack_step [OF Cons.prems(4) k(1) min k(2) this] have ok: "stack_ok srcs (set ks) ?st"
    by (simp only: K)
  have "\<forall>p \<in> all_keys srcs - set ks. \<forall>k' \<in> set ks. p < k'"
    using Cons.prems(1,3) by auto
  then have ih: "mergeLoop srcs emit (cursors (set ks) srcs) ?st n s =
      emitAll emit (map (resolved_rule srcs) (filter (\<lambda>k. \<not> dropped srcs k) ks)) n s" for n s
    using Cons.prems(1,2) ok by (intro Cons.IH) simp_all
  have d: "isPruned k ?w (popFrames k st) \<longleftrightarrow> dropped srcs k"
    by (rule isPruned_dropped [OF Cons.prems(4) k(1) min])
  show ?case
  proof (cases "dropped srcs k")
    case True
    then show ?thesis unfolding step adv using d ih by (simp add: Let_def)
  next
    case False
    have r: "resolved_rule srcs k = (k, Action (srcs ! ?w), the (map_of (Next (srcs ! ?w)) k))"
      by (simp add: resolved_rule_def Let_def)
    obtain e s' where e: "emit k (Action (srcs ! ?w)) (the (map_of (Next (srcs ! ?w)) k)) s = (e, s')"
      by force
    from False show ?thesis unfolding step adv w(4) using d
      by (cases e) (simp_all only: Let_def r e ih if_False filter.simps if_True list.map emitAll.simps
          prod.case option.case not_False_eq_True)
  qed
qed

lemma finite_all_keys [simp]: "finite (all_keys srcs)"
  by (simp add: all_keys_def keys_of_def)

lemma mergeResolve_resolved:
  assumes "\<forall>src \<in> set srcs. ascending src"
  shows "mergeResolve srcs emit s = emitAll emit (resolved srcs) 0 s"
proof -
  let ?ks = "sorted_list_of_set (all_keys srcs)"
  have "left (all_keys srcs) src = Next src" if "src \<in> set srcs" for src
    using that by (auto simp: left_def all_keys_def keys_of_def intro!: filter_True)
  then have "cursors (set ?ks) srcs = map (advance \<circ> Next) srcs" by (simp add: cursors_def)
  moreover have "mergeLoop srcs emit (cursors (set ?ks) srcs) [] 0 s =
      emitAll emit (map (resolved_rule srcs) (filter (\<lambda>k. \<not> dropped srcs k) ?ks)) 0 s"
    by (rule mergeLoop_resolved [OF assms]) (simp_all add: stack_ok_def)
  ultimately show ?thesis by (simp add: mergeResolve_def resolved_def)
qed

section \<open>Properties\<close>

lemma resolved_ascending: "sorted_wrt (<) (map fst (resolved srcs))"
proof -
  have "map fst (resolved srcs) = filter (\<lambda>k. \<not> dropped srcs k) (sorted_list_of_set (all_keys srcs))"
    by (simp add: resolved_def resolved_rule_def Let_def comp_def)
  then show ?thesis by (simp add: sorted_wrt_filter)
qed

text \<open>The winner of a key, by its index.\<close>

lemma winner_ofI:
  assumes "i < length srcs" and "k \<in> keys_of (srcs ! i)"
    and "\<forall>j. i < j \<longrightarrow> j < length srcs \<longrightarrow> k \<notin> keys_of (srcs ! j)"
  shows "winner_of srcs k = i"
proof -
  have "[0..<length srcs] = [0..<i] @ i # [Suc i..<length srcs]"
    using assms(1) by (metis le_add1 plus_nat.add_0 upt_add_eq_append upt_conv_Cons le_add_diff_inverse less_imp_le_nat)
  moreover have "filter (\<lambda>j. k \<in> keys_of (srcs ! j)) [Suc i..<length srcs] = []"
    using assms(3) by (simp add: filter_empty_conv)
  ultimately show ?thesis using assms(2) by (simp add: winner_of_def)
qed

lemma winner_of_last:
  assumes "k \<in> all_keys srcs"
  shows "winner_of srcs k < length srcs \<and> k \<in> keys_of (srcs ! winner_of srcs k) \<and>
    (\<forall>j. winner_of srcs k < j \<longrightarrow> j < length srcs \<longrightarrow> k \<notin> keys_of (srcs ! j))"
proof -
  from assms obtain i where i: "i < length srcs" "k \<in> keys_of (srcs ! i)"
    by (auto simp: all_keys_def in_set_conv_nth)
  let ?I = "{i. i < length srcs \<and> k \<in> keys_of (srcs ! i)}"
  have fin: "finite ?I" by simp
  obtain w where w: "w = Max ?I" by simp
  have "w \<in> ?I" unfolding w by (rule Max_in [OF fin]) (use i in blast)
  moreover have "k \<notin> keys_of (srcs ! j)" if "w < j" "j < length srcs" for j
  proof
    assume "k \<in> keys_of (srcs ! j)"
    with that(2) have "j \<le> w" unfolding w by (intro Max_ge [OF fin]) simp
    with that(1) show False by simp
  qed
  ultimately show ?thesis using winner_ofI [of w srcs k] by simp
qed

lemma resolved_source:
  assumes "(k, a, m) \<in> set (resolved srcs)"
  shows "k \<in> all_keys srcs \<and> \<not> dropped srcs k \<and> (k, m) \<in> set (Next (srcs ! winner_of srcs k)) \<and>
    a = Action (srcs ! winner_of srcs k)"
proof -
  from assms have k: "k \<in> all_keys srcs" "\<not> dropped srcs k" and r: "resolved_rule srcs k = (k, a, m)"
    by (auto simp: resolved_def resolved_rule_def Let_def)
  let ?src = "srcs ! winner_of srcs k"
  from winner_of_last [OF k(1)] obtain m' where "(k, m') \<in> set (Next ?src)" by (auto simp: keys_of_def)
  then have "map_of (Next ?src) k \<noteq> None" using weak_map_of_SomeI by fastforce
  with r have "map_of (Next ?src) k = Some m" "a = Action ?src" by (auto simp: resolved_rule_def Let_def)
  with k show ?thesis using map_of_SomeD by fastforce
qed

text \<open>
  C18. The merge of several sources hands every rule that the priorities leave to \<open>emit\<close>, in
  strictly ascending order of the keys and each key once, and stops at the first error. The
  work with cursors and with the stack of pruning keys computes exactly the list \<open>resolved\<close>.
\<close>

theorem merge_emits_resolved:
  assumes "\<forall>src \<in> set srcs. ascending src"
  shows "mergeResolve srcs emit s = emitAll emit (resolved srcs) 0 s \<and>
    sorted_wrt (<) (map fst (resolved srcs))"
  by (simp add: mergeResolve_resolved [OF assms] resolved_ascending)

text \<open>The sources of the test \<open>TestMergeResolve\<close>, in part.\<close>

definition demo_sources :: "RunSource list" where
  "demo_sources =
     [\<lparr>Next = [(''bar.foo.pruned.deep'', MatchPrefix), (''com.block'', MatchPrefix), (''com.dup'', MatchPrefix)],
       Action = ActionRemap, Prune = False\<rparr>,
      \<lparr>Next = [(''com.dup'', MatchExact)], Action = ActionBlackhole, Prune = False\<rparr>,
      \<lparr>Next = [(''bar.foo.pruned'', MatchPrefix)], Action = ActionPass, Prune = True\<rparr>]"

lemma demo_ascending: "\<forall>src \<in> set demo_sources. ascending src"
  by (simp add: demo_sources_def ascending_def)

text \<open>An \<open>emit\<close> that collects what it is given.\<close>

definition collect ::
  "bytes \<Rightarrow> action \<Rightarrow> matchMode \<Rightarrow> (bytes \<times> action \<times> matchMode) list \<Rightarrow>
   error option \<times> (bytes \<times> action \<times> matchMode) list"
where
  "collect k a m s = (None, s @ [(k, a, m)])"

lemma emitAll_collect: "emitAll collect rs n s = (n + length rs, None, s @ rs)"
  by (induction collect rs n s rule: emitAll.induct) (simp_all add: collect_def)

lemma demo_keys: "all_keys demo_sources =
    {''bar.foo.pruned'', ''bar.foo.pruned.deep'', ''com.block'', ''com.dup''}"
  by (auto simp: all_keys_def keys_of_def demo_sources_def)

lemma demo_winners:
  "winner_of demo_sources ''bar.foo.pruned'' = 2" "winner_of demo_sources ''bar.foo.pruned.deep'' = 0"
  "winner_of demo_sources ''com.block'' = 0" "winner_of demo_sources ''com.dup'' = 1"
  by (simp_all add: winner_of_def keys_of_def demo_sources_def upt_rec)

lemma demo_resolved: "resolved demo_sources =
    [(''bar.foo.pruned'', ActionPass, MatchPrefix), (''com.block'', ActionRemap, MatchPrefix),
     (''com.dup'', ActionBlackhole, MatchExact)]"
proof -
  have "sorted_list_of_set (all_keys demo_sources) =
      [''bar.foo.pruned'', ''bar.foo.pruned.deep'', ''com.block'', ''com.dup'']"
    unfolding demo_keys by (simp add: less_list_code)
  then show ?thesis
    unfolding resolved_def
    by (simp add: dropped_def demo_keys demo_winners resolved_rule_def Let_def labelCovers_def)
      (simp add: demo_sources_def)
qed

lemma merge_emits_resolved_witness:
  "mergeResolve demo_sources collect [] =
     (3, None, [(''bar.foo.pruned'', ActionPass, MatchPrefix), (''com.block'', ActionRemap, MatchPrefix),
       (''com.dup'', ActionBlackhole, MatchExact)])"
  using merge_emits_resolved [OF demo_ascending, of collect "[]"]
  by (simp add: emitAll_collect demo_resolved collect_def)

text \<open>
  Which rules the merge leaves: a rule of source \<open>i\<close> for a key is in the result exactly
  when no later source has the key (the last one wins), and no parent key is won by a later
  source than \<open>i\<close> that prunes. Its action and mode are those of source \<open>i\<close>.
\<close>

lemma merged_rules:
  assumes "\<forall>src \<in> set srcs. ascending src"
  shows "(k, a, m) \<in> set (resolved srcs) \<longleftrightarrow>
    (\<exists>i < length srcs. (k, m) \<in> set (Next (srcs ! i)) \<and> a = Action (srcs ! i) \<and>
       (\<forall>j. i < j \<and> j < length srcs \<longrightarrow> k \<notin> fst ` set (Next (srcs ! j))) \<and>
       \<not> (\<exists>p. \<exists>j < length srcs. labelCovers p k \<and> i < j \<and> p \<in> fst ` set (Next (srcs ! j)) \<and>
            Prune (srcs ! j) \<and> (\<forall>j'. j < j' \<and> j' < length srcs \<longrightarrow> p \<notin> fst ` set (Next (srcs ! j')))))"
    (is "_ \<longleftrightarrow> (\<exists>i < _. ?rule i)")
proof -
  have drop: "dropped srcs k \<longleftrightarrow> (\<exists>p. \<exists>j < length srcs. labelCovers p k \<and> winner_of srcs k < j \<and>
      p \<in> fst ` set (Next (srcs ! j)) \<and> Prune (srcs ! j) \<and>
      (\<forall>j'. j < j' \<and> j' < length srcs \<longrightarrow> p \<notin> fst ` set (Next (srcs ! j'))))" (is "_ = ?d")
  proof
    assume "dropped srcs k"
    then obtain p where "p \<in> all_keys srcs" "labelCovers p k" "Prune (srcs ! winner_of srcs p)"
      "winner_of srcs k < winner_of srcs p" by (auto simp: dropped_def)
    with winner_of_last [of p srcs] show ?d
      by (intro exI [of _ p] exI [of _ "winner_of srcs p"]) (simp add: keys_of_def)
  next
    assume ?d
    then obtain p j where j: "j < length srcs" "labelCovers p k" "winner_of srcs k < j"
      "p \<in> fst ` set (Next (srcs ! j))" "Prune (srcs ! j)"
      "\<forall>j'. j < j' \<and> j' < length srcs \<longrightarrow> p \<notin> fst ` set (Next (srcs ! j'))" by blast
    then have "winner_of srcs p = j" by (intro winner_ofI) (simp_all add: keys_of_def)
    moreover have "p \<in> all_keys srcs" using j(1,4) by (auto simp: all_keys_def keys_of_def)
    ultimately show "dropped srcs k" using j by (auto simp: dropped_def)
  qed
  have mode: "map_of (Next src) k = Some m \<longleftrightarrow> (k, m) \<in> set (Next src)" if "src \<in> set srcs" for src
    using assms that by (intro map_of_eq_Some_iff) (simp add: ascending_def strict_sorted_iff)
  have mem: "(k, a, m) \<in> set (resolved srcs) \<longleftrightarrow>
      k \<in> all_keys srcs \<and> \<not> dropped srcs k \<and> resolved_rule srcs k = (k, a, m)"
    by (auto simp: resolved_def resolved_rule_def Let_def image_iff)
  have "k \<in> all_keys srcs \<and> \<not> dropped srcs k \<and> resolved_rule srcs k = (k, a, m) \<longleftrightarrow>
      (\<exists>i < length srcs. ?rule i)"
  proof
    assume l: "k \<in> all_keys srcs \<and> \<not> dropped srcs k \<and> resolved_rule srcs k = (k, a, m)"
    then have "(k, a, m) \<in> set (resolved srcs)" unfolding mem .
    note src = resolved_source [OF this]
    let ?w = "winner_of srcs k"
    have w: "?w < length srcs" "\<forall>j. ?w < j \<and> j < length srcs \<longrightarrow> k \<notin> fst ` set (Next (srcs ! j))"
      using winner_of_last [of k srcs] l by (auto simp: keys_of_def)
    from src have "(k, m) \<in> set (Next (srcs ! ?w))" "a = Action (srcs ! ?w)" by simp_all
    with l w drop show "\<exists>i < length srcs. ?rule i" by blast
  next
    assume "\<exists>i < length srcs. ?rule i"
    then obtain i where i: "i < length srcs" "?rule i" by blast
    then have "(k, m) \<in> set (Next (srcs ! i))" by blast
    then have k: "k \<in> keys_of (srcs ! i)" unfolding keys_of_def by (metis fst_conv image_eqI)
    have "\<forall>j. i < j \<longrightarrow> j < length srcs \<longrightarrow> k \<notin> keys_of (srcs ! j)"
      using i(2) unfolding keys_of_def by blast
    then have w: "winner_of srcs k = i" by (rule winner_ofI [OF i(1) k])
    have "map_of (Next (srcs ! i)) k = Some m" using mode [of "srcs ! i"] i by simp
    then have "resolved_rule srcs k = (k, a, m)" using i(2) w by (simp add: resolved_rule_def Let_def)
    moreover have "k \<in> all_keys srcs" using i(1) k by (auto simp: all_keys_def)
    moreover have "\<not> dropped srcs k" unfolding drop w using i(2) by blast
    ultimately show "k \<in> all_keys srcs \<and> \<not> dropped srcs k \<and> resolved_rule srcs k = (k, a, m)" by blast
  qed
  with mem show ?thesis by (rule trans)
qed

lemma merged_rules_witness:
  "(''com.dup'', ActionBlackhole, MatchExact) \<in> set (resolved demo_sources) \<and>
   (\<exists>i < length demo_sources. (''com.dup'', MatchExact) \<in> set (Next (demo_sources ! i)))"
proof -
  have "(''com.dup'', ActionBlackhole, MatchExact) \<in> set (resolved demo_sources)"
    by (simp add: demo_resolved)
  with merged_rules [OF demo_ascending, of "''com.dup''" ActionBlackhole MatchExact] show ?thesis by blast
qed

end
