(* ===== verification/Sources.thy ===== *)
theory Sources
  imports Domain Store Merge
begin

text \<open>
  The sources of the rules: \<open>parser.go\<close>, \<open>filter.go\<close>, \<open>fetcher.go\<close> and \<open>source.go\<close> of
  \<open>src/server/router\<close>, with the part of the configuration they read (\<open>src/cfg/config.go\<close>). A
  source is fetched, parsed into entries, and written to the store as its run.

  The package \<open>regexp\<close> is the record \<open>regexpPkg\<close> of the three operations that are called, over a
  compiled expression \<^typ>\<open>'re\<close>. What the program asks of the network, of the files it does not
  own, of \<open>compress/gzip\<close> and of \<open>net/url\<close> is the record \<open>world\<close>, as it answers at one refresh.
\<close>

section \<open>Configuration and parameters\<close>

record cfgRegexp =
  cfgFrom :: bytes
  cfgTo :: bytes

record cfgFilter =
  Exclude :: "bytes list"

record cfgMatcher =
  cfgName :: bytes
  cfgType :: bytes
  cfgSource :: bytes
  cfgFormat :: bytes
  cfgSubdomains :: "bool option"
  cfgPrune :: bool
  cfgRegexp :: "cfgRegexp option"
  cfgFilter :: "cfgFilter option"

definition RouterTypeBlackhole :: bytes where "RouterTypeBlackhole = ''blackhole''"
definition RouterTypeRemap :: bytes where "RouterTypeRemap = ''remap''"
definition RouterTypePassthrough :: bytes where "RouterTypePassthrough = ''passthrough''"
definition RouterTypeNXDomain :: bytes where "RouterTypeNXDomain = ''nxdomain''"
definition FormatPlain :: bytes where "FormatPlain = ''plain''"
definition FormatRegexp :: bytes where "FormatRegexp = ''regexp''"

record 're regexpPkg =
  reCompile :: "bytes \<Rightarrow> error + 're"
  reMatch :: "'re \<Rightarrow> bytes \<Rightarrow> bool"
  reReplace :: "'re \<Rightarrow> bytes \<Rightarrow> bytes \<Rightarrow> bytes"

record url =
  Scheme :: bytes
  Path :: bytes
  urlString :: bytes

record response =
  StatusCode :: int
  Header :: "bytes \<Rightarrow> bytes"
  Body :: reader

record world =
  urlParse :: "bytes \<Rightarrow> error + url"
  osStat :: "bytes \<Rightarrow> error + u64 \<times> u64"
  osOpen :: "bytes \<Rightarrow> error + reader"
  httpNewRequest :: "bytes \<Rightarrow> error option"
  httpDo :: "bytes \<Rightarrow> (bytes \<times> bytes) list \<Rightarrow> error + response"
  gzipReader :: "reader \<Rightarrow> error + reader"

section \<open>Parsers\<close>

record Entry =
  Domain :: bytes
  Subdomains :: bool

datatype 're Parser = PlainParser bool | RegexpParser 're bytes bool

definition newParser :: "'re regexpPkg \<Rightarrow> cfgMatcher \<Rightarrow> bool \<Rightarrow> error + 're Parser" where
  "newParser pkg m subdomains =
     (if cfgFormat m = [] \<or> cfgFormat m = FormatPlain then Inr (PlainParser subdomains)
      else if cfgFormat m = FormatRegexp then
        (case cfgRegexp m of
           None \<Rightarrow> Inl (Err ''format regexp requires regexp section'')
         | Some r \<Rightarrow>
             (case reCompile pkg (cfgFrom r) of
                Inl err \<Rightarrow> Inl (Wrap ''invalid regexp'' err)
              | Inr from \<Rightarrow> Inr (RegexpParser from (cfgTo r) subdomains)))
      else Inl (Err ''unknown format''))"

definition maxLineBytes :: nat where "maxLineBytes = 2 ^ 20"

definition errTooLong :: error where "errTooLong = Err ''bufio.Scanner: token too long''"

text \<open>
  \<open>bufio.Scanner\<close> with the split function for lines and the buffer of \<open>newLineScanner\<close>: the lines
  without their ends, and whether a line filled the whole buffer, which ends the scan.
\<close>

definition dropCR :: "bytes \<Rightarrow> bytes" where
  "dropCR l = (if l \<noteq> [] \<and> last l = CHR 0x0D then butlast l else l)"

function scanLines :: "bytes \<Rightarrow> bytes list \<times> bool" where
  "scanLines s =
     (if s = [] then ([], False)
      else
        (let l = takeWhile (\<lambda>c. c \<noteq> CHR 0x0A) s
         in if length l \<ge> maxLineBytes then ([], True)
            else if length l = length s then ([dropCR l], False)
            else (case scanLines (drop (length l + 1) s) of (ls, long) \<Rightarrow> (dropCR l # ls, long))))"
  by pat_completeness auto
termination by (relation "measure length") auto

declare scanLines.simps [simp del]

text \<open>All the lines that \<open>Scan\<close> yields, and \<open>Err\<close> after the last.\<close>

definition scanAll :: "reader \<Rightarrow> bytes list \<times> error option" where
  "scanAll r =
     (case scanLines (rest r) of (ls, long) \<Rightarrow>
        (ls, if long then Some errTooLong else if atEnd r = EOF then None else Some (atEnd r)))"

text \<open>\<open>Parse\<close> of the two parsers: the entries in the order in which \<open>emit\<close> gets them.\<close>

definition Parse :: "'re regexpPkg \<Rightarrow> 're Parser \<Rightarrow> reader \<Rightarrow> Entry list \<times> error option" where
  "Parse pkg p r =
     (case scanAll r of (ls, err) \<Rightarrow>
        (case p of
           PlainParser sub \<Rightarrow>
             (map (\<lambda>line. \<lparr>Domain = line, Subdomains = sub\<rparr>)
                (filter (\<lambda>line. line \<noteq> [] \<and> \<not> prefix ''#'' line) (map TrimSpace ls)), err)
         | RegexpParser from to sub \<Rightarrow>
             (map (\<lambda>line. \<lparr>Domain = reReplace pkg from line to, Subdomains = sub\<rparr>)
                (filter (\<lambda>line. line \<noteq> [] \<and> reMatch pkg from line) (map TrimSpace ls)), err)))"

section \<open>Filters\<close>

text \<open>The nil pointer is \<^const>\<open>None\<close>.\<close>

type_synonym 're Filter = "'re list option"

fun compileAll :: "'re regexpPkg \<Rightarrow> bytes list \<Rightarrow> error + 're list" where
  "compileAll pkg [] = Inr []"
| "compileAll pkg (p # ps) =
     (case reCompile pkg p of
        Inl err \<Rightarrow> Inl (Wrap ''invalid exclude pattern'' err)
      | Inr re \<Rightarrow> (case compileAll pkg ps of Inl err \<Rightarrow> Inl err | Inr res \<Rightarrow> Inr (re # res)))"

definition newFilter :: "'re regexpPkg \<Rightarrow> cfgMatcher \<Rightarrow> error + 're Filter" where
  "newFilter pkg m =
     (case cfgFilter m of
        None \<Rightarrow> Inr None
      | Some f \<Rightarrow>
          if Exclude f = [] then Inr None
          else (case compileAll pkg (Exclude f) of Inl err \<Rightarrow> Inl err | Inr res \<Rightarrow> Inr (Some res)))"

definition Keep :: "'re regexpPkg \<Rightarrow> 're Filter \<Rightarrow> bytes \<Rightarrow> bool" where
  "Keep pkg f domain = (case f of None \<Rightarrow> True | Some res \<Rightarrow> list_all (\<lambda>re. \<not> reMatch pkg re domain) res)"

section \<open>Fetchers\<close>

datatype fetcher = fileFetcher bytes | httpFetcher bytes

record FetchResult =
  NotModified :: bool
  resValidator :: Validator
  resReader :: reader

definition noReader :: reader where "noReader = \<lparr>rest = [], atEnd = EOF\<rparr>"

definition newFetcher :: "world \<Rightarrow> bytes \<Rightarrow> error + fetcher" where
  "newFetcher W uri =
     (case urlParse W uri of
        Inl err \<Rightarrow> Inl (Wrap ''parse uri'' err)
      | Inr u \<Rightarrow>
          if Scheme u = ''file'' then Inr (fileFetcher (Path u))
          else if Scheme u = ''http'' \<or> Scheme u = ''https'' then Inr (httpFetcher (urlString u))
          else Inl (Err ''unsupported scheme''))"

definition gzipMagic :: bytes where "gzipMagic = [CHR 0x1F, CHR 0x8B]"

text \<open>\<open>Peek\<close> gives fewer bytes at the end of the data and takes none.\<close>

definition maybeGunzip :: "world \<Rightarrow> reader \<Rightarrow> error + reader" where
  "maybeGunzip W raw =
     (if take (length gzipMagic) (rest raw) \<noteq> gzipMagic then Inr raw
      else case gzipReader W raw of Inl err \<Rightarrow> Inl (Wrap ''gzip'' err) | Inr gz \<Rightarrow> Inr gz)"

definition notModified :: FetchResult where
  "notModified = \<lparr>NotModified = True, resValidator = noValidator, resReader = noReader\<rparr>"

definition fileFetch :: "world \<Rightarrow> bytes \<Rightarrow> Validator \<Rightarrow> error + FetchResult" where
  "fileFetch W path prev =
     (case osStat W path of
        Inl err \<Rightarrow> Inl (Wrap ''stat file'' err)
      | Inr (mtime, sz) \<Rightarrow>
          if MTime prev = mtime \<and> Size prev = sz then Inr notModified
          else (case osOpen W path of
              Inl err \<Rightarrow> Inl (Wrap ''open file'' err)
            | Inr f \<Rightarrow>
                (case maybeGunzip W f of
                   Inl err \<Rightarrow> Inl err
                 | Inr r \<Rightarrow>
                     Inr \<lparr>NotModified = False,
                          resValidator = noValidator\<lparr>MTime := mtime, Size := sz\<rparr>,
                          resReader = r\<rparr>)))"

definition conditions :: "Validator \<Rightarrow> (bytes \<times> bytes) list" where
  "conditions prev =
     (if ETag prev \<noteq> [] then [(''If-None-Match'', ETag prev)] else []) @
     (if LastModified prev \<noteq> [] then [(''If-Modified-Since'', LastModified prev)] else [])"

definition httpFetch :: "world \<Rightarrow> bytes \<Rightarrow> Validator \<Rightarrow> error + FetchResult" where
  "httpFetch W uri prev =
     (case httpNewRequest W uri of
        Some err \<Rightarrow> Inl (Wrap ''create request'' err)
      | None \<Rightarrow>
          (case httpDo W uri (conditions prev) of
             Inl err \<Rightarrow> Inl (Wrap ''get response'' err)
           | Inr resp \<Rightarrow>
               if StatusCode resp = 304 then Inr notModified
               else if StatusCode resp < 200 \<or> StatusCode resp \<ge> 300 then Inl (Err ''unexpected status'')
               else (case maybeGunzip W (Body resp) of
                   Inl err \<Rightarrow> Inl err
                 | Inr r \<Rightarrow>
                     Inr \<lparr>NotModified = False,
                          resValidator = noValidator\<lparr>ETag := Header resp ''ETag'',
                            LastModified := Header resp ''Last-Modified''\<rparr>,
                          resReader = r\<rparr>)))"

fun fetch :: "world \<Rightarrow> fetcher \<Rightarrow> Validator \<Rightarrow> error + FetchResult" where
  "fetch W (fileFetcher path) prev = fileFetch W path prev"
| "fetch W (httpFetcher uri) prev = httpFetch W uri prev"

section \<open>Sources\<close>

record 're Source =
  Name :: bytes
  SrcAction :: action
  SrcParser :: "'re Parser"
  SrcFilter :: "'re Filter"
  SrcPrune :: bool
  SrcFingerprint :: bytes
  SrcFetcher :: fetcher

definition formatBool :: "bool \<Rightarrow> string" where
  "formatBool b = (if b then ''true'' else ''false'')"

definition joinWith :: "bytes \<Rightarrow> bytes list \<Rightarrow> bytes" where
  "joinWith sep xs = (case xs of [] \<Rightarrow> [] | x # ys \<Rightarrow> x @ concat (map (\<lambda>y. sep @ y) ys))"

definition fingerprint :: "cfgMatcher \<Rightarrow> bool \<Rightarrow> nat \<Rightarrow> bytes" where
  "fingerprint m subdomains idx =
     (let nul = [CHR 0x00];
          re = (case cfgRegexp m of None \<Rightarrow> []
                | Some r \<Rightarrow> ''{From:'' @ cfgFrom r @ '' To:'' @ cfgTo r @ ''}'');
          ex = (case cfgFilter m of None \<Rightarrow> [] | Some f \<Rightarrow> joinWith nul (Exclude f));
          s = ''uri='' @ cfgSource m @ nul @ ''fmt='' @ cfgFormat m @ nul @ ''sub='' @ formatBool subdomains @
            nul @ ''type='' @ cfgType m @ nul @ ''prune='' @ formatBool (cfgPrune m) @ nul @ ''idx='' @
            decimal idx @ nul @ ''re='' @ re @ nul @ ''ex='' @ ex
      in hexEncode (sha256 s))"

definition sourceAction :: "bytes \<Rightarrow> action option" where
  "sourceAction t =
     (if t = RouterTypeBlackhole then Some ActionBlackhole
      else if t = RouterTypeRemap then Some ActionRemap
      else if t = RouterTypePassthrough then Some ActionPass
      else if t = RouterTypeNXDomain then Some ActionNXDomain
      else None)"

definition newSource :: "'re regexpPkg \<Rightarrow> world \<Rightarrow> cfgMatcher \<Rightarrow> nat \<Rightarrow> error + 're Source" where
  "newSource pkg W m idx =
     (case sourceAction (cfgType m) of
        None \<Rightarrow> Inl (Err ''unknown router type'')
      | Some act \<Rightarrow>
     (let subdomains = (case cfgSubdomains m of None \<Rightarrow> True | Some b \<Rightarrow> b)
      in case newParser pkg m subdomains of
        Inl err \<Rightarrow> Inl err
      | Inr parser \<Rightarrow>
     (case newFilter pkg m of
        Inl err \<Rightarrow> Inl err
      | Inr flt \<Rightarrow>
     (case newFetcher W (cfgSource m) of
        Inl err \<Rightarrow> Inl (Wrap ''source'' err)
      | Inr ft \<Rightarrow>
          Inr \<lparr>Name = cfgName m, SrcAction = act, SrcParser = parser, SrcFilter = flt,
               SrcPrune = cfgPrune m, SrcFingerprint = fingerprint m subdomains idx,
               SrcFetcher = ft\<rparr>))))"

datatype refreshResult = refreshUnchanged | refreshUpdated | refreshStale | refreshMissing

text \<open>The closure of \<open>parse\<close> as the entries it adds.\<close>

definition keepEntry :: "names \<Rightarrow> 're regexpPkg \<Rightarrow> 're Filter \<Rightarrow> Entry \<Rightarrow> Entry list" where
  "keepEntry nm pkg f e =
     (let domain = NormalizeDomain nm (Domain e)
      in if domain = [] then []
         else if \<not> Keep pkg f domain then []
         else [\<lparr>Domain = domain, Subdomains = Subdomains e\<rparr>])"

definition parse :: "names \<Rightarrow> 're regexpPkg \<Rightarrow> 're Source \<Rightarrow> reader \<Rightarrow> Entry list \<times> error option" where
  "parse nm pkg src r =
     (case Parse pkg (SrcParser src) r of (es, err) \<Rightarrow>
        (concat (map (keepEntry nm pkg (SrcFilter src)) es),
         map_option (Wrap ''failed to read source'') err))"

definition toRecord :: "Entry \<Rightarrow> Record" where
  "toRecord e = Record (ReverseLabels (Domain e)) (if Subdomains e then MatchPrefix else MatchExact)"

definition toRecords :: "Entry list \<Rightarrow> Record list" where
  "toRecords es = map toRecord es"

text \<open>The end of \<open>refresh\<close>, where no new run was written.\<close>

definition fallBack :: "bool \<Rightarrow> error option \<Rightarrow> refreshResult \<times> error option" where
  "fallBack cached ferr =
     (if cached then (refreshStale, None)
      else case ferr of
        Some err \<Rightarrow> (refreshMissing, Some (Wrap ''fetch failed, no cache'' err))
      | None \<Rightarrow> (refreshMissing, None))"

text \<open>\<open>refresh\<close> from the fetch on.\<close>

definition refreshFrom ::
  "names \<Rightarrow> 're regexpPkg \<Rightarrow> world \<Rightarrow> store \<Rightarrow> 're Source \<Rightarrow> bool \<Rightarrow> Validator \<Rightarrow> fs \<Rightarrow>
   (refreshResult \<times> error option) \<times> fs"
where
  "refreshFrom nm pkg W st src cached prev s =
     (case fetch W (SrcFetcher src) prev of
        Inl ferr \<Rightarrow> (fallBack cached (Some ferr), s)
      | Inr res \<Rightarrow>
          if NotModified res then ((refreshUnchanged, None), s)
          else
     (case parse nm pkg src (resReader res) of
        (entries, Some perr) \<Rightarrow> (fallBack cached (Some perr), s)
      | (entries, None) \<Rightarrow>
          if entries = [] then (fallBack cached None, s)
          else
     (case WriteRun st (Name src) ((resValidator res)\<lparr>Fingerprint := SrcFingerprint src\<rparr>) (toRecords entries) s of
        (Some werr, s) \<Rightarrow> ((refreshStale, Some (Wrap ''persist run'' werr)), s)
      | (None, s) \<Rightarrow> ((refreshUpdated, None), s))))"

text \<open>The validator that \<open>refresh\<close> sends along, given what the store has.\<close>

definition knownValidator :: "Validator \<Rightarrow> error option \<Rightarrow> bytes \<Rightarrow> Validator" where
  "knownValidator prev lerr fp = (if lerr \<noteq> None \<or> Fingerprint prev \<noteq> fp then noValidator else prev)"

definition refresh ::
  "names \<Rightarrow> 're regexpPkg \<Rightarrow> world \<Rightarrow> store \<Rightarrow> 're Source \<Rightarrow> fs \<Rightarrow> (refreshResult \<times> error option) \<times> fs"
where
  "refresh nm pkg W st src s =
     (case LoadValidator st (Name src) s of
        ((prev, lerr), s) \<Rightarrow>
          refreshFrom nm pkg W st src (lerr = None) (knownValidator prev lerr (SrcFingerprint src)) s)"

section \<open>Lines\<close>

lemma scanLines_line:
  assumes "CHR 0x0A \<notin> set l" and "length l < maxLineBytes"
  shows "scanLines (l @ CHR 0x0A # s) = (dropCR l # fst (scanLines s), snd (scanLines s))"
proof -
  have "takeWhile (\<lambda>c. c \<noteq> CHR 0x0A) (l @ CHR 0x0A # s) = l"
    using assms(1) by (induction l) auto
  with assms(2) show ?thesis
    by (subst scanLines.simps) (simp add: Let_def not_le split: prod.split)
qed

lemma scanLines_Nil [simp]: "scanLines [] = ([], False)"
  by (subst scanLines.simps) simp

text \<open>A list of lines as the bytes of a file.\<close>

definition unlines :: "bytes list \<Rightarrow> bytes" where
  "unlines ls = concat (map (\<lambda>l. l @ [CHR 0x0A]) ls)"

definition line :: "bytes \<Rightarrow> bool" where
  "line l \<longleftrightarrow> CHR 0x0A \<notin> set l \<and> length l < maxLineBytes"

lemma scanLines_unlines:
  "\<forall>l \<in> set ls. line l \<Longrightarrow>
     scanLines (unlines ls @ s) = (map dropCR ls @ fst (scanLines s), snd (scanLines s))"
  by (induction ls) (simp_all add: unlines_def line_def scanLines_line)

lemma scanLines_long:
  assumes "maxLineBytes \<le> length (takeWhile (\<lambda>c. c \<noteq> CHR 0x0A) s)"
  shows "scanLines s = ([], True)"
proof -
  have "0 < maxLineBytes" by (simp add: maxLineBytes_def)
  with assms have "s \<noteq> []" by auto
  with assms show ?thesis by (subst scanLines.simps) (simp add: Let_def)
qed

text \<open>What a plain source says with a line: nothing, or an entry with the normal form of its name.\<close>

definition lineEntry :: "names \<Rightarrow> 're regexpPkg \<Rightarrow> 're Filter \<Rightarrow> bool \<Rightarrow> bytes \<Rightarrow> Entry list" where
  "lineEntry nm pkg f sub l =
     (let l = TrimSpace (dropCR l); d = NormalizeDomain nm l
      in if l = [] \<or> prefix ''#'' l \<or> d = [] \<or> \<not> Keep pkg f d then []
         else [\<lparr>Domain = d, Subdomains = sub\<rparr>])"

lemma concat_filter_map: "concat (map f (filter P xs)) = concat (map (\<lambda>x. if P x then f x else []) xs)"
  by (induction xs) auto

lemma parse_unlines:
  assumes "SrcParser src = PlainParser sub" and "\<forall>l \<in> set ls. line l"
  shows "parse nm pkg src \<lparr>rest = unlines ls, atEnd = EOF\<rparr> =
      (concat (map (lineEntry nm pkg (SrcFilter src) sub) ls), None)"
  using scanLines_unlines [OF assms(2), of "[]"]
  by (simp add: parse_def Parse_def scanAll_def assms(1) concat_filter_map comp_def filter_map)
    (rule arg_cong [where f = concat], rule map_cong, auto simp: lineEntry_def keepEntry_def Let_def)

lemma parse_long:
  assumes "SrcParser src = PlainParser sub" and "\<forall>l \<in> set ls. line l"
    and "maxLineBytes \<le> length (takeWhile (\<lambda>c. c \<noteq> CHR 0x0A) s)"
  shows "snd (parse nm pkg src \<lparr>rest = unlines ls @ s, atEnd = e\<rparr>) \<noteq> None"
  using scanLines_unlines [OF assms(2), of s] scanLines_long [OF assms(3)]
  by (simp add: parse_def Parse_def scanAll_def assms(1))

section \<open>Refreshing\<close>

lemma openFile_same: "openFile p s = (r, t) \<Longrightarrow> same_files {} s t"
  by (auto simp: openFile_def same_files_def sysCall_simps split: prod.splits option.splits)

lemma LoadValidator_same: "LoadValidator st name s = (r, t) \<Longrightarrow> same_files {} s t"
  by (auto simp: LoadValidator_def split: prod.splits sum.splits dest!: openFile_same)

text \<open>A fetched and parsed content of a source.\<close>

definition fresh_content ::
  "names \<Rightarrow> 're regexpPkg \<Rightarrow> world \<Rightarrow> 're Source \<Rightarrow> Validator \<Rightarrow> Validator \<Rightarrow> Entry list \<Rightarrow> bool"
where
  "fresh_content nm pkg W src prev v entries \<longleftrightarrow>
     (\<exists>res. fetch W (SrcFetcher src) prev = Inr res \<and> \<not> NotModified res \<and>
        parse nm pkg src (resReader res) = (entries, None) \<and> entries \<noteq> [] \<and>
        v = (resValidator res)\<lparr>Fingerprint := SrcFingerprint src\<rparr>)"

lemma fallBack_not_updated [simp]: "fst (fallBack c e) \<noteq> refreshUpdated"
  by (simp add: fallBack_def split: option.split)

lemma refreshFrom_cases:
  assumes "refreshFrom nm pkg W st src cached prev s = ((res, err), t)"
  shows "(res \<noteq> refreshUpdated \<and> t = s \<and> (res = refreshMissing \<longrightarrow> \<not> cached)) \<or>
    (\<exists>v entries e. fresh_content nm pkg W src prev v entries \<and>
      WriteRun st (Name src) v (toRecords entries) s = (e, t) \<and>
      (e = None \<longrightarrow> res = refreshUpdated \<and> err = None) \<and> (e \<noteq> None \<longrightarrow> res = refreshStale \<and> err \<noteq> None))"
proof (cases "fetch W (SrcFetcher src) prev")
  case (Inl ferr)
  with assms show ?thesis by (auto simp: refreshFrom_def fallBack_def split: if_splits)
next
  case fetched: (Inr fr)
  show ?thesis
  proof (cases "NotModified fr")
    case True
    with assms fetched show ?thesis by (auto simp: refreshFrom_def)
  next
    case False
    obtain entries perr where p: "parse nm pkg src (resReader fr) = (entries, perr)" by force
    show ?thesis
    proof (cases "perr \<noteq> None \<or> entries = []")
      case True
      with assms fetched False p show ?thesis
        by (auto simp: refreshFrom_def fallBack_def split: option.splits if_splits)
    next
      case new: False
      let ?v = "(resValidator fr)\<lparr>Fingerprint := SrcFingerprint src\<rparr>"
      obtain e u where w: "WriteRun st (Name src) ?v (toRecords entries) s = (e, u)" by force
      have "fresh_content nm pkg W src prev ?v entries"
        using fetched False p new by (auto simp: fresh_content_def)
      moreover have "t = u" "(e = None \<longrightarrow> res = refreshUpdated \<and> err = None)"
        "(e \<noteq> None \<longrightarrow> res = refreshStale \<and> err \<noteq> None)"
        using assms fetched False p new w by (auto simp: refreshFrom_def split: option.splits)
      ultimately show ?thesis using w by blast
    qed
  qed
qed

text \<open>The effect of a refresh on the files, for any script of faults.\<close>

lemma WriteRun_atomic: "WriteRun st name v recs s = (e, t) \<Longrightarrow> atomically (runsDir st, runFile name) (runBytes v recs) e s t"
  unfolding WriteRun_def by (rule writeAtomic_atomic [OF runBody_writes])

definition refreshed ::
  "names \<Rightarrow> 're regexpPkg \<Rightarrow> world \<Rightarrow> store \<Rightarrow> 're Source \<Rightarrow> refreshResult \<Rightarrow> fs \<Rightarrow> fs \<Rightarrow> bool"
where
  "refreshed nm pkg W st src res s t \<longleftrightarrow>
     (let p = (runsDir st, runFile (Name src)) in
      (if res = refreshUpdated then
         \<exists>prev v entries. fresh_content nm pkg W src prev v entries \<and>
           lookupFile t p = Some \<lparr>fdata = runBytes v (toRecords entries), fdisk = runBytes v (toRecords entries)\<rparr>
       else lookupFile t p = lookupFile s p) \<and>
      (\<forall>q. q \<noteq> p \<longrightarrow> lookupFile t q = lookupFile s q \<or>
         (lookupFile s q = None \<and> fst q = runsDir st \<and> suffix tmpSuffix (snd q))))"

lemma refresh_refreshed:
  assumes "refresh nm pkg W st src s = ((res, err), t)"
  shows "refreshed nm pkg W st src res s t \<and> fsDirs t = fsDirs s \<and>
    (res = refreshMissing \<longrightarrow> snd (fst (LoadValidator st (Name src) s)) \<noteq> None)"
proof -
  let ?p = "(runsDir st, runFile (Name src))"
  obtain prev lerr s1 where lv: "LoadValidator st (Name src) s = ((prev, lerr), s1)" by (metis prod.collapse)
  have same: "lookupFile s1 q = lookupFile s q" "fsDirs s1 = fsDirs s" for q
    using LoadValidator_same [OF lv] by (cases q; simp add: same_files_def)+
  let ?prev = "knownValidator prev lerr (SrcFingerprint src)"
  from assms lv have "refreshFrom nm pkg W st src (lerr = None) ?prev s1 = ((res, err), t)"
    by (simp add: refresh_def)
  from refreshFrom_cases [OF this] show ?thesis
  proof (elim disjE exE conjE)
    assume "res \<noteq> refreshUpdated" "t = s1" "res = refreshMissing \<longrightarrow> \<not> lerr = None"
    then show ?thesis using same lv by (simp add: refreshed_def Let_def)
  next
    fix v entries e
    assume fc: "fresh_content nm pkg W src ?prev v entries"
      and w: "WriteRun st (Name src) v (toRecords entries) s1 = (e, t)"
      and ok: "e = None \<longrightarrow> res = refreshUpdated \<and> err = None"
      and no: "e \<noteq> None \<longrightarrow> res = refreshStale \<and> err \<noteq> None"
    note a = WriteRun_atomic [OF w]
    have other: "lookupFile t q = lookupFile s q \<or>
        (lookupFile s q = None \<and> fst q = runsDir st \<and> suffix tmpSuffix (snd q))" if "q \<noteq> ?p" for q
      using atomically_other [OF a that] same(1) [of q] by simp
    have dirs: "fsDirs t = fsDirs s" using a same(2) by (simp add: atomically_def)
    show ?thesis
    proof (cases e)
      case None
      with a fc ok dirs other show ?thesis
        unfolding refreshed_def Let_def by (auto simp: atomically_def)
    next
      case (Some x)
      then have "lookupFile t ?p = lookupFile s ?p" using a same(1) by (simp add: atomically_def)
      with Some no dirs other show ?thesis by (simp add: refreshed_def Let_def del: split_paired_All)
    qed
  qed
qed

section \<open>Records\<close>

text \<open>What \<open>toRecords\<close> makes of an entry is a proper rule when its name has a key.\<close>

lemma toRecord_mode: "Mode (toRecord e) = MatchExact \<or> Mode (toRecord e) = MatchPrefix"
  by (simp add: toRecord_def)

lemma toRecord_key: "Key (toRecord e) = ReverseLabels (Domain e)"
  by (simp add: toRecord_def)

section \<open>Properties\<close>


definition demo_regexp :: "bytes regexpPkg" where
  "demo_regexp = \<lparr>reCompile = (\<lambda>p. Inr p), reMatch = (\<lambda>re s. prefix re s), reReplace = (\<lambda>re s t. t)\<rparr>"

definition demo_source :: "bytes Source" where
  "demo_source = \<lparr>Name = ''hosts'', SrcAction = ActionRemap, SrcParser = PlainParser True, SrcFilter = Some [''ads''],
     SrcPrune = False, SrcFingerprint = ''f'', SrcFetcher = fileFetcher ''/etc/hosts.txt''\<rparr>"

definition demo_lines :: "bytes list" where
  "demo_lines = [''# hosts'', ''example.com'', '''', ''ads.net'']"

definition demo_world :: world where
  "demo_world = \<lparr>urlParse = (\<lambda>u. Inl (Err ''no url'')), osStat = (\<lambda>p. Inr (7, 9)),
     osOpen = (\<lambda>p. Inr \<lparr>rest = unlines demo_lines, atEnd = EOF\<rparr>), httpNewRequest = (\<lambda>u. None),
     httpDo = (\<lambda>u h. Inl (Err ''no route'')), gzipReader = (\<lambda>r. Inl (Err ''no gzip''))\<rparr>"

lemma plain_demo: "plain ''example.com''" "plain ''ads.net''"
  by (simp_all add: plain_def plainByte_def)

lemma TrimSpace_plain: "plain d \<Longrightarrow> TrimSpace d = d"
proof -
  assume d: "plain d"
  have b: "of_char c < (128 :: nat) \<and> \<not> spaceByte c" if "c \<in> set d" for c
  proof -
    have "plainByte c" using d that by (simp add: plain_def list_all_iff)
    then have "plainByte (lowerByte c)" by (simp add: plainByte_lower)
    then show ?thesis using plain_raw by simp
  qed
  then have "isASCII d" by (simp add: isASCII_def list_all_iff)
  moreover have "d \<noteq> []" using d by (simp add: plain_def)
  then have "trimBoth spaceByte ([] @ d @ []) = d"
    using b by (intro trimBoth_pad) simp_all
  ultimately show ?thesis by (simp add: TrimSpace_ascii)
qed

lemma NormalizeDomain_plain: "plain d \<Longrightarrow> NormalizeDomain nm d = d"
proof -
  assume d: "plain d"
  then have "map lowerByte d = d" by (intro map_idI) (simp add: plain_def list_all_iff plainByte_lower)
  with NormalizeDomain_spelling [OF d this, of "[]" "[]" "[]" "[]" "[]"] show ?thesis by simp
qed

lemma demo_entries:
  "concat (map (lineEntry demo_names demo_regexp (Some [''ads'']) True) demo_lines) =
     [\<lparr>Domain = ''example.com'', Subdomains = True\<rparr>]"
proof -
  have "TrimSpace ''# hosts'' = ''# hosts''" "TrimSpace [] = []"
    by (simp_all add: TrimSpace_ascii isASCII_def trimBoth_def spaceByte_def)
  then show ?thesis
    using plain_demo by (simp add: demo_lines_def lineEntry_def dropCR_def TrimSpace_plain NormalizeDomain_plain
        Keep_def demo_regexp_def)
qed

lemma demo_line: "\<forall>l \<in> set demo_lines. line l"
  by (simp add: demo_lines_def line_def maxLineBytes_def)


text \<open>
  C16. A source never loses its last good rules: whatever its fetch, its content and the calls of
  the file system do, a refresh either replaces the run by the run of content that was fetched and
  parsed without an error and is not empty, or leaves the run as it was; it touches no other file, but
  for a temporary file that a failed write may leave behind. It reports the source as missing only when there was no readable run before.
\<close>

theorem source_last_good:
  assumes "refresh nm pkg W st src s = ((res, err), t)"
  shows "refreshed nm pkg W st src res s t \<and>
    (res = refreshMissing \<longrightarrow> snd (fst (LoadValidator st (Name src) s)) \<noteq> None)"
  using refresh_refreshed [OF assms] by blast

lemma demo_fetch:
  "fetch demo_world (SrcFetcher demo_source) noValidator =
     Inr \<lparr>NotModified = False, resValidator = noValidator\<lparr>MTime := 7, Size := 9\<rparr>,
       resReader = \<lparr>rest = unlines demo_lines, atEnd = EOF\<rparr>\<rparr>"
  by (simp add: demo_source_def demo_world_def fileFetch_def noValidator_def maybeGunzip_def gzipMagic_def
      unlines_def demo_lines_def)

lemma demo_refresh:
  "\<exists>t. refresh demo_names demo_regexp demo_world demo_store demo_source demo_fs = ((refreshUpdated, None), t)"
proof -
  have "writable (runsDir demo_store, runFile (Name demo_source)) demo_fs"
    by (rule demo_writable) (simp add: demo_store_def)
  from WriteRun_live [OF this] obtain t where
    "WriteRun demo_store (Name demo_source)
       (noValidator\<lparr>MTime := 7, Size := 9, Fingerprint := SrcFingerprint demo_source\<rparr>)
       (toRecords [\<lparr>Domain = ''example.com'', Subdomains = True\<rparr>]) demo_fs = (None, t)" by blast
  moreover have "LoadValidator demo_store (Name demo_source) demo_fs = ((noValidator, Some errNotExist), demo_fs)"
    by (simp add: LoadValidator_def openFile_def sysCall_def demo_fs_def lookupFile_def)
  moreover have "parse demo_names demo_regexp demo_source \<lparr>rest = unlines demo_lines, atEnd = EOF\<rparr> =
     ([\<lparr>Domain = ''example.com'', Subdomains = True\<rparr>], None)"
    using parse_unlines [of demo_source True demo_lines demo_names demo_regexp] demo_line demo_entries
    by (simp add: demo_source_def)
  ultimately show ?thesis
    by (simp add: refresh_def refreshFrom_def knownValidator_def demo_fetch)
qed

lemma source_last_good_witness:
  "\<exists>t. refresh demo_names demo_regexp demo_world demo_store demo_source demo_fs = ((refreshUpdated, None), t) \<and>
     refreshed demo_names demo_regexp demo_world demo_store demo_source refreshUpdated demo_fs t"
proof -
  from demo_refresh obtain t where
    r: "refresh demo_names demo_regexp demo_world demo_store demo_source demo_fs = ((refreshUpdated, None), t)"
    by blast
  from source_last_good [OF r] r show ?thesis by blast
qed

end
