(* ===== verification/Radix.thy ===== *)
theory Radix
  imports Lookup_Spec
begin

text \<open>
  The radix tree, \<open>src/server/router/matcher/radix.go\<close>. A node is a value of the datatype
  \<open>radixNode\<close>: nodes are not shared, so an update in place of a child is a new list of children.
  The prefixes of nodes share memory with the keys that were inserted, which nobody writes to. The type
  parameter \<open>T\<close> with its zero value is a type of the class \<open>zero\<close>. The buffer pool of \<open>Radix\<close>
  only saves allocations and is left out, so a \<open>Radix\<close> is its root.
\<close>

datatype 'a radixNode =
  Node (nprefix: bytes) (children: "(char \<times> 'a radixNode) list") (nmatch: matchMode) (nvalue: 'a)

section \<open>Searching the children\<close>

text \<open>\<open>slices.BinarySearchFunc\<close> of the Go standard library, and \<open>cmp.Compare\<close> on bytes.\<close>

function searchLoop :: "(nat \<Rightarrow> bool) \<Rightarrow> nat \<Rightarrow> nat \<Rightarrow> nat" where
  "searchLoop below i j =
     (if i < j then
        let h = (i + j) div 2
        in if below h then searchLoop below (h + 1) j else searchLoop below i h
      else i)"
  by pat_completeness auto
termination by (relation "measure (\<lambda>(below, i, j). j - i)") auto

declare searchLoop.simps [simp del]

definition BinarySearchFunc :: "'b list \<Rightarrow> 'c \<Rightarrow> ('b \<Rightarrow> 'c \<Rightarrow> int) \<Rightarrow> nat \<times> bool" where
  "BinarySearchFunc x target cmp =
     (let n = length x; i = searchLoop (\<lambda>h. cmp (x ! h) target < 0) 0 n
      in (i, i < n \<and> cmp (x ! i) target = 0))"

definition Compare :: "char \<Rightarrow> char \<Rightarrow> int" where
  "Compare a b = (if a < b then - 1 else if a > b then 1 else 0)"

definition searchChildren :: "(char \<times> 'a) list \<Rightarrow> char \<Rightarrow> nat \<times> bool" where
  "searchChildren cs c = BinarySearchFunc cs c (\<lambda>x u. Compare (fst x) u)"

text \<open>The loop that \<open>get\<close> uses on fewer than \<open>childrenLinearScanMax\<close> children.\<close>

function linearScan :: "(char \<times> 'a) list \<Rightarrow> char \<Rightarrow> nat \<Rightarrow> nat \<times> bool" where
  "linearScan cs c i =
     (if i < length cs then if fst (cs ! i) = c then (i, True) else linearScan cs c (i + 1)
      else (i, False))"
  by pat_completeness auto
termination by (relation "measure (\<lambda>(cs, c, i). length cs - i)") auto

declare linearScan.simps [simp del]

definition childrenLinearScanMax :: nat where
  "childrenLinearScanMax = 8"

lemma Compare_simps [simp]: "Compare a b < 0 \<longleftrightarrow> a < b" "Compare a b = 0 \<longleftrightarrow> a = b"
  by (auto simp: Compare_def)

section \<open>Operations\<close>

text \<open>\<open>commonPrefixLen\<close>, with its loop on the index \<open>i\<close>.\<close>

function commonLoop :: "bytes \<Rightarrow> bytes \<Rightarrow> nat \<Rightarrow> nat \<Rightarrow> nat" where
  "commonLoop a b n i = (if i < n \<and> a ! i = b ! i then commonLoop a b n (i + 1) else i)"
  by pat_completeness auto
termination by (relation "measure (\<lambda>(a, b, n, i). n - i)") auto

declare commonLoop.simps [simp del]

definition commonPrefixLen :: "bytes \<Rightarrow> bytes \<Rightarrow> nat" where
  "commonPrefixLen a b = (let n = min (length a) (length b) in commonLoop a b n 0)"

definition insertChildAt :: "nat \<Rightarrow> char \<Rightarrow> 'a radixNode \<Rightarrow> (char \<times> 'a radixNode) list \<Rightarrow> (char \<times> 'a radixNode) list"
where
  "insertChildAt i k ch cs = take i cs @ (k, ch) # drop i cs"

lemma commonLoop_spec:
  "i \<le> n \<Longrightarrow> n \<le> length a \<Longrightarrow> n \<le> length b \<Longrightarrow> take i a = take i b \<Longrightarrow>
     commonLoop a b n i \<le> n \<and> take (commonLoop a b n i) a = take (commonLoop a b n i) b \<and>
     (commonLoop a b n i < n \<longrightarrow> a ! commonLoop a b n i \<noteq> b ! commonLoop a b n i)"
proof (induction a b n i rule: commonLoop.induct)
  case (1 a b n i)
  show ?case
  proof (cases "i < n \<and> a ! i = b ! i")
    case True
    then have e: "commonLoop a b n i = commonLoop a b n (i + 1)" by (subst commonLoop.simps) simp
    have "take (i + 1) a = take (i + 1) b"
      using True "1.prems" by (simp add: take_Suc_conv_app_nth)
    with "1.IH" [OF True] True "1.prems" show ?thesis unfolding e by simp
  next
    case False
    then have "commonLoop a b n i = i" by (subst commonLoop.simps) (rule if_not_P)
    with False "1.prems" show ?thesis by auto
  qed
qed

lemma commonPrefixLen_spec:
  "commonPrefixLen a b \<le> length a \<and> commonPrefixLen a b \<le> length b \<and>
   take (commonPrefixLen a b) a = take (commonPrefixLen a b) b \<and>
   (commonPrefixLen a b < length a \<longrightarrow> commonPrefixLen a b < length b \<longrightarrow>
      a ! commonPrefixLen a b \<noteq> b ! commonPrefixLen a b)"
  using commonLoop_spec [of 0 "min (length a) (length b)" a b] by (simp add: commonPrefixLen_def Let_def)

lemma size_child: "(c, ch) \<in> set cs \<Longrightarrow> size ch < size (Node p cs m v)"
  by (induction cs) auto

lemma size_nth_child: "i < length (children n) \<Longrightarrow> size (snd (children n ! i)) < size n"
  using size_child [of "fst (children n ! i)" "snd (children n ! i)"] by (cases n) auto

lemma searchChildren_found: "searchChildren cs c = (i, True) \<Longrightarrow> i < length cs \<and> fst (cs ! i) = c"
  by (auto simp: searchChildren_def BinarySearchFunc_def Let_def)

lemma linearScan_found: "linearScan cs c i = (j, True) \<Longrightarrow> j < length cs"
  by (induction cs c i rule: linearScan.induct)
    (subst (asm) (2) linearScan.simps, simp split: if_splits)

text \<open>
  \<open>insert\<close>. It ends on any node, also on one that breaks the tree's invariant: after a split the
  only child's key differs from the next byte, so the call after a split that consumes no byte
  does not descend.
\<close>

function insertNode :: "bytes \<Rightarrow> 'a::zero \<Rightarrow> matchMode \<Rightarrow> 'a radixNode \<Rightarrow> 'a radixNode" where
  "insertNode s val mode n =
     (if s = [] then Node (nprefix n) (children n) mode val
      else let c = s ! 0 in
        case searchChildren (children n) c of
          (i, False) \<Rightarrow>
            Node (nprefix n) (insertChildAt i c (Node s [] mode val) (children n)) (nmatch n) (nvalue n)
        | (i, True) \<Rightarrow>
            let ch = snd (children n ! i); cl = commonPrefixLen (nprefix ch) s;
                ch' =
                  (if cl = length (nprefix ch) then insertNode (drop cl s) val mode ch
                   else if cl < length (nprefix ch) \<and> cl < length s then
                     let split = Node (drop cl (nprefix ch)) (children ch) (nmatch ch) (nvalue ch)
                     in insertNode (drop cl s) val mode
                          (Node (take cl (nprefix ch)) [(nprefix split ! 0, split)] MatchNone 0)
                   else if cl = length s then
                     let rest = drop cl (nprefix ch)
                     in if rest = [] then Node (nprefix ch) (children ch) mode val
                        else let newChild = Node rest (children ch) (nmatch ch) (nvalue ch)
                             in Node (take cl (nprefix ch)) [(nprefix newChild ! 0, newChild)] mode val
                   else ch)
            in Node (nprefix n) ((children n)[i := (fst (children n ! i), ch')]) (nmatch n) (nvalue n))"
  by pat_completeness auto
termination
proof (relation "measures [\<lambda>(s, val, mode, n). length s,
    \<lambda>(s, val, mode, n). if s \<noteq> [] \<and> snd (searchChildren (children n) (s ! 0)) then Suc (size n) else 0]",
    goal_cases)
  case 1
  show ?case by simp
next
  case (2 s val mode n c i ok ch cl)
  then have f: "searchChildren (children n) (s ! 0) = (i, True)" by simp
  then have "size ch < size n" using searchChildren_found [OF f] size_nth_child [of i n] 2 by simp
  then show ?case using 2 f by auto
next
  case (3 s val mode n c i ok ch cl split)
  then have f: "searchChildren (children n) (s ! 0) = (i, True)" by simp
  have "nprefix ch ! cl \<noteq> s ! cl" using commonPrefixLen_spec [of "nprefix ch" s] 3 by auto
  then have "\<not> snd (searchChildren [(nprefix split ! 0, split)] (drop cl s ! 0))"
    using 3 by (auto simp: searchChildren_def BinarySearchFunc_def Let_def)
  then show ?case using 3 f by auto
qed

declare insertNode.simps [simp del]

definition NewRadix :: "'a::zero radixNode" where
  "NewRadix = Node [] [] 0 0"

definition InsertReversed :: "bytes \<Rightarrow> 'a::zero \<Rightarrow> matchMode \<Rightarrow> 'a radixNode \<Rightarrow> 'a radixNode" where
  "InsertReversed revKey val mode r = (if length revKey = 0 then r else insertNode revKey val mode r)"

text \<open>\<open>get\<close>: \<open>bestVal\<close> and \<open>bestOk\<close> are the best match so far.\<close>

function getNode :: "'a radixNode \<Rightarrow> bytes \<Rightarrow> 'a \<Rightarrow> bool \<Rightarrow> 'a \<times> bool" where
  "getNode n s bestVal bestOk =
     (if length s = 0 then (if nmatch n = MatchExact then (nvalue n, True) else (bestVal, bestOk))
      else
        case (if length (children n) < childrenLinearScanMax then linearScan (children n) (s ! 0) 0
              else searchChildren (children n) (s ! 0)) of
          (i, False) \<Rightarrow> (bestVal, bestOk)
        | (i, True) \<Rightarrow>
            let ch = snd (children n ! i); p = nprefix ch
            in if length s \<ge> length p \<and> prefix p s then
                 let (bestVal, bestOk) =
                       (if nmatch ch = MatchPrefix \<and> (length s = length p \<or> s ! length p = CHR ''.'')
                        then (nvalue ch, True) else (bestVal, bestOk))
                 in if length s = length p then
                      (if nmatch ch = MatchExact then (nvalue ch, True) else (bestVal, bestOk))
                    else getNode ch (drop (length p) s) bestVal bestOk
               else (bestVal, bestOk))"
  by pat_completeness auto

termination
proof (relation "measure (\<lambda>(n, s, bestVal, bestOk). size n)", goal_cases)
  case (2 n s bestVal bestOk i ok ch p)
  then have "i < length (children n)"
    using searchChildren_found [of "children n" "s ! 0" i] linearScan_found [of "children n" "s ! 0" 0 i]
    by (simp split: if_splits)
  with 2 show ?case using size_nth_child [of i n] by simp
qed simp

declare getNode.simps [simp del]

definition Get :: "'a::zero radixNode \<Rightarrow> bytes \<Rightarrow> 'a \<times> bool" where
  "Get r key =
     (let zero = 0
      in if key = [] then (zero, False) else getNode r (reverseLabelsInto [] key) zero False)"

text \<open>The binary search ends at the first index that is not below the target.\<close>

lemma searchLoop_first:
  assumes "\<And>a b. a \<le> b \<Longrightarrow> b < n \<Longrightarrow> below b \<Longrightarrow> below a" and "i \<le> j" and "j \<le> n"
    and "\<And>a. a < i \<Longrightarrow> below a" and "\<And>a. j \<le> a \<Longrightarrow> a < n \<Longrightarrow> \<not> below a"
  shows "searchLoop below i j \<le> n \<and> (\<forall>a < searchLoop below i j. below a) \<and>
    (\<forall>a. searchLoop below i j \<le> a \<longrightarrow> a < n \<longrightarrow> \<not> below a)"
  using assms(2-5)
proof (induction "j - i" arbitrary: i j rule: less_induct)
  case less
  show ?case
  proof (cases "i < j")
    case True
    let ?h = "(i + j) div 2"
    have h: "i \<le> ?h" "?h < j" "?h < n" using True less.prems(2) by auto
    show ?thesis
    proof (cases "below ?h")
      case True
      have "below a" if "a < ?h + 1" for a using assms(1) [of a ?h] that True h by simp
      then have "searchLoop below (?h + 1) j \<le> n \<and> (\<forall>a < searchLoop below (?h + 1) j. below a) \<and>
          (\<forall>a. searchLoop below (?h + 1) j \<le> a \<longrightarrow> a < n \<longrightarrow> \<not> below a)"
        using h less.prems by (intro less.hyps) auto
      with True \<open>i < j\<close> show ?thesis by (subst (1 2 3) searchLoop.simps) simp
    next
      case False
      have "\<not> below a" if "?h \<le> a" "a < n" for a using assms(1) [of ?h a] that False by blast
      then have "searchLoop below i ?h \<le> n \<and> (\<forall>a < searchLoop below i ?h. below a) \<and>
          (\<forall>a. searchLoop below i ?h \<le> a \<longrightarrow> a < n \<longrightarrow> \<not> below a)"
        using h less.prems by (intro less.hyps) auto
      with False \<open>i < j\<close> show ?thesis by (subst (1 2 3) searchLoop.simps) simp
    qed
  next
    case False
    with less.prems show ?thesis by (subst (1 2 3) searchLoop.simps) auto
  qed
qed

text \<open>On children with ascending keys both searches find the child of the key, or its place.\<close>

lemma searchChildren_split:
  assumes "sorted_wrt (<) (map fst cs)" and "searchChildren cs c = (i, ok)"
  shows "i \<le> length cs \<and> (\<forall>x \<in> set (take i cs). fst x < c) \<and>
    (if ok then i < length cs \<and> fst (cs ! i) = c \<and> (\<forall>x \<in> set (drop (Suc i) cs). c < fst x)
     else (\<forall>x \<in> set (drop i cs). c < fst x))"
proof -
  let ?below = "\<lambda>h. fst (cs ! h) < c"
  have less: "fst (cs ! a) < fst (cs ! b)" if "a < b" "b < length cs" for a b
    using assms(1) that by (simp add: sorted_wrt_iff_nth_less)
  have i: "i = searchLoop ?below 0 (length cs)" and ok: "ok \<longleftrightarrow> i < length cs \<and> fst (cs ! i) = c"
    using assms(2)
    by (auto simp: searchChildren_def BinarySearchFunc_def Let_def)
  have s: "i \<le> length cs \<and> (\<forall>a < i. ?below a) \<and> (\<forall>a. i \<le> a \<longrightarrow> a < length cs \<longrightarrow> \<not> ?below a)"
    unfolding i using less by (intro searchLoop_first) (auto simp: le_less intro: less_trans)
  have "fst x < c" if "x \<in> set (take i cs)" for x
    using that s by (auto simp: in_set_conv_nth)
  moreover have "c < fst x" if "x \<in> set (drop (Suc i) cs)" "fst (cs ! i) = c" for x
    using that less [of i] by (auto simp: in_set_conv_nth)
  moreover have "c < fst x" if x: "x \<in> set (drop i cs)" and "\<not> ok" for x
  proof -
    from x obtain a where a: "x = cs ! (i + a)" "i + a < length cs" by (auto simp: in_set_conv_nth)
    then have ge: "c \<le> fst (cs ! i)" using s by (simp add: not_less)
    with \<open>\<not> ok\<close> a(2) have "c < fst (cs ! i)" unfolding ok by simp
    with a less [of i "i + a"] show ?thesis by (cases a) auto
  qed
  ultimately show ?thesis using s ok by auto
qed

text \<open>Children around a key, and both searches in terms of \<^const>\<open>map_of\<close>.\<close>

lemma searchChildren_cases:
  assumes "sorted_wrt (<) (map fst cs)"
  obtains (found) xs x ys where "cs = xs @ (c, x) # ys" and "searchChildren cs c = (length xs, True)" and
      "c \<notin> fst ` set xs" and "c \<notin> fst ` set ys" and "map_of cs c = Some x"
  | (absent) xs ys where "cs = xs @ ys" and "searchChildren cs c = (length xs, False)" and
      "\<forall>x \<in> set xs. fst x < c" and "\<forall>x \<in> set ys. c < fst x" and "map_of cs c = None"
proof -
  obtain i ok where s: "searchChildren cs c = (i, ok)" by force
  note split = searchChildren_split [OF assms s]
  show ?thesis
  proof (cases ok)
    case True
    with split have "i < length cs" and c: "fst (cs ! i) = c"
      and lt: "\<forall>x \<in> set (take i cs). fst x < c" "\<forall>x \<in> set (drop (Suc i) cs). c < fst x" by simp_all
    then have cs: "cs = take i cs @ (c, snd (cs ! i)) # drop (Suc i) cs"
      by (metis id_take_nth_drop prod.collapse)
    have n: "c \<notin> fst ` set (take i cs)" "c \<notin> fst ` set (drop (Suc i) cs)" using lt by auto
    then have "map_of (take i cs) c = None" by (simp add: map_of_eq_None_iff)
    then have "map_of cs c = Some (snd (cs ! i))" by (subst cs) (simp add: map_add_Some_iff)
    moreover have "searchChildren cs c = (length (take i cs), True)" using s True \<open>i < length cs\<close> by simp
    ultimately show ?thesis using found [OF cs _ n] by blast
  next
    case False
    with split have le: "i \<le> length cs"
      and lt: "\<forall>x \<in> set (take i cs). fst x < c" "\<forall>x \<in> set (drop i cs). c < fst x" by simp_all
    have "fst ` set cs = fst ` set (take i cs) \<union> fst ` set (drop i cs)"
      by (metis append_take_drop_id image_Un set_append)
    then have "c \<notin> fst ` set cs" using lt by auto
    then have "map_of cs c = None" by (simp add: map_of_eq_None_iff)
    moreover have "searchChildren cs c = (length (take i cs), False)" using s False le by simp
    ultimately show ?thesis using absent [of "take i cs" "drop i cs", OF _ _ lt] by simp
  qed
qed

lemma linearScan_map_of:
  "linearScan cs c i = (j, ok) \<Longrightarrow> i \<le> length cs \<Longrightarrow>
     (if ok then map_of (drop i cs) c = Some (snd (cs ! j)) else map_of (drop i cs) c = None)"
proof (induction cs c i rule: linearScan.induct)
  case (1 cs c i)
  show ?case
  proof (cases "i < length cs")
    case True
    then have d: "drop i cs = cs ! i # drop (Suc i) cs" by (simp add: Cons_nth_drop_Suc)
    have e: "linearScan cs c i = (if fst (cs ! i) = c then (i, True) else linearScan cs c (i + 1))"
      using True by (subst linearScan.simps) simp
    show ?thesis
    proof (cases "fst (cs ! i) = c")
      case True
      with "1.prems"(1) e have "j = i \<and> ok" by simp
      with True show ?thesis by (cases "cs ! i") (simp add: d)
    next
      case False
      with "1.IH" \<open>i < length cs\<close> "1.prems" e show ?thesis by (cases "cs ! i") (simp add: d split: if_splits)
    qed
  next
    case False
    with "1.prems" show ?thesis by (subst (asm) linearScan.simps) auto
  qed
qed

section \<open>The tree as a table of rules\<close>

text \<open>
  \<open>wfn\<close>: the keys of the children ascend, and each is the first byte of its child's prefix.
  \<open>entry n k\<close> is the rule that the subtree \<open>n\<close> has at the key \<open>k\<close> (after the prefix of \<open>n\<close>),
  and \<open>child_entry ch k\<close> the one that its child has at \<open>k\<close>, prefix of the child included.
\<close>

fun wfn :: "'a radixNode \<Rightarrow> bool" where
  "wfn (Node p cs m v) \<longleftrightarrow> sorted_wrt (<) (map fst cs) \<and>
     (\<forall>x \<in> set cs. nprefix (snd x) \<noteq> [] \<and> nprefix (snd x) ! 0 = fst x \<and> wfn (snd x))"

definition rule_at :: "'a radixNode \<Rightarrow> (matchMode \<times> 'a) option" where
  "rule_at n = (if nmatch n = MatchExact \<or> nmatch n = MatchPrefix then Some (nmatch n, nvalue n) else None)"

lemma map_of_child: "map_of (children n) c = Some ch \<Longrightarrow> size ch < size n"
  using size_child [of c ch "children n"] map_of_SomeD by (cases n) fastforce

function entry :: "'a radixNode \<Rightarrow> 'a rules" where
  "entry n s =
     (if s = [] then rule_at n
      else case map_of (children n) (s ! 0) of
        None \<Rightarrow> None
      | Some ch \<Rightarrow> if prefix (nprefix ch) s then entry ch (drop (length (nprefix ch)) s) else None)"
  by pat_completeness auto
termination by (relation "measure (\<lambda>(n, s). size n)") (auto simp: map_of_child)

declare entry.simps [simp del]

definition child_entry :: "'a radixNode \<Rightarrow> 'a rules" where
  "child_entry ch s = (if prefix (nprefix ch) s then entry ch (drop (length (nprefix ch)) s) else None)"

lemma entry_Nil: "entry n [] = rule_at n"
  by (simp add: entry.simps)

lemma entry_child:
  "s \<noteq> [] \<Longrightarrow> entry n s =
     (case map_of (children n) (s ! 0) of None \<Rightarrow> None | Some ch \<Rightarrow> child_entry ch s)"
  by (subst entry.simps) (simp add: child_entry_def split: option.split)

lemma entry_cong: "children n = children n' \<Longrightarrow> s \<noteq> [] \<Longrightarrow> entry n s = entry n' s"
  by (simp add: entry_child)

lemma entry_of_cong:
  "children n = children n' \<Longrightarrow> nmatch n = nmatch n' \<Longrightarrow> nvalue n = nvalue n' \<Longrightarrow> entry n s = entry n' s"
  using entry_cong [of n n' s] by (cases "s = []") (simp_all add: entry_Nil rule_at_def)

lemma child_entry_append: "child_entry ch (nprefix ch @ t) = entry ch t"
  by (simp add: child_entry_def)

lemma wfn_children: "wfn n \<Longrightarrow> sorted_wrt (<) (map fst (children n))"
  by (cases n) simp

lemma wfn_child:
  "wfn n \<Longrightarrow> map_of (children n) c = Some ch \<Longrightarrow> nprefix ch \<noteq> [] \<and> nprefix ch ! 0 = c \<and> wfn ch"
  by (cases n) (auto dest!: map_of_SomeD)

section \<open>Insertion\<close>

text \<open>
  What \<open>insert\<close> does below a node: a new child, or an existing child that is replaced by one with
  the same key. \<open>descend\<close> is the replaced child.
\<close>

definition splitChild :: "nat \<Rightarrow> 'a radixNode \<Rightarrow> matchMode \<Rightarrow> 'a \<Rightarrow> 'a radixNode" where
  "splitChild cl ch m v = Node (take cl (nprefix ch))
     [(nprefix ch ! cl, Node (drop cl (nprefix ch)) (children ch) (nmatch ch) (nvalue ch))] m v"

definition descend :: "bytes \<Rightarrow> 'a::zero \<Rightarrow> matchMode \<Rightarrow> 'a radixNode \<Rightarrow> 'a radixNode" where
  "descend s val mode ch =
     (let cl = commonPrefixLen (nprefix ch) s
      in if cl = length (nprefix ch) then insertNode (drop cl s) val mode ch
         else if cl < length s then insertNode (drop cl s) val mode (splitChild cl ch MatchNone 0)
         else splitChild cl ch mode val)"

lemma insertNode_Nil: "insertNode [] val mode n = Node (nprefix n) (children n) mode val"
  by (simp add: insertNode.simps)

lemma insertNode_absent:
  "s \<noteq> [] \<Longrightarrow> searchChildren (children n) (s ! 0) = (i, False) \<Longrightarrow>
     insertNode s val mode n =
       Node (nprefix n) (insertChildAt i (s ! 0) (Node s [] mode val) (children n)) (nmatch n) (nvalue n)"
  by (subst insertNode.simps) (simp add: Let_def)

lemma insertNode_found:
  assumes "s \<noteq> []" and "searchChildren (children n) (s ! 0) = (i, True)"
  shows "insertNode s val mode n = Node (nprefix n)
    ((children n)[i := (s ! 0, descend s val mode (snd (children n ! i)))]) (nmatch n) (nvalue n)"
  using assms searchChildren_found [OF assms(2)] commonPrefixLen_spec [of "nprefix (snd (children n ! i))" s]
  by (subst insertNode.simps) (auto simp: Let_def descend_def splitChild_def)

lemma nprefix_insertNode [simp]: "nprefix (insertNode s val mode n) = nprefix n"
proof (cases "s = []")
  case False
  obtain i ok where "searchChildren (children n) (s ! 0) = (i, ok)" by force
  with False show ?thesis by (cases ok) (simp_all add: insertNode_absent insertNode_found)
qed (simp add: insertNode_Nil)

text \<open>Splitting a child's prefix changes no rule but the one at the split.\<close>

lemma split_entry:
  assumes "0 < cl" and "cl < length (nprefix ch)"
  shows "child_entry (splitChild cl ch m v) k =
    (if k = take cl (nprefix ch) then rule_at (splitChild cl ch m v) else child_entry ch k)"
proof -
  let ?p = "nprefix ch"
  have p: "?p = take cl ?p @ drop cl ?p" by simp
  show ?thesis
  proof (cases "prefix (take cl ?p) k")
    case False
    then have "\<not> prefix ?p k" using p by (metis append_prefixD)
    with False show ?thesis by (auto simp: child_entry_def splitChild_def)
  next
    case True
    then obtain t where k: "k = take cl ?p @ t" by (auto elim: prefixE)
    have len: "length (take cl ?p) = cl" using assms(2) by simp
    have e: "child_entry (splitChild cl ch m v) k = entry (splitChild cl ch m v) t"
      using child_entry_append [of "splitChild cl ch m v" t] by (simp add: k splitChild_def)
    show ?thesis
    proof (cases "t = []")
      case True
      then show ?thesis using e k by (simp add: entry_Nil)
    next
      case False
      have pre: "prefix ?p k \<longleftrightarrow> prefix (drop cl ?p) t"
        by (subst p) (simp only: k same_prefix_prefix)
      have drop: "drop (length ?p) k = drop (length (drop cl ?p)) t"
        using assms(2) by (simp add: k)
      have "entry (splitChild cl ch m v) t = child_entry ch k"
      proof (cases "t ! 0 = ?p ! cl")
        case True
        then show ?thesis using False
          by (auto simp: entry_child splitChild_def child_entry_def pre drop intro: entry_of_cong)
      next
        case ne: False
        have "\<not> prefix (drop cl ?p) t"
        proof
          assume "prefix (drop cl ?p) t"
          then obtain u where "t = drop cl ?p @ u" by (auto elim: prefixE)
          then have "t ! 0 = ?p ! cl" using assms(2) by (simp add: nth_append)
          with ne show False by simp
        qed
        with ne False show ?thesis by (simp add: entry_child splitChild_def child_entry_def pre)
      qed
      with False k e show ?thesis by simp
    qed
  qed
qed

lemma split_keeps:
  assumes "0 < cl" and "cl < length (nprefix ch)"
  shows "child_entry (splitChild cl ch MatchNone 0) k = child_entry ch k"
proof -
  have "\<not> prefix (nprefix ch) (take cl (nprefix ch))"
    using assms(2) prefix_length_le [of "nprefix ch" "take cl (nprefix ch)"] by auto
  then have "child_entry ch (take cl (nprefix ch)) = None" by (simp add: child_entry_def)
  moreover have "rule_at (splitChild cl ch MatchNone 0) = None"
    by (simp add: splitChild_def rule_at_def)
  ultimately show ?thesis by (simp add: split_entry [OF assms])
qed

lemma wfn_cong: "children n = children n' \<Longrightarrow> wfn n \<longleftrightarrow> wfn n'"
  by (cases n; cases n') simp

lemma split_wfn:
  assumes "cl < length (nprefix ch)" and "wfn ch"
  shows "wfn (splitChild cl ch m v)"
proof -
  have "wfn (Node (drop cl (nprefix ch)) (children ch) (nmatch ch) (nvalue ch))"
    using assms(2) by (subst wfn_cong [of _ ch]) simp_all
  then show ?thesis using assms(1) by (simp add: splitChild_def)
qed

text \<open>The rule that an insertion puts at its key.\<close>

definition rule_for :: "matchMode \<Rightarrow> 'a \<Rightarrow> (matchMode \<times> 'a) option" where
  "rule_for mode val = (if mode = MatchExact \<or> mode = MatchPrefix then Some (mode, val) else None)"

lemma rule_at_Node [simp]: "rule_at (Node p cs m v) = rule_for m v"
  by (simp add: rule_at_def rule_for_def)

lemma nprefix_split [simp]: "nprefix (splitChild cl ch m v) = take cl (nprefix ch)"
  by (simp add: splitChild_def)

lemma leaf_entry: "child_entry (Node s [] mode val) k = (if k = s then rule_for mode val else None)"
proof (cases "prefix s k")
  case True
  then obtain t where k: "k = s @ t" by (auto elim: prefixE)
  then show ?thesis by (cases "t = []") (simp_all add: child_entry_def entry_Nil entry_child)
qed (auto simp: child_entry_def)

lemma child_entry_insert:
  assumes "\<And>k. entry (insertNode t val mode n) k = (if k = t then r else entry n k)"
  shows "child_entry (insertNode t val mode n) k = (if k = nprefix n @ t then r else child_entry n k)"
proof (cases "prefix (nprefix n) k")
  case True
  then obtain u where "k = nprefix n @ u" by (auto elim: prefixE)
  with assms show ?thesis by (simp add: child_entry_def)
qed (auto simp: child_entry_def)

lemma map_of_replace:
  assumes "c \<notin> fst ` set xs"
  shows "map_of (xs @ (c, x) # ys) k = (if k = c then Some x else map_of (xs @ ys) k)"
proof -
  have "map_of xs c = None" using assms by (simp add: map_of_eq_None_iff)
  then show ?thesis by (auto simp: map_add_def split: option.splits)
qed

lemma descend_spec:
  assumes ih: "\<And>t n. length t < length s \<Longrightarrow> wfn n \<Longrightarrow> wfn (insertNode t val mode n) \<and>
      (\<forall>k. entry (insertNode t val mode n) k = (if k = t then rule_for mode val else entry n k))"
    and "wfn ch" and "nprefix ch \<noteq> []" and "s \<noteq> []" and "nprefix ch ! 0 = s ! 0"
  shows "wfn (descend s val mode ch) \<and> nprefix (descend s val mode ch) \<noteq> [] \<and>
    nprefix (descend s val mode ch) ! 0 = s ! 0 \<and>
    (\<forall>k. child_entry (descend s val mode ch) k = (if k = s then rule_for mode val else child_entry ch k))"
proof -
  let ?p = "nprefix ch" and ?cl = "commonPrefixLen (nprefix ch) s"
  note cp = commonPrefixLen_spec [of ?p s]
  have pos: "0 < ?cl" using cp assms(3-5) by (cases "?cl = 0") auto
  have s: "take ?cl ?p @ drop ?cl s = s" using cp by simp
  have t: "length (drop ?cl s) < length s" using pos assms(4) by simp
  consider (down) "?cl = length ?p" | (split) "?cl < length ?p" "?cl < length s"
    | (stop) "?cl < length ?p" "?cl = length s"
    using cp by linarith
  then show ?thesis
  proof cases
    case down
    then have d: "descend s val mode ch = insertNode (drop ?cl s) val mode ch"
      by (simp add: descend_def Let_def)
    have sp: "?p @ drop ?cl s = s" using s down by simp
    show ?thesis
      using ih [OF t assms(2)] child_entry_insert [of "drop ?cl s" val mode ch] assms(3,5) unfolding d sp
      by simp
  next
    case split
    let ?n = "splitChild ?cl ch MatchNone 0"
    have d: "descend s val mode ch = insertNode (drop ?cl s) val mode ?n"
      using split by (simp add: descend_def Let_def)
    have w: "wfn ?n" by (rule split_wfn [OF split(1) assms(2)])
    have e: "child_entry ?n k = child_entry ch k" for k by (rule split_keeps [OF pos split(1)])
    have sp: "nprefix ?n @ drop ?cl s = s" using s by simp
    have "child_entry (insertNode (drop ?cl s) val mode ?n) k =
        (if k = s then rule_for mode val else child_entry ch k)" for k
      using child_entry_insert [of "drop ?cl s" val mode ?n "rule_for mode val" k] ih [OF t w]
      unfolding sp e by simp
    moreover have "take ?cl ?p \<noteq> []" "take ?cl ?p ! 0 = s ! 0" using pos assms(3,5) by auto
    ultimately show ?thesis using ih [OF t w] unfolding d by simp
  next
    case stop
    then have d: "descend s val mode ch = splitChild ?cl ch mode val"
      by (simp add: descend_def Let_def)
    have sp: "take ?cl ?p = s" using s stop by simp
    show ?thesis
      unfolding d using split_wfn [OF stop(1) assms(2)] split_entry [OF pos stop(1)] assms(4)
      by (simp add: sp) (simp add: splitChild_def)
  qed
qed

lemma insertNode_entry:
  "wfn n \<Longrightarrow> wfn (insertNode s val mode n) \<and>
     (\<forall>k. entry (insertNode s val mode n) k = (if k = s then rule_for mode val else entry n k))"
proof (induction "length s" arbitrary: s n rule: less_induct)
  case less
  let ?n = "insertNode s val mode n"
  show ?case
  proof (cases "s = []")
    case True
    have "wfn ?n = wfn n" using True by (intro wfn_cong) (simp add: insertNode_Nil)
    moreover have "entry ?n k = entry n k" if "k \<noteq> []" for k
      using that True by (intro entry_cong) (simp_all add: insertNode_Nil)
    ultimately show ?thesis using less.prems True by (simp add: entry_Nil insertNode_Nil)
  next
    case False
    have w: "\<forall>x \<in> set (children n). nprefix (snd x) \<noteq> [] \<and> nprefix (snd x) ! 0 = fst x \<and> wfn (snd x)"
      and srt: "sorted_wrt (<) (map fst (children n))" using less.prems by (cases n, simp)+
    have Nil: "entry ?n [] = entry n []"
      by (cases "snd (searchChildren (children n) (s ! 0))"; cases "searchChildren (children n) (s ! 0)")
        (simp_all add: insertNode_absent insertNode_found False entry_Nil rule_at_def)
    from srt show ?thesis
    proof (cases rule: searchChildren_cases [of "children n" "s ! 0"])
      case (found xs x ys)
      let ?x = "descend s val mode x"
      have cs: "children ?n = xs @ (s ! 0, ?x) # ys"
        using found(1) insertNode_found [OF False found(2)] by simp
      have "wfn x" "nprefix x \<noteq> []" "nprefix x ! 0 = s ! 0" using w found(1) by auto
      note d = descend_spec [OF less.hyps this(1,2) False this(3)]
      have "wfn ?n" using d w srt found(1) cs by (cases ?n) auto
      moreover have "entry ?n k = (if k = s then rule_for mode val else entry n k)" if "k \<noteq> []" for k
        using that d False
        by (auto simp: entry_child cs found(1) map_of_replace [OF found(3)] simp del: map_of_append)
      ultimately show ?thesis using Nil False by metis
    next
      case (absent xs ys)
      let ?x = "Node s [] mode val"
      have cs: "children ?n = xs @ (s ! 0, ?x) # ys"
        using absent(1) insertNode_absent [OF False absent(2)] by (simp add: insertChildAt_def)
      have no: "s ! 0 \<notin> fst ` set xs" using absent(3) by auto
      have "wfn ?n" using w srt absent(1,3,4) cs False by (cases ?n) (auto simp: sorted_wrt_append)
      moreover have "entry ?n k = (if k = s then rule_for mode val else entry n k)" if "k \<noteq> []" for k
        using that False absent(5)
        by (auto simp: entry_child cs absent(1) map_of_replace [OF no] leaf_entry simp del: map_of_append
            split: option.split)
      ultimately show ?thesis using Nil False by metis
    qed
  qed
qed

section \<open>Lookup\<close>

text \<open>Both ways to search the children give the child of the next byte.\<close>

lemma find_child:
  assumes "wfn n"
    and "(if length (children n) < childrenLinearScanMax then linearScan (children n) c 0
          else searchChildren (children n) c) = (i, ok)"
  shows "map_of (children n) c = (if ok then Some (snd (children n ! i)) else None)"
proof (cases "length (children n) < childrenLinearScanMax")
  case True
  with assms(2) linearScan_map_of [of "children n" c 0 i ok] show ?thesis by (simp split: if_splits)
next
  case False
  with assms(2) have s: "searchChildren (children n) c = (i, ok)" by simp
  from wfn_children [OF assms(1)] show ?thesis
  proof (cases rule: searchChildren_cases [of "children n" c])
    case (found xs x ys)
    with s have "i = length xs" "ok" by simp_all
    with found show ?thesis by (simp del: map_of_append)
  next
    case (absent xs ys)
    with s show ?thesis by (simp del: map_of_append)
  qed
qed

text \<open>One level of \<open>get\<close>, with the child given by the table of children.\<close>

lemma getNode_step:
  assumes "wfn n" and "s \<noteq> []"
  shows "getNode n s bv bo =
    (case map_of (children n) (s ! 0) of
       None \<Rightarrow> (bv, bo)
     | Some ch \<Rightarrow>
         if prefix (nprefix ch) s then
           let t = drop (length (nprefix ch)) s;
               (bv, bo) = (if nmatch ch = MatchPrefix \<and> (t = [] \<or> t ! 0 = CHR ''.'')
                           then (nvalue ch, True) else (bv, bo))
           in if t = [] then (if nmatch ch = MatchExact then (nvalue ch, True) else (bv, bo))
              else getNode ch t bv bo
         else (bv, bo))"
proof -
  obtain i ok where f: "(if length (children n) < childrenLinearScanMax then linearScan (children n) (s ! 0) 0
      else searchChildren (children n) (s ! 0)) = (i, ok)" by force
  note m = find_child [OF assms(1) f]
  show ?thesis
  proof (cases ok)
    case False
    then show ?thesis using assms(2) m by (subst getNode.simps) (simp add: f)
  next
    case True
    let ?ch = "snd (children n ! i)"
    show ?thesis
    proof (cases "prefix (nprefix ?ch) s")
      case False
      then show ?thesis using assms(2) m True by (subst getNode.simps) (simp add: f Let_def)
    next
      case p: True
      then obtain t where s: "s = nprefix ?ch @ t" by (auto elim: prefixE)
      show ?thesis
        using assms(2) m True p
        by (subst getNode.simps, cases "t = []") (simp_all add: f Let_def s nth_append)
    qed
  qed
qed

text \<open>The rules below a node, without the one at the node itself, which its parent looks at.\<close>

definition below :: "'a radixNode \<Rightarrow> 'a rules" where
  "below n = (entry n)([] := None)"

lemma resolve_below_None:
  assumes "\<And>k. k \<noteq> [] \<Longrightarrow> prefix k s \<Longrightarrow> entry n k = None" and "s \<noteq> []"
  shows "resolve (below n) s = None"
proof -
  have "cover (below n) s (length s) = None"
    using assms(1) by (intro cover_empty) (simp add: below_def take_is_prefix)
  moreover have "below n s = None" using assms by (simp add: below_def)
  ultimately show ?thesis by (simp add: resolve_def)
qed

text \<open>The covering rules of \<open>p @ t\<close> that a child with the prefix \<open>p\<close> has.\<close>

lemma cover_child:
  assumes "nprefix ch \<noteq> []" and "j \<le> length t"
    and "\<And>k. k \<noteq> [] \<Longrightarrow> prefix k (nprefix ch @ t) \<Longrightarrow> E k = child_entry ch k" and "E [] = None"
  shows "cover E (nprefix ch @ t) (length (nprefix ch) + j) =
    (case cover (below ch) t j of
       Some v \<Rightarrow> Some v
     | None \<Rightarrow> if 0 < j \<and> t ! 0 = CHR ''.'' \<and> nmatch ch = MatchPrefix then Some (nvalue ch) else None)"
  using assms(2)
proof (induction j)
  case 0
  have "E (take i (nprefix ch @ t)) = None" if "i < length (nprefix ch)" for i
  proof (cases "i = 0")
    case False
    have "E (take i (nprefix ch @ t)) = child_entry ch (take i (nprefix ch @ t))"
      using False assms(1) take_is_prefix [of i "nprefix ch @ t"]
      by (intro assms(3)) (auto simp del: take_append)
    moreover have "\<not> prefix (nprefix ch) (take i (nprefix ch @ t))"
      using that prefix_length_le [of "nprefix ch" "take i (nprefix ch @ t)"] by auto
    ultimately show ?thesis by (simp add: child_entry_def)
  qed (simp add: assms(4))
  then show ?case by (simp add: cover_empty)
next
  case (Suc j)
  have e: "E (nprefix ch @ take j t) = entry ch (take j t)"
    using assms(1) assms(3) [of "nprefix ch @ take j t"] by (simp add: take_is_prefix child_entry_append)
  have c: "cover E (nprefix ch @ t) (length (nprefix ch) + Suc j) =
      (if t ! j = CHR ''.'' \<and> (\<exists>v. entry ch (take j t) = Some (MatchPrefix, v))
       then map_option snd (entry ch (take j t)) else cover E (nprefix ch @ t) (length (nprefix ch) + j))"
    using e by (auto simp: nth_append split: option.split)
  show ?case
  proof (cases j)
    case 0
    with Suc.IH show ?thesis unfolding c by (auto simp: entry_Nil rule_at_def below_def)
  next
    case (Suc j')
    then have "take j t \<noteq> []" using Suc.prems by auto
    then have "cover (below ch) t (Suc j) =
      (if t ! j = CHR ''.'' \<and> (\<exists>v. entry ch (take j t) = Some (MatchPrefix, v))
       then map_option snd (entry ch (take j t)) else cover (below ch) t j)"
      by (auto simp: below_def split: option.split)
    with Suc.IH Suc.prems Suc show ?thesis unfolding c by auto
  qed
qed

lemma getNode_resolve:
  "wfn n \<Longrightarrow> s \<noteq> [] \<Longrightarrow>
     getNode n s bv bo = (case resolve (below n) s of Some v \<Rightarrow> (v, True) | None \<Rightarrow> (bv, bo))"
proof (induction "length s" arbitrary: s n bv bo rule: less_induct)
  case less
  show ?case
  proof (cases "map_of (children n) (s ! 0)")
    case None
    have "entry n k = None" if "k \<noteq> []" "prefix k s" for k
    proof -
      from that have "k ! 0 = s ! 0" by (auto elim!: prefixE simp: nth_append)
      with that None show ?thesis by (simp add: entry_child)
    qed
    then have "resolve (below n) s = None" using less.prems(2) by (intro resolve_below_None)
    with None show ?thesis by (simp add: getNode_step [OF less.prems])
  next
    case (Some ch)
    note ch = wfn_child [OF less.prems(1) Some]
    have head: "k ! 0 = s ! 0" if "k \<noteq> []" "prefix k s" for k
      using that by (auto elim!: prefixE simp: nth_append)
    have E: "below n k = child_entry ch k" if "k \<noteq> []" "prefix k s" for k
      using that head [OF that] Some by (simp add: below_def entry_child)
    show ?thesis
    proof (cases "prefix (nprefix ch) s")
      case False
      have "entry n k = None" if "k \<noteq> []" "prefix k s" for k
      proof -
        have "\<not> prefix (nprefix ch) k" using False that(2) prefix_order.trans by blast
        with E [OF that] that(1) show ?thesis by (simp add: below_def child_entry_def)
      qed
      then have "resolve (below n) s = None" using less.prems(2) by (intro resolve_below_None)
      with False Some show ?thesis by (simp add: getNode_step [OF less.prems])
    next
      case True
      then obtain t where s: "s = nprefix ch @ t" by (auto elim: prefixE)
      have self: "below n s = entry ch t" using E [of s] less.prems(2) s by (simp add: child_entry_append)
      have cov: "cover (below n) s (length s) = (case cover (below ch) t (length t) of Some v \<Rightarrow> Some v
          | None \<Rightarrow> if t \<noteq> [] \<and> t ! 0 = CHR ''.'' \<and> nmatch ch = MatchPrefix then Some (nvalue ch) else None)"
        using cover_child [of ch "length t" t "below n"] ch E s
        by (simp add: below_def split: option.split)
      have step: "getNode n s bv bo =
          (let (bv, bo) = (if nmatch ch = MatchPrefix \<and> (t = [] \<or> t ! 0 = CHR ''.'')
                           then (nvalue ch, True) else (bv, bo))
           in if t = [] then (if nmatch ch = MatchExact then (nvalue ch, True) else (bv, bo))
              else getNode ch t bv bo)"
        unfolding getNode_step [OF less.prems] Some using s by simp
      show ?thesis
      proof (cases "t = []")
        case True
        with self cov show ?thesis
          by (auto simp: step resolve_def entry_Nil rule_at_def)
      next
        case False
        have ih: "getNode ch t bv bo = (case resolve (below ch) t of Some v \<Rightarrow> (v, True) | None \<Rightarrow> (bv, bo))"
          for bv bo using less.hyps [of t ch] ch False s by simp
        have "below ch t = entry ch t" using False by (simp add: below_def)
        with self cov False show ?thesis
          by (auto simp: step ih resolve_def split: option.splits)
      qed
    qed
  qed
qed

section \<open>The tree built by insertions\<close>

text \<open>A tree that has a table of rules: well formed, and with exactly these rules.\<close>

definition has_rules :: "'a radixNode \<Rightarrow> 'a rules \<Rightarrow> bool" where
  "has_rules r E \<longleftrightarrow> wfn r \<and> entry r = E \<and> E [] = None \<and> nmatch r \<noteq> MatchExact"

lemma NewRadix_rules: "has_rules (NewRadix :: 'a::zero radixNode) Map.empty"
proof -
  have "entry (NewRadix :: 'a radixNode) k = None" for k
    by (cases "k = []") (simp_all add: NewRadix_def entry_Nil entry_child rule_for_def MatchExact_def MatchPrefix_def)
  then show ?thesis by (simp add: has_rules_def NewRadix_def fun_eq_iff MatchExact_def)
qed

lemma nmatch_insertNode: "s \<noteq> [] \<Longrightarrow> nmatch (insertNode s val mode n) = nmatch n"
proof -
  assume s: "s \<noteq> []"
  obtain i ok where "searchChildren (children n) (s ! 0) = (i, ok)" by force
  with s show ?thesis by (cases ok) (simp_all add: insertNode_absent insertNode_found)
qed

lemma InsertReversed_rules:
  assumes "has_rules r E"
  shows "has_rules (InsertReversed k v m r) (if k = [] then E else E(k := rule_for m v))"
proof (cases "k = []")
  case False
  with assms insertNode_entry [of r k v m] nmatch_insertNode [of k v m r] show ?thesis
    by (simp add: has_rules_def InsertReversed_def fun_eq_iff)
qed (use assms in \<open>simp add: InsertReversed_def\<close>)

lemma Get_rules:
  assumes "has_rules r E"
  shows "Get r q = (case resolve E (ReverseLabels q) of Some v \<Rightarrow> (v, True) | None \<Rightarrow> (0, False))"
proof -
  have E: "below r = E" "resolve E [] = None"
    using assms by (auto simp: has_rules_def below_def resolve_def fun_eq_iff)
  have "ReverseLabels [] = []" by (simp add: ReverseLabels_def reverseLabelsInto_def reverseLoop.simps scanLabel.simps)
  moreover have "getNode r [] 0 False = (0, False)" using assms by (subst getNode.simps) (simp add: has_rules_def)
  ultimately show ?thesis
    using E getNode_resolve [of r "ReverseLabels q" 0 False] assms
    by (cases "ReverseLabels q = []") (auto simp: Get_def has_rules_def ReverseLabels_def Let_def)
qed

type_synonym 'a insertion = "bytes \<times> 'a \<times> matchMode"

definition insertAll :: "'a::zero insertion list \<Rightarrow> 'a radixNode" where
  "insertAll ops = fold (\<lambda>(k, v, m). InsertReversed k v m) ops NewRadix"

text \<open>The table that a list of insertions describes: the last one for a key counts.\<close>

definition table_of :: "'a insertion list \<Rightarrow> 'a rules" where
  "table_of ops = fold (\<lambda>(k, v, m) E. if k = [] then E else E(k := rule_for m v)) ops Map.empty"

lemma insertAll_rules: "has_rules (insertAll ops) (table_of ops)"
proof -
  have "has_rules r E \<Longrightarrow> has_rules (fold (\<lambda>(k, v, m). InsertReversed k v m) ops r)
      (fold (\<lambda>(k, v, m) E. if k = [] then E else E(k := rule_for m v)) ops E)" for r and E :: "'a rules"
  proof (induction ops arbitrary: r E)
    case (Cons x ops)
    obtain k v m where x: "x = (k, v, m)" by (cases x) auto
    from Cons.IH [OF InsertReversed_rules [OF Cons.prems]] show ?case by (simp add: x)
  qed simp
  from this [OF NewRadix_rules] show ?thesis by (simp add: insertAll_def table_of_def)
qed

text \<open>
  C32. The radix tree is correct: whatever is inserted, in whatever order and however the nodes
  are split, \<open>Get\<close> answers for a domain what its table of rules says: the value of the key
  itself, or else of the longest key with mode \<open>MatchPrefix\<close> that covers it at a label
  boundary, or nothing. The linear scan and the binary search of the children agree.
\<close>

theorem radix_lookup:
  "Get (insertAll ops) q =
     (case resolve (table_of ops) (ReverseLabels q) of Some v \<Rightarrow> (v, True) | None \<Rightarrow> (0, False))"
  by (rule Get_rules [OF insertAll_rules])

text \<open>
  The tree keeps its invariant under every insertion (each node's children ascend by their
  first byte, and every child has a nonempty prefix that starts with it), and an insertion
  changes the rule of its own key and no other.
\<close>

lemma radix_insert:
  assumes "wfn r"
  shows "wfn (InsertReversed k v m r) \<and>
    entry (InsertReversed k v m r) = (if k = [] then entry r else (entry r)(k := rule_for m v))"
  using insertNode_entry [OF assms, of k v m] assms by (auto simp: InsertReversed_def fun_eq_iff)

lemma radix_insert_witness:
  "wfn (InsertReversed ''com.foo'' (7::nat) MatchExact (Node [] [(CHR ''c'', Node ''com'' [] MatchPrefix 3)] MatchNone 0)) \<and>
   entry (InsertReversed ''com.foo'' (7::nat) MatchExact (Node [] [(CHR ''c'', Node ''com'' [] MatchPrefix 3)] MatchNone 0))
     ''com'' = Some (MatchPrefix, 3)"
proof -
  let ?r = "Node [] [(CHR ''c'', Node ''com'' [] MatchPrefix 3)] MatchNone (0::nat)"
  have "wfn ?r" by simp
  moreover have "entry ?r ''com'' = Some (MatchPrefix, 3)" by (simp add: entry.simps rule_for_def)
  ultimately show ?thesis using radix_insert [of ?r "''com.foo''" 7 MatchExact] by simp
qed

text \<open>
  The answer for a domain comes from the longest matching rule: when \<open>Get\<close> finds a value,
  some rule has the key itself, or a covering rule has it and no covering rule is longer; when
  it finds none, no rule has the key and none covers it.
\<close>

lemma radix_longest_match:
  "case Get (insertAll ops) q of
     (v, True) \<Rightarrow>
       (\<exists>m. table_of ops (ReverseLabels q) = Some (m, v)) \<or>
       table_of ops (ReverseLabels q) = None \<and>
       (\<exists>k. labelCovers k (ReverseLabels q) \<and> table_of ops k = Some (MatchPrefix, v) \<and>
         (\<forall>k' w. labelCovers k' (ReverseLabels q) \<and> table_of ops k' = Some (MatchPrefix, w) \<longrightarrow>
            length k' \<le> length k))
   | (v, False) \<Rightarrow>
       table_of ops (ReverseLabels q) = None \<and>
       (\<forall>k w. labelCovers k (ReverseLabels q) \<longrightarrow> table_of ops k \<noteq> Some (MatchPrefix, w))"
proof (cases "resolve (table_of ops) (ReverseLabels q)")
  case None
  with resolve_none [OF None] show ?thesis by (simp add: Get_rules [OF insertAll_rules])
next
  case (Some v)
  with resolve_longest [OF Some] show ?thesis by (auto simp: Get_rules [OF insertAll_rules])
qed

lemma radix_longest_match_witness:
  "Get (insertAll [(''com.foo'', 7 :: int, MatchPrefix)]) ''x.foo.com'' = (7, True) \<and>
   (\<exists>k. labelCovers k ''com.foo.x'' \<and>
      table_of [(''com.foo'', 7 :: int, MatchPrefix)] k = Some (MatchPrefix, 7))"
proof -
  let ?ops = "[(''com.foo'', 7 :: int, MatchPrefix)]"
  have rev: "ReverseLabels ''x.foo.com'' = ''com.foo.x''"
    using ReverseLabels_dotted [of "[''x'', ''foo'', ''com'']"] by (simp add: label_def)
  have t: "table_of ?ops = [''com.foo'' \<mapsto> (MatchPrefix, 7)]"
    by (simp add: table_of_def rule_for_def)
  have "resolve (table_of ?ops) ''com.foo.x'' = Some 7"
    by (simp add: resolve_def t numeral_nat)
  then have get: "Get (insertAll ?ops) ''x.foo.com'' = (7, True)"
    by (simp add: Get_rules [OF insertAll_rules] rev)
  with radix_longest_match [of ?ops "''x.foo.com''"] show ?thesis
    by (auto simp: rev t split: if_splits)
qed

end
