(* ===== verification/Matcher.thy ===== *)
theory Matcher
  imports Merge Radix
begin

text \<open>
  The two matchers of \<open>src/server/router/matcher/matcher.go\<close>: a radix tree in memory, and an FST
  of the package \<open>github.com/blevesearch/vellum\<close>, which can be saved and loaded. The package is
  the record \<open>vellumPkg\<close> of the operations that the code calls, over a builder \<^typ>\<open>'b\<close> and a
  loaded automaton \<^typ>\<open>'f\<close>; the locale \<open>vellum_pkg\<close> states what it documents of them. The
  builder includes the buffer that it writes to: \<open>vClose\<close> gives the buffer's contents.
\<close>

unbundle bit_operations_syntax

record ('b, 'f) vellumPkg =
  vNew :: "error + 'b"
  vInsert :: "bytes \<Rightarrow> u64 \<Rightarrow> 'b \<Rightarrow> error option \<times> 'b"
  vClose :: "'b \<Rightarrow> error + bytes"
  vLoad :: "bytes \<Rightarrow> error + 'f"
  vGet :: "'f \<Rightarrow> bytes \<Rightarrow> error + u64 \<times> bool"

definition fstPrefixBit :: u64 where "fstPrefixBit = 1"
definition fstActionShift :: nat where "fstActionShift = 1"

section \<open>Operations\<close>

definition radixLookup :: "action radixNode \<Rightarrow> bytes \<Rightarrow> action" where
  "radixLookup rx domain = (case Get rx domain of (a, True) \<Rightarrow> a | (_, False) \<Rightarrow> ActionPass)"

text \<open>The conversion \<open>Action(v >> fstActionShift)\<close>, which keeps the low byte.\<close>

definition fstAction :: "u64 \<Rightarrow> action" where
  "fstAction v = ucast (drop_bit fstActionShift v)"

text \<open>The loop of \<open>fstMatcher.Lookup\<close> over \<open>slices.Backward(rev)\<close>, from the last index below \<open>i\<close>.\<close>

fun fstBackward :: "('b, 'f) vellumPkg \<Rightarrow> 'f \<Rightarrow> bytes \<Rightarrow> nat \<Rightarrow> action" where
  "fstBackward pkg f rv 0 = ActionPass"
| "fstBackward pkg f rv (Suc i) =
     (if rv ! i \<noteq> CHR ''.'' then fstBackward pkg f rv i
      else case vGet pkg f (take i rv) of
        Inr (v, True) \<Rightarrow> if v AND fstPrefixBit \<noteq> 0 then fstAction v else fstBackward pkg f rv i
      | _ \<Rightarrow> fstBackward pkg f rv i)"

definition fstLookup :: "('b, 'f) vellumPkg \<Rightarrow> 'f \<Rightarrow> bytes \<Rightarrow> action" where
  "fstLookup pkg f domain =
     (let rv = ReverseLabels domain
      in case vGet pkg f rv of
        Inr (v, True) \<Rightarrow> fstAction v
      | _ \<Rightarrow> fstBackward pkg f rv (length rv))"

definition LoadFST :: "('b, 'f) vellumPkg \<Rightarrow> bytes \<Rightarrow> error + 'f" where
  "LoadFST pkg data = (case vLoad pkg data of Inl err \<Rightarrow> Inl err | Inr f \<Rightarrow> Inr f)"

text \<open>The function that \<open>BuildFST\<close> hands to \<open>mergeResolve\<close>.\<close>

definition fstEmit :: "('b, 'f) vellumPkg \<Rightarrow> bytes \<Rightarrow> action \<Rightarrow> matchMode \<Rightarrow> 'b \<Rightarrow> error option \<times> 'b" where
  "fstEmit pkg key action mode b =
     (let v = push_bit fstActionShift (ucast action);
          v = (if mode = MatchPrefix then v OR fstPrefixBit else v)
      in vInsert pkg key v b)"

definition BuildFST :: "('b, 'f) vellumPkg \<Rightarrow> RunSource list \<Rightarrow> error + 'f \<times> bytes \<times> nat" where
  "BuildFST pkg srcs =
     (case vNew pkg of
        Inl err \<Rightarrow> Inl err
      | Inr b \<Rightarrow>
          (case mergeResolve srcs (fstEmit pkg) b of
             (n, Some err, b) \<Rightarrow> Inl err
           | (n, None, b) \<Rightarrow>
               (case vClose pkg b of
                  Inl err \<Rightarrow> Inl err
                | Inr data \<Rightarrow>
                    (case LoadFST pkg data of Inl err \<Rightarrow> Inl err | Inr m \<Rightarrow> Inr (m, data, n)))))"

definition radixEmit :: "bytes \<Rightarrow> action \<Rightarrow> matchMode \<Rightarrow> action radixNode \<Rightarrow> error option \<times> action radixNode"
where
  "radixEmit key action mode rx = (None, InsertReversed key action mode rx)"

definition BuildRadix :: "RunSource list \<Rightarrow> error + action radixNode \<times> nat" where
  "BuildRadix srcs =
     (case mergeResolve srcs radixEmit NewRadix of
        (n, Some err, rx) \<Rightarrow> Inl err
      | (n, None, rx) \<Rightarrow> Inr (rx, n))"

section \<open>The interface\<close>

text \<open>
  A matcher stands for a table of rules. \<open>rules_in m E\<close> says that the matcher \<open>m\<close> has the table
  \<open>E\<close>; \<open>lookup\<close> then gives the action that the table says, and \<open>ActionPass\<close> without a rule.
\<close>

locale matcher =
  fixes lookup :: "'m \<Rightarrow> bytes \<Rightarrow> action"
    and rules_in :: "'m \<Rightarrow> action rules \<Rightarrow> bool"
  assumes lookup_resolve: "rules_in m E \<Longrightarrow>
    lookup m q = (case resolve E (ReverseLabels q) of Some a \<Rightarrow> a | None \<Rightarrow> ActionPass)"
begin

lemma lookup_rule: "rules_in m E \<Longrightarrow> E (ReverseLabels q) = Some (mode, a) \<Longrightarrow> lookup m q = a"
  by (simp add: lookup_resolve resolve_def)

lemma lookup_default:
  assumes "rules_in m E" and "E (ReverseLabels q) = None"
    and "\<And>k a. labelCovers k (ReverseLabels q) \<Longrightarrow> E k \<noteq> Some (MatchPrefix, a)"
  shows "lookup m q = ActionPass"
proof (cases "resolve E (ReverseLabels q)")
  case (Some a)
  with resolve_longest [OF Some] assms(2,3) show ?thesis by auto
qed (simp add: lookup_resolve [OF assms(1)])

end

text \<open>The table of the resolved rules of the sources.\<close>

definition rules_table :: "RunSource list \<Rightarrow> action rules" where
  "rules_table srcs = map_of (map (\<lambda>(k, a, m). (k, (m, a))) (resolved srcs))"

text \<open>A source with proper records: nonempty keys, and one of the two modes that match.\<close>

definition proper :: "RunSource \<Rightarrow> bool" where
  "proper src \<longleftrightarrow> ascending src \<and>
     (\<forall>(k, m) \<in> set (Next src). k \<noteq> [] \<and> (m = MatchExact \<or> m = MatchPrefix))"

lemma resolved_proper:
  assumes "\<forall>src \<in> set srcs. proper src" and "(k, a, m) \<in> set (resolved srcs)"
  shows "k \<noteq> [] \<and> (m = MatchExact \<or> m = MatchPrefix)"
proof -
  note src = resolved_source [OF assms(2)]
  then have "proper (srcs ! winner_of srcs k)" using winner_of_last [of k srcs] assms(1) by simp
  with src show ?thesis by (auto simp: proper_def)
qed

lemma resolved_distinct: "distinct (map fst (resolved srcs))"
  using resolved_ascending by (simp add: strict_sorted_iff)

section \<open>The radix matcher\<close>

lemma emitAll_radix:
  "emitAll radixEmit rs n rx = (n + length rs, None, fold (\<lambda>(k, v, m). InsertReversed k v m) rs rx)"
  by (induction radixEmit rs n rx rule: emitAll.induct) (simp_all add: radixEmit_def)

lemma BuildRadix_insertAll:
  assumes "\<forall>src \<in> set srcs. proper src"
  shows "BuildRadix srcs = Inr (insertAll (resolved srcs), length (resolved srcs))"
proof -
  have "\<forall>src \<in> set srcs. ascending src" using assms by (simp add: proper_def)
  then show ?thesis
    by (simp add: BuildRadix_def mergeResolve_resolved emitAll_radix insertAll_def)
qed

text \<open>Insertions of proper rules with different keys make the table of these rules.\<close>

lemma table_of_rules:
  assumes "distinct (map fst rs)"
    and "\<And>k a m. (k, a, m) \<in> set rs \<Longrightarrow> k \<noteq> [] \<and> (m = MatchExact \<or> m = MatchPrefix)"
  shows "table_of rs = map_of (map (\<lambda>(k, a, m). (k, (m, a))) rs)"
  using assms
proof (induction rs rule: rev_induct)
  case (snoc x rs)
  obtain k a m where x: "x = (k, a, m)" by (cases x) auto
  let ?t = "\<lambda>(k, a, m). (k, (m, a))"
  have new: "k \<notin> fst ` set rs" using snoc.prems(1) x by auto
  then have "map_of (map ?t rs) k = None" by (auto simp: map_of_eq_None_iff image_iff)
  then have "map_of (map ?t (rs @ [x])) = (map_of (map ?t rs))(k \<mapsto> (m, a))"
    by (auto simp: x fun_eq_iff map_add_def split: option.split)
  moreover have "k \<noteq> []" "rule_for m a = Some (m, a)"
    using snoc.prems(2) [of k a m] x by (auto simp: rule_for_def)
  moreover have "table_of rs = map_of (map ?t rs)"
  proof (rule snoc.IH)
    show "distinct (map fst rs)" using snoc.prems(1) by simp
    show "k \<noteq> [] \<and> (m = MatchExact \<or> m = MatchPrefix)" if "(k, a, m) \<in> set rs" for k a m
      by (rule snoc.prems(2) [of k a m]) (use that in simp)
  qed
  ultimately show ?case by (simp add: table_of_def x)
qed (simp add: table_of_def)

lemma rules_table_insertAll:
  assumes "\<forall>src \<in> set srcs. proper src"
  shows "table_of (resolved srcs) = rules_table srcs"
  unfolding rules_table_def
  by (rule table_of_rules [OF resolved_distinct]) (use resolved_proper [OF assms] in blast)

interpretation radix: matcher radixLookup has_rules
proof
  fix m :: "action radixNode" and E q assume "has_rules m E"
  then show "radixLookup m q = (case resolve E (ReverseLabels q) of Some a \<Rightarrow> a | None \<Rightarrow> ActionPass)"
    by (simp add: radixLookup_def Get_rules split: option.split)
qed

lemma BuildRadix_rules:
  assumes "\<forall>src \<in> set srcs. proper src" and "BuildRadix srcs = Inr (m, n)"
  shows "has_rules m (rules_table srcs) \<and> n = length (resolved srcs)"
  using assms(2) insertAll_rules [of "resolved srcs"]
  by (auto simp: BuildRadix_insertAll [OF assms(1)] rules_table_insertAll [OF assms(1)])

section \<open>The FST matcher\<close>

text \<open>
  What the package documents: a builder that accepted its insertions has them in order, and an
  automaton that is loaded from the data of a builder, whose keys were inserted in ascending
  order, gives each key its value and no value to other keys.
\<close>

locale vellum_pkg =
  fixes pkg :: "('b, 'f) vellumPkg"
    and content :: "'b \<Rightarrow> (bytes \<times> u64) list"
  assumes new_empty: "vNew pkg = Inr b \<Longrightarrow> content b = []"
    and insert_appends: "vInsert pkg k v b = (None, b') \<Longrightarrow> content b' = content b @ [(k, v)]"
    and load_gets: "vClose pkg b = Inr data \<Longrightarrow> sorted_wrt (<) (map fst (content b)) \<Longrightarrow>
      vLoad pkg data = Inr f \<Longrightarrow>
      vGet pkg f k = Inr (case map_of (content b) k of Some v \<Rightarrow> (v, True) | None \<Rightarrow> (0, False))"

text \<open>The value of a rule in the automaton, and an automaton that has a table of rules.\<close>

definition fstValue :: "action \<Rightarrow> matchMode \<Rightarrow> u64" where
  "fstValue a m = (let v = push_bit fstActionShift (ucast a) in if m = MatchPrefix then v OR fstPrefixBit else v)"

definition fst_rules :: "('b, 'f) vellumPkg \<Rightarrow> 'f \<Rightarrow> action rules \<Rightarrow> bool" where
  "fst_rules pkg f E \<longleftrightarrow>
     (\<forall>k. vGet pkg f k = Inr (case E k of Some (m, a) \<Rightarrow> (fstValue a m, True) | None \<Rightarrow> (0, False)))"

lemma fstValue_action [simp]: "fstAction (fstValue a m) = a"
proof (rule bit_word_eqI)
  fix n assume "n < LENGTH(8)"
  then show "bit (fstAction (fstValue a m)) n \<longleftrightarrow> bit a n"
    using fstActionShift_def by (auto simp: fstAction_def fstValue_def fstPrefixBit_def Let_def bit_simps)
qed

lemma fstValue_prefix [simp]: "fstValue a m AND fstPrefixBit \<noteq> 0 \<longleftrightarrow> m = MatchPrefix"
  by (simp add: fstValue_def fstActionShift_def fstPrefixBit_def Let_def and_one_eq mod_2_eq_odd even_or_iff)

text \<open>An automaton with a table of rules answers by this table.\<close>

lemma fstBackward_cover:
  "fst_rules pkg f E \<Longrightarrow>
     fstBackward pkg f s n = (case cover E s n of Some a \<Rightarrow> a | None \<Rightarrow> ActionPass)"
proof (induction n)
  case (Suc n)
  then have "vGet pkg f (take n s) =
      Inr (case E (take n s) of Some (m, a) \<Rightarrow> (fstValue a m, True) | None \<Rightarrow> (0, False))"
    by (simp add: fst_rules_def)
  with Suc show ?case by (auto split: option.split)
qed simp

lemma fst_matcher: "matcher (fstLookup pkg) (fst_rules pkg)"
proof
  fix f E q assume "fst_rules pkg f E"
  with fstBackward_cover [OF this]
  show "fstLookup pkg f q = (case resolve E (ReverseLabels q) of Some a \<Rightarrow> a | None \<Rightarrow> ActionPass)"
    by (auto simp: fstLookup_def resolve_def fst_rules_def Let_def split: option.split)
qed

context vellum_pkg
begin

lemma emitAll_content:
  "emitAll (fstEmit pkg) rs n b = (n', None, b') \<Longrightarrow>
     n' = n + length rs \<and> content b' = content b @ map (\<lambda>(k, a, m). (k, fstValue a m)) rs"
proof (induction rs arbitrary: n b)
  case (Cons x rs)
  obtain k a m where x: "x = (k, a, m)" by (cases x) auto
  obtain e b1 where e: "fstEmit pkg k a m b = (e, b1)" by force
  with Cons.prems x have none: "e = None" by (cases e) auto
  with e have "content b1 = content b @ [(k, fstValue a m)]"
    by (intro insert_appends) (simp add: fstEmit_def fstValue_def Let_def)
  with Cons.IH [of "n + 1" b1] Cons.prems e none x show ?case by simp
qed simp

lemma BuildFST_rules:
  assumes "\<forall>src \<in> set srcs. proper src" and "BuildFST pkg srcs = Inr (f, data, n)"
  shows "fst_rules pkg f (rules_table srcs) \<and> n = length (resolved srcs) \<and> vLoad pkg data = Inr f"
proof -
  have asc: "\<forall>src \<in> set srcs. ascending src" using assms(1) by (simp add: proper_def)
  from assms(2) obtain b0 b where new: "vNew pkg = Inr b0"
    and merge: "emitAll (fstEmit pkg) (resolved srcs) 0 b0 = (n, None, b)"
    and close: "vClose pkg b = Inr data" and load: "vLoad pkg data = Inr f"
    by (auto simp: BuildFST_def LoadFST_def mergeResolve_resolved [OF asc]
        split: sum.splits option.splits prod.splits)
  let ?v = "\<lambda>(k, a, m). (k, fstValue a m)"
  have c: "content b = map ?v (resolved srcs)" and n: "n = length (resolved srcs)"
    using emitAll_content [OF merge] new_empty [OF new] by simp_all
  have keys: "map fst (map ?v (resolved srcs)) = map fst (resolved srcs)" by (auto simp: comp_def)
  have "vGet pkg f k = Inr (case map_of (content b) k of Some v \<Rightarrow> (v, True) | None \<Rightarrow> (0, False))" for k
    using load_gets [OF close _ load] resolved_ascending [of srcs] by (simp only: c keys)
  moreover have "map_of (map ?v rs) k =
      map_option (\<lambda>(m, a). fstValue a m) (map_of (map (\<lambda>(k, a, m). (k, (m, a))) rs) k)"
    for rs and k :: bytes
    by (induction rs) auto
  ultimately show ?thesis using n load
    by (auto simp: fst_rules_def rules_table_def c split: option.split)
qed

end

section \<open>A package with this behaviour\<close>

text \<open>
  A builder that is a list of its insertions. Its data is one block per key: the bytes of the key
  with a mark in front of each, an end mark, and eight bytes of the value.
\<close>

definition memBlock :: "bytes \<times> u64 \<Rightarrow> bytes" where
  "memBlock e = concat (map (\<lambda>c. [CHR 0x01, c]) (fst e)) @ CHR 0x00 # be_put 8 (unat (snd e))"

definition memData :: "(bytes \<times> u64) list \<Rightarrow> bytes" where
  "memData b = concat (map memBlock b)"

function memParse :: "bytes \<Rightarrow> bytes \<Rightarrow> (bytes \<times> u64) list option" where
  "memParse key [] = (if key = [] then Some [] else None)"
| "memParse key (t # rest) =
     (if t = CHR 0x01 then (case rest of [] \<Rightarrow> None | c # r \<Rightarrow> memParse (key @ [c]) r)
      else if length rest < 8 then None
      else map_option (Cons (key, word_of_nat (be_get (take 8 rest)))) (memParse [] (drop 8 rest)))"
  by pat_completeness auto
termination by (relation "measure (\<lambda>(key, s). length s)") auto

definition memVellum :: "((bytes \<times> u64) list, (bytes \<times> u64) list) vellumPkg" where
  "memVellum =
     \<lparr>vNew = Inr [],
      vInsert = (\<lambda>k v b. if b \<noteq> [] \<and> k \<le> fst (last b) then (Some (Err ''out of order''), b)
                       else (None, b @ [(k, v)])),
      vClose = (\<lambda>b. Inr (memData b)),
      vLoad = (\<lambda>d. case memParse [] d of None \<Rightarrow> Inl (Err ''invalid data'') | Some f \<Rightarrow> Inr f),
      vGet = (\<lambda>f k. Inr (case map_of f k of Some v \<Rightarrow> (v, True) | None \<Rightarrow> (0, False)))\<rparr>"

lemma memVellum_simps [simp]:
  "vNew memVellum = Inr []"
  "vInsert memVellum k v b = (if b \<noteq> [] \<and> k \<le> fst (last b) then (Some (Err ''out of order''), b)
     else (None, b @ [(k, v)]))"
  "vClose memVellum b = Inr (memData b)"
  "vLoad memVellum d = (case memParse [] d of None \<Rightarrow> Inl (Err ''invalid data'') | Some f \<Rightarrow> Inr f)"
  "vGet memVellum f k = Inr (case map_of f k of Some v \<Rightarrow> (v, True) | None \<Rightarrow> (0, False))"
  by (simp_all add: memVellum_def)

lemma memParse_block:
  "memParse key (concat (map (\<lambda>c. [CHR 0x01, c]) k) @ CHR 0x00 # be_put 8 (unat v) @ s) =
     map_option (Cons (key @ k, v)) (memParse [] s)"
proof (induction k arbitrary: key)
  case Nil
  have "unat v < 2 ^ LENGTH(64)" by (rule unsigned_less)
  then have "be_get (be_put 8 (unat v)) = unat v" by (intro be_get_put_small) simp
  then show ?case by simp
qed simp

lemma memParse_data: "memParse [] (memData b) = Some b"
  by (induction b) (auto simp: memData_def memBlock_def memParse_block [of "[]", simplified])

interpretation memVellum: vellum_pkg memVellum id
proof
  fix b b' f :: "(bytes \<times> u64) list" and k v data
  show "id b = []" if "vNew memVellum = Inr b" using that by simp
  show "id b' = id b @ [(k, v)]" if "vInsert memVellum k v b = (None, b')"
    using that by (auto split: if_splits)
  show "vGet memVellum f k = Inr (case map_of (id b) k of Some v \<Rightarrow> (v, True) | None \<Rightarrow> (0, False))"
    if "vClose memVellum b = Inr data" "vLoad memVellum data = Inr f"
    using that by (auto simp: memParse_data)
qed

section \<open>Properties\<close>

text \<open>
  What the router answers: on sources with proper records, both matchers give a domain the
  action of the resolved rules: that of the rule with the domain's own key, or else of the
  longest rule with mode \<open>MatchPrefix\<close> that covers it, and \<open>ActionPass\<close> without one. Building
  the radix tree always succeeds, and both report the number of rules that remain.
\<close>

lemma matcher_lookup:
  assumes "\<forall>src \<in> set srcs. proper src" and "vellum_pkg pkg content"
    and "BuildFST pkg srcs = Inr (f, data, n)"
  shows "\<exists>rx. BuildRadix srcs = Inr (rx, n) \<and> n = length (resolved srcs) \<and>
    (\<forall>q. radixLookup rx q =
      (case resolve (rules_table srcs) (ReverseLabels q) of Some a \<Rightarrow> a | None \<Rightarrow> ActionPass)) \<and>
    (\<forall>q. fstLookup pkg f q =
      (case resolve (rules_table srcs) (ReverseLabels q) of Some a \<Rightarrow> a | None \<Rightarrow> ActionPass))"
proof -
  have r: "BuildRadix srcs = Inr (insertAll (resolved srcs), length (resolved srcs))"
    by (rule BuildRadix_insertAll [OF assms(1)])
  with BuildRadix_rules [OF assms(1) r] vellum_pkg.BuildFST_rules [OF assms(2,1,3)]
  show ?thesis
    using radix.lookup_resolve matcher.lookup_resolve [OF fst_matcher, of pkg f "rules_table srcs"]
    by auto
qed

lemma demo_proper: "\<forall>src \<in> set demo_sources. proper src"
  using demo_ascending by (simp add: proper_def) (simp add: demo_sources_def)

lemma demo_built: "\<exists>f data n. BuildFST memVellum demo_sources = Inr (f, data, n)"
proof -
  have "emitAll (fstEmit memVellum) (resolved demo_sources) 0 [] =
      (3, None, [(''bar.foo.pruned'', fstValue ActionPass MatchPrefix),
        (''com.block'', fstValue ActionRemap MatchPrefix), (''com.dup'', fstValue ActionBlackhole MatchExact)])"
    by (simp add: demo_resolved fstEmit_def fstValue_def Let_def less_eq_list_code)
  then show ?thesis
    by (simp add: BuildFST_def mergeResolve_resolved [OF demo_ascending] LoadFST_def memParse_data)
qed

lemma matcher_lookup_witness:
  "\<exists>f data n. BuildFST memVellum demo_sources = Inr (f, data, n) \<and>
     fstLookup memVellum f ''x.block.com'' = ActionRemap \<and>
     fstLookup memVellum f ''x.dup.com'' = ActionPass"
proof -
  obtain f data n where b: "BuildFST memVellum demo_sources = Inr (f, data, n)" using demo_built by blast
  have rev: "ReverseLabels ''x.block.com'' = ''com.block.x''" "ReverseLabels ''x.dup.com'' = ''com.dup.x''"
    using ReverseLabels_dotted [of "[''x'', ''block'', ''com'']"]
      ReverseLabels_dotted [of "[''x'', ''dup'', ''com'']"] by (simp_all add: label_def)
  have "resolve (rules_table demo_sources) ''com.block.x'' = Some ActionRemap"
    "resolve (rules_table demo_sources) ''com.dup.x'' = None"
    by (simp_all add: rules_table_def demo_resolved resolve_def numeral_nat)
  with matcher_lookup [OF demo_proper memVellum.vellum_pkg_axioms b] b rev show ?thesis by auto
qed

text \<open>
  C17. The two backends are equivalent: on the same sources with proper records they agree on
  every domain and on the number of rules, and so does a matcher that is loaded from the saved
  data of the FST.
\<close>

theorem backends_agree:
  assumes "\<forall>src \<in> set srcs. proper src" and "vellum_pkg pkg content"
    and "BuildRadix srcs = Inr (rx, n)" and "BuildFST pkg srcs = Inr (f, data, n')"
  shows "n = n' \<and> (\<forall>q. radixLookup rx q = fstLookup pkg f q) \<and>
    (\<exists>f'. LoadFST pkg data = Inr f' \<and> (\<forall>q. fstLookup pkg f' q = radixLookup rx q))"
proof -
  note r = BuildRadix_rules [OF assms(1,3)]
  note v = vellum_pkg.BuildFST_rules [OF assms(2,1,4)]
  have "radixLookup rx q = fstLookup pkg f q" for q
    using radix.lookup_resolve [of rx "rules_table srcs" q]
      matcher.lookup_resolve [OF fst_matcher, of pkg f "rules_table srcs" q] r v by simp
  with r v show ?thesis by (simp add: LoadFST_def)
qed

lemma backends_agree_witness:
  "\<exists>rx f data n. BuildRadix demo_sources = Inr (rx, n) \<and> BuildFST memVellum demo_sources = Inr (f, data, n) \<and>
     radixLookup rx ''www.pruned.foo.bar'' = fstLookup memVellum f ''www.pruned.foo.bar''"
proof -
  obtain f data n where b: "BuildFST memVellum demo_sources = Inr (f, data, n)" using demo_built by blast
  have r: "BuildRadix demo_sources = Inr (insertAll (resolved demo_sources), length (resolved demo_sources))"
    by (rule BuildRadix_insertAll [OF demo_proper])
  from backends_agree [OF demo_proper memVellum.vellum_pkg_axioms r b] r b show ?thesis by auto
qed

end
