(* ===== verification/Router.thy ===== *)
theory Router
  imports Sources Matcher
begin

text \<open>
  The router, \<open>src/server/router/router.go\<close>: it refreshes its sources, merges their runs into a
  matcher and answers lookups from the last matcher that was built. The goroutines of \<open>Rebuild\<close>
  are run one after the other here: each works on the run of its own source. The atomic pointer to
  the matcher is a field, so that a lookup sees one matcher or the other. The matcher of a record
  is either of the two that implement the interface \<open>matcher.Matcher\<close>.
\<close>

section \<open>State\<close>

datatype 'f matcherBox = RadixBox "action radixNode" | FSTBox 'f

definition MatcherRadix :: bytes where "MatcherRadix = ''radix''"

record ('re, 'f) Router =
  sources :: "'re Source list"
  rstore :: store
  backend :: bytes
  rM :: "'f matcherBox option"

section \<open>Operations\<close>

fun newSources :: "'re regexpPkg \<Rightarrow> world \<Rightarrow> cfgMatcher list \<Rightarrow> nat \<Rightarrow> error + 're Source list" where
  "newSources pkg W [] i = Inr []"
| "newSources pkg W (m # ms) i =
     (case newSource pkg W m i of
        Inl err \<Rightarrow> Inl err
      | Inr s \<Rightarrow> (case newSources pkg W ms (i + 1) of Inl err \<Rightarrow> Inl err | Inr ss \<Rightarrow> Inr (s # ss)))"

definition NewRouter ::
  "'re regexpPkg \<Rightarrow> world \<Rightarrow> cfgMatcher list \<Rightarrow> store \<Rightarrow> bytes \<Rightarrow> error + ('re, 'f) Router"
where
  "NewRouter pkg W matchers st b =
     (case newSources pkg W matchers 0 of
        Inl err \<Rightarrow> Inl err
      | Inr ss \<Rightarrow> Inr \<lparr>sources = ss, rstore = st, backend = b, rM = None\<rparr>)"

definition sourceNames :: "('re, 'f) Router \<Rightarrow> bytes list" where
  "sourceNames r = map Name (sources r)"

text \<open>
  The closure \<open>Next\<close> of a source takes an error for the end of the run. Its records are those that
  the reader gives before the first error; the fuel is enough for every run.
\<close>

definition runRecords :: "RunReader \<Rightarrow> Record list" where
  "runRecords rr = fst (the (drainRun (unat (runRemain rr) div 3 + 1) rr))"

definition runSource :: "'re Source \<Rightarrow> RunReader \<Rightarrow> RunSource" where
  "runSource src rr =
     \<lparr>Next = map (\<lambda>x. (Key x, Mode x)) (runRecords rr), Action = SrcAction src, Prune = SrcPrune src\<rparr>"

fun openRuns :: "store \<Rightarrow> 're Source list \<Rightarrow> fs \<Rightarrow> RunSource list \<times> fs" where
  "openRuns st [] s = ([], s)"
| "openRuns st (src # srcs) s =
     (case OpenRun st (Name src) s of
        ((v, rr, Some oerr), s) \<Rightarrow> openRuns st srcs s
      | ((v, None, None), s) \<Rightarrow> openRuns st srcs s
      | ((v, Some rr, None), s) \<Rightarrow>
          (case openRuns st srcs s of (rs, s) \<Rightarrow> (runSource src rr # rs, s)))"

definition compile ::
  "('b, 'f) vellumPkg \<Rightarrow> ('re, 'f) Router \<Rightarrow> fs \<Rightarrow> (error + 'f matcherBox \<times> bytes option \<times> nat) \<times> fs"
where
  "compile vp r s =
     (case openRuns (rstore r) (sources r) s of (srcs, s) \<Rightarrow>
        if backend r = MatcherRadix then
          (case BuildRadix srcs of
             Inl err \<Rightarrow> (Inl err, s)
           | Inr (m, n) \<Rightarrow> (Inr (RadixBox m, None, n), s))
        else
          (case BuildFST vp srcs of
             Inl err \<Rightarrow> (Inl err, s)
           | Inr (m, data, n) \<Rightarrow> (Inr (FSTBox m, Some data, n), s)))"

definition persistFST :: "store \<Rightarrow> bytes option \<Rightarrow> fs \<Rightarrow> fs" where
  "persistFST st data s = (case data of None \<Rightarrow> s | Some d \<Rightarrow> snd (SaveFST st d s))"

fun refreshAll ::
  "names \<Rightarrow> 're regexpPkg \<Rightarrow> world \<Rightarrow> store \<Rightarrow> 're Source list \<Rightarrow> fs \<Rightarrow>
   (refreshResult \<times> error option) list \<times> fs"
where
  "refreshAll nm pkg W st [] s = ([], s)"
| "refreshAll nm pkg W st (src # srcs) s =
     (case refresh nm pkg W st src s of (res, s) \<Rightarrow>
     (case refreshAll nm pkg W st srcs s of (rs, s) \<Rightarrow> (res # rs, s)))"

definition joined :: "error list \<Rightarrow> error option" where
  "joined es = (if es = [] then None else Some (Join es))"

definition Rebuild ::
  "names \<Rightarrow> 're regexpPkg \<Rightarrow> ('b, 'f) vellumPkg \<Rightarrow> world \<Rightarrow> ('re, 'f) Router \<Rightarrow> fs \<Rightarrow>
   (error option \<times> ('re, 'f) Router) \<times> fs"
where
  "Rebuild nm pkg vp W r s =
     (case refreshAll nm pkg W (rstore r) (sources r) s of (results, s) \<Rightarrow>
     (let all = List.map_filter snd results;
          anyUpdated = (refreshUpdated \<in> fst ` set results)
      in case Retain (rstore r) (sourceNames r) s of (retained, s) \<Rightarrow>
     (let removed = (case retained of Inl rerr \<Rightarrow> 0 | Inr n \<Rightarrow> n)
      in if anyUpdated \<or> removed > 0 \<or> rM r = None then
           (case compile vp r s of
              (Inl cerr, s) \<Rightarrow> ((joined (all @ [Wrap ''compile matcher'' cerr]), r), s)
            | (Inr (box, fstData, n), s) \<Rightarrow>
                ((joined all, r\<lparr>rM := Some box\<rparr>), persistFST (rstore r) fstData s))
         else ((joined all, r), s))))"

definition LoadCached :: "('b, 'f) vellumPkg \<Rightarrow> ('re, 'f) Router \<Rightarrow> fs \<Rightarrow> (nat \<times> ('re, 'f) Router) \<times> fs" where
  "LoadCached vp r s =
     (let build = (\<lambda>s. case compile vp r s of
          (Inl err, s) \<Rightarrow> ((0, r), s)
        | (Inr (box, fstData, n), s) \<Rightarrow>
            if n = 0 then ((0, r), s)
            else ((n, r\<lparr>rM := Some box\<rparr>), persistFST (rstore r) fstData s))
      in if backend r \<noteq> MatcherRadix then
           (case loadFSTData (rstore r) s of
              (Inl lerr, s) \<Rightarrow> build s
            | (Inr data, s) \<Rightarrow>
                (case LoadFST vp data of
                   Inl merr \<Rightarrow> build s
                 | Inr m \<Rightarrow> ((length data, r\<lparr>rM := Some (FSTBox m)\<rparr>), s)))
         else build s)"

fun boxLookup :: "('b, 'f) vellumPkg \<Rightarrow> 'f matcherBox \<Rightarrow> bytes \<Rightarrow> action" where
  "boxLookup vp (RadixBox rx) domain = radixLookup rx domain"
| "boxLookup vp (FSTBox f) domain = fstLookup vp f domain"

definition Lookup :: "('b, 'f) vellumPkg \<Rightarrow> ('re, 'f) Router \<Rightarrow> bytes \<Rightarrow> action" where
  "Lookup vp r domain = (case rM r of None \<Rightarrow> ActionPass | Some box \<Rightarrow> boxLookup vp box domain)"

definition Ready :: "('re, 'f) Router \<Rightarrow> bool" where
  "Ready r \<longleftrightarrow> rM r \<noteq> None"

section \<open>Files\<close>

lemma OpenRun_same: "OpenRun st name s = (r, t) \<Longrightarrow> same_files {} s t"
  by (auto simp: OpenRun_def split: prod.splits sum.splits option.splits dest!: openFile_same)

lemma openRuns_same: "openRuns st srcs s = (rs, t) \<Longrightarrow> same_files {} s t"
proof (induction srcs arbitrary: s rs)
  case (Cons src srcs)
  obtain v rr e s1 where o: "OpenRun st (Name src) s = ((v, rr, e), s1)" by (metis prod.collapse)
  obtain rs' s2 where rest: "openRuns st srcs s1 = (rs', s2)" by (rule prod.exhaust)
  with Cons.prems o have "t = s2" by (auto split: option.splits)
  with Cons.IH [of s1 rs'] rest OpenRun_same [OF o] show ?case by (auto intro: same_files_trans)
qed simp

lemma compile_same: "compile vp r s = (res, t) \<Longrightarrow> same_files {} s t"
  by (auto simp: compile_def split: prod.splits sum.splits if_splits dest!: openRuns_same)

lemma persistFST_run:
  assumes "suffix runSuffix n"
  shows "lookupFile (persistFST st data s) (d, n) = lookupFile s (d, n)"
proof (cases data)
  case (Some b)
  obtain e t where w: "SaveFST st b s = (e, t)" by (rule prod.exhaust)
  then have a: "atomically (dir st, fstName) (fstBytes b) e s t"
    unfolding SaveFST_def by (rule writeAtomic_atomic [OF fstBody_writes])
  have "n \<noteq> fstName" using assms by (auto simp: fstName_def runSuffix_def suffix_to_prefix)
  with atomically_other [OF a, of "(d, n)"] run_not_temp [OF assms] Some w show ?thesis
    by (auto simp: persistFST_def)
qed (simp add: persistFST_def)

text \<open>A run after a rebuild: as it was, or the run of new content of its source.\<close>

definition run_kept ::
  "names \<Rightarrow> 're regexpPkg \<Rightarrow> world \<Rightarrow> store \<Rightarrow> 're Source \<Rightarrow> fs \<Rightarrow> fs \<Rightarrow> bool"
where
  "run_kept nm pkg W st src s t \<longleftrightarrow>
     (let p = (runsDir st, runFile (Name src)) in
      lookupFile t p = lookupFile s p \<or>
      (\<exists>prev v entries. fresh_content nm pkg W src prev v entries \<and>
         lookupFile t p = Some \<lparr>fdata = runBytes v (toRecords entries), fdisk = runBytes v (toRecords entries)\<rparr>))"

lemma refreshed_other:
  assumes "refreshed nm pkg W st src res s t" and "runFile name \<noteq> runFile (Name src)"
  shows "lookupFile t (runsDir st, runFile name) = lookupFile s (runsDir st, runFile name)"
  using assms run_not_temp [OF runFile_suffix, of name] unfolding refreshed_def Let_def
  by (metis prod.inject snd_conv)

lemma refreshed_kept: "refreshed nm pkg W st src res s t \<Longrightarrow> run_kept nm pkg W st src s t"
  unfolding refreshed_def run_kept_def Let_def by (metis (no_types))

lemma refreshAll_kept:
  assumes "refreshAll nm pkg W st srcs s = (rs, t)" and "distinct (map (\<lambda>src. runFile (Name src)) srcs)"
  shows "(\<forall>src \<in> set srcs. run_kept nm pkg W st src s t) \<and>
    (\<forall>name. runFile name \<notin> (\<lambda>src. runFile (Name src)) ` set srcs \<longrightarrow>
       lookupFile t (runsDir st, runFile name) = lookupFile s (runsDir st, runFile name))"
  using assms
proof (induction srcs arbitrary: s rs)
  case (Cons src srcs)
  obtain res err s1 where r: "refresh nm pkg W st src s = ((res, err), s1)" by (metis prod.collapse)
  obtain rs' s2 where rest: "refreshAll nm pkg W st srcs s1 = (rs', s2)" by (rule prod.exhaust)
  with Cons.prems(1) r have t: "t = s2" by simp
  have ref: "refreshed nm pkg W st src res s s1" using refresh_refreshed [OF r] by blast
  note IH = Cons.IH [OF rest [folded t]]
  have dist: "distinct (map (\<lambda>src. runFile (Name src)) srcs)"
    and new: "runFile (Name src) \<notin> (\<lambda>src. runFile (Name src)) ` set srcs"
    using Cons.prems(2) by auto
  have "run_kept nm pkg W st src s t"
    using refreshed_kept [OF ref] IH [OF dist] new unfolding run_kept_def Let_def t by metis
  moreover have "run_kept nm pkg W st x s t" if "x \<in> set srcs" for x
  proof -
    have "runFile (Name x) \<noteq> runFile (Name src)" using new that by (metis imageI)
    from refreshed_other [OF ref this] IH [OF dist] that show ?thesis
      unfolding run_kept_def Let_def t by metis
  qed
  moreover have "lookupFile t (runsDir st, runFile name) = lookupFile s (runsDir st, runFile name)"
    if "runFile name \<notin> (\<lambda>src. runFile (Name src)) ` set (src # srcs)" for name
    using refreshed_other [OF ref, of name] IH [OF dist] that unfolding t by auto
  ultimately show ?case by auto
qed simp

lemma Retain_configured:
  assumes "Retain st names s = (res, t)" and "name \<in> set names"
  shows "lookupFile t (runsDir st, runFile name) = lookupFile s (runsDir st, runFile name)"
  using Retain_safe [OF assms(1), of "(runsDir st, runFile name)"] assms(2) run_not_temp [OF runFile_suffix, of name]
  by (auto simp: stale_def)

lemma Rebuild_cases:
  assumes "Rebuild nm pkg vp W r s = ((err, r'), t)"
    and "refreshAll nm pkg W (rstore r) (sources r) s = (results, s1)"
    and "Retain (rstore r) (sourceNames r) s1 = (retained, s2)"
  shows "(r' = r \<and> same_files {} s2 t) \<or>
    (\<exists>box data n s3. compile vp r s2 = (Inr (box, data, n), s3) \<and> r' = r\<lparr>rM := Some box\<rparr> \<and>
       t = persistFST (rstore r) data s3)"
proof -
  obtain c s3 where c: "compile vp r s2 = (c, s3)" by (rule prod.exhaust)
  from assms c show ?thesis
    by (cases c) (auto simp: Rebuild_def Let_def compile_same split: if_splits)
qed

section \<open>Properties\<close>


text \<open>The rules of a source in the merge, given the records of its run.\<close>

definition run_rules :: "'re Source \<Rightarrow> Record list \<Rightarrow> RunSource" where
  "run_rules src recs =
     \<lparr>Next = map (\<lambda>x. (Key x, Mode x)) (written recs), Action = SrcAction src, Prune = SrcPrune src\<rparr>"

text \<open>A run on the disk that \<open>WriteRun\<close> wrote, of records that fit the widths of the format.\<close>

definition good_records :: "Record list \<Rightarrow> bool" where
  "good_records recs \<longleftrightarrow>
     (\<forall>x \<in> set recs. Key x \<noteq> [] \<and> length (Key x) < 2 ^ 16 \<and> (Mode x = MatchExact \<or> Mode x = MatchPrefix)) \<and>
     dataLen (written recs) < 2 ^ 32"

definition stored :: "store \<Rightarrow> fs \<Rightarrow> 're Source \<Rightarrow> Record list \<Rightarrow> bool" where
  "stored st s src recs \<longleftrightarrow> good_records recs \<and>
     (\<exists>v disk. short v \<and> lookupFile s (runsDir st, runFile (Name src)) =
        Some \<lparr>fdata = runBytes v recs, fdisk = disk\<rparr>)"

lemma run_rules_proper: "good_records recs \<Longrightarrow> proper (run_rules src recs)"
  using written_ascending [of recs] written_set [of recs]
  by (auto simp: proper_def ascending_def run_rules_def good_records_def comp_def)

lemma runSource_written:
  assumes "good_records recs"
  shows "runSource src \<lparr>runBr = \<lparr>rest = recordsBytes (written recs), atEnd = EOF\<rparr>,
     runRemain = word_of_nat (dataLen (written recs))\<rparr> = run_rules src recs"
proof -
  let ?r = "\<lparr>runBr = \<lparr>rest = recordsBytes (written recs), atEnd = EOF\<rparr>,
     runRemain = word_of_nat (dataLen (written recs))\<rparr>"
  have small: "dataLen (written recs) < 2 ^ 32" using assms by (simp add: good_records_def)
  have "3 * length rs \<le> dataLen rs" for rs
    by (induction rs) (simp_all add: dataLen_def recordHeaderLen_def)
  from this [of "written recs"] have "length (written recs) < dataLen (written recs) div 3 + 1" by linarith
  moreover have "unat (runRemain ?r) = dataLen (written recs)"
    using small by (simp add: unat_of_small)
  ultimately have "drainRun (unat (runRemain ?r) div 3 + 1) ?r = Some (written recs, None)"
    using assms written_set [of recs] small
    by (intro drainRun_records) (auto simp: good_records_def)
  then show ?thesis by (simp add: runSource_def runRecords_def run_rules_def)
qed

lemma openRuns_written:
  assumes "list_all2 (stored st s) srcs rss"
  shows "openRuns st srcs (calm s) = (map2 run_rules srcs rss, calm s)"
  using assms
proof (induction rule: list_all2_induct)
  case (Cons src srcs recs rss)
  then obtain v disk where v: "short v" and good: "good_records recs"
    and f: "lookupFile s (runsDir st, runFile (Name src)) = Some \<lparr>fdata = runBytes v recs, fdisk = disk\<rparr>"
    by (auto simp: stored_def)
  have "dataLen (written recs) < 2 ^ 32" using good by (simp add: good_records_def)
  from OpenRun_written(1) [OF f v this] Cons.IH runSource_written [OF good] show ?case by simp
qed simp

lemma map2_proper:
  "list_all2 (stored st s) srcs rss \<Longrightarrow> \<forall>x \<in> set (map2 run_rules srcs rss). proper x"
  by (induction rule: list_all2_induct) (auto simp: stored_def run_rules_proper)

definition answer_of :: "RunSource list \<Rightarrow> bytes \<Rightarrow> action" where
  "answer_of srcs d =
     (case resolve (rules_table srcs) (ReverseLabels d) of Some a \<Rightarrow> a | None \<Rightarrow> ActionPass)"

lemma compile_opened:
  assumes "openRuns (rstore r) (sources r) s = (srcs, s)" and "\<forall>x \<in> set srcs. proper x"
    and "vellum_pkg vp content" and "compile vp r s = (Inr (box, data, n), t)"
  shows "boxLookup vp box d = answer_of srcs d" and "t = s"
    and "backend r \<noteq> MatcherRadix \<Longrightarrow> \<exists>f b. box = FSTBox f \<and> data = Some b \<and> LoadFST vp b = Inr f"
proof -
  note opened = assms(1) and proper = assms(2)
  show "boxLookup vp box d = answer_of srcs d"
  proof (cases "backend r = MatcherRadix")
    case True
    with assms(4) opened obtain rx where "BuildRadix srcs = Inr (rx, n)" "box = RadixBox rx"
      by (auto simp: compile_def split: sum.splits)
    with BuildRadix_rules [OF proper] radix.lookup_resolve [of rx "rules_table srcs" d] show ?thesis
      by (simp add: answer_of_def)
  next
    case False
    with assms(4) opened obtain f b where "BuildFST vp srcs = Inr (f, b, n)" "box = FSTBox f"
      by (auto simp: compile_def split: sum.splits)
    with vellum_pkg.BuildFST_rules [OF assms(3) proper]
      matcher.lookup_resolve [OF fst_matcher, of vp f "rules_table srcs" d] show ?thesis
      by (simp add: answer_of_def)
  qed
  show "t = s" using assms(4) opened by (auto simp: compile_def split: sum.splits if_splits)
  show "\<exists>f b. box = FSTBox f \<and> data = Some b \<and> LoadFST vp b = Inr f" if "backend r \<noteq> MatcherRadix"
  proof -
    from that assms(4) opened obtain f b where "BuildFST vp srcs = Inr (f, b, n)" "box = FSTBox f" "data = Some b"
      by (auto simp: compile_def split: sum.splits)
    with vellum_pkg.BuildFST_rules [OF assms(3) proper] show ?thesis by (simp add: LoadFST_def)
  qed
qed

lemma compile_answers:
  assumes "list_all2 (stored (rstore r) s) (sources r) rss" and "vellum_pkg vp content"
    and "compile vp r (calm s) = (Inr (box, data, n), t)"
  shows "boxLookup vp box d = answer_of (map2 run_rules (sources r) rss) d" and "t = calm s"
    and "backend r \<noteq> MatcherRadix \<Longrightarrow> \<exists>f b. box = FSTBox f \<and> data = Some b \<and> LoadFST vp b = Inr f"
  using compile_opened [OF openRuns_written [OF assms(1)] map2_proper [OF assms(1)] assms(2,3)] by blast+

text \<open>
  From the files to the answers: when the runs of all sources are on the disk, the router that
  compiles them answers each domain with the action of the merged rules, whatever the backend: the
  rules of a run are its records in order, and sources that come later override those before.
  Without a matcher every domain passes.
\<close>

lemma router_answers:
  assumes "list_all2 (stored (rstore r) s) (sources r) rss" and "vellum_pkg vp content"
    and "compile vp r (calm s) = (Inr (box, data, n), t)"
  shows "Lookup vp (r\<lparr>rM := Some box\<rparr>) d = answer_of (map2 run_rules (sources r) rss) d \<and>
    Lookup vp (r\<lparr>rM := None\<rparr>) d = ActionPass"
  using compile_answers(1) [OF assms, of d] by (simp add: Lookup_def)

text \<open>
  C28. A warm start answers like the process that stopped: when the matcher that was compiled from
  the runs has been saved, a router with the FST backend that starts again loads it, is ready
  before any source is fetched, and gives every domain the same action. Each source had a run, written within the
  bounds of the format, when the matcher was compiled, and the saved matcher is smaller than 4 GiB.
\<close>

theorem warm_start:
  assumes "list_all2 (stored (rstore r) s) (sources r) rss" and "vellum_pkg vp content"
    and "compile vp r (calm s) = (Inr (box, Some data, n), t)"
    and "SaveFST (rstore r) data u = (None, v)" and "length data < 2 ^ 32"
    and "backend r \<noteq> MatcherRadix"
  shows "\<exists>r'. LoadCached vp (r\<lparr>rM := None\<rparr>) (calm v) = ((length data, r'), calm v) \<and> Ready r' \<and>
    (\<forall>d. Lookup vp r' d = Lookup vp (r\<lparr>rM := Some box\<rparr>) d)"
proof -
  obtain f where f: "box = FSTBox f" "LoadFST vp data = Inr f"
    using compile_answers(3) [OF assms(1-3,6)] by auto
  have "loadFSTData (rstore r) (calm v) = (Inr data, calm v)"
    by (rule loadFSTData_saved [OF SaveFST_done [OF assms(4)] assms(5)])
  with f assms(6) have "LoadCached vp (r\<lparr>rM := None\<rparr>) (calm v) = ((length data, r\<lparr>rM := Some box\<rparr>), calm v)"
    by (simp add: LoadCached_def Let_def)
  then show ?thesis by (auto simp: Ready_def Lookup_def)
qed

section \<open>An example\<close>

definition demo_router :: "bytes \<Rightarrow> (bytes, (bytes \<times> u64) list) Router" where
  "demo_router b = \<lparr>sources = [demo_source], rstore = demo_store, backend = b, rM = None\<rparr>"

definition demo_recs :: "Record list" where
  "demo_recs = [Record ''com.example'' MatchPrefix]"

definition demo_rules :: RunSource where
  "demo_rules = \<lparr>Next = [(''com.example'', MatchPrefix)], Action = ActionRemap, Prune = False\<rparr>"

lemma demo_stored: "\<exists>s. list_all2 (stored demo_store s) [demo_source] [demo_recs]"
proof -
  have "writable (runsDir demo_store, runFile (Name demo_source)) demo_fs"
    by (rule demo_writable) (simp add: demo_store_def)
  from WriteRun_live [OF this] obtain t where
    "WriteRun demo_store (Name demo_source) noValidator demo_recs demo_fs = (None, t)" by blast
  moreover have "good_records demo_recs"
    by (simp add: good_records_def demo_recs_def written_def dataLen_def recordHeaderLen_def)
  moreover have "short noValidator" by (simp add: short_def noValidator_def)
  ultimately have "stored demo_store t demo_source demo_recs"
    unfolding stored_def using WriteRun_done by blast
  then show ?thesis by (intro exI [of _ t]) simp
qed

lemma demo_run_rules: "run_rules demo_source demo_recs = demo_rules"
  by (simp add: run_rules_def demo_recs_def demo_rules_def demo_source_def written_def)

lemma demo_rules_resolved: "resolved [demo_rules] = [(''com.example'', ActionRemap, MatchPrefix)]"
  by (simp add: resolved_def all_keys_def keys_of_def dropped_def resolved_rule_def winner_of_def
      demo_rules_def labelCovers_def Let_def)

lemma demo_answer: "answer_of [demo_rules] ''www.example.com'' = ActionRemap"
proof -
  have "ReverseLabels ''www.example.com'' = ''com.example.www''"
    using ReverseLabels_dotted [of "[''www'', ''example'', ''com'']"] by (simp add: label_def)
  then show ?thesis
    by (simp add: answer_of_def rules_table_def demo_rules_resolved resolve_def numeral_nat)
qed

lemma demo_proper_rules: "\<forall>src \<in> set [demo_rules]. proper src"
  by (simp add: proper_def ascending_def demo_rules_def)

lemma demo_compile:
  assumes "list_all2 (stored demo_store s) [demo_source] [demo_recs]"
  shows "\<exists>rx. compile memVellum (demo_router MatcherRadix) (calm s) = (Inr (RadixBox rx, None, 1), calm s)"
    and "\<exists>f data. compile memVellum (demo_router ''fst'') (calm s) = (Inr (FSTBox f, Some data, 1), calm s) \<and>
      length data < 2 ^ 32"
proof -
  note opened = openRuns_written [OF assms]
  have asc: "\<forall>src \<in> set [demo_rules]. ascending src" using demo_proper_rules by (simp add: proper_def)
  show "\<exists>rx. compile memVellum (demo_router MatcherRadix) (calm s) = (Inr (RadixBox rx, None, 1), calm s)"
    using opened BuildRadix_insertAll [OF demo_proper_rules]
    by (simp add: compile_def demo_router_def demo_run_rules demo_rules_resolved)
  have "emitAll (fstEmit memVellum) (resolved [demo_rules]) 0 [] =
      (1, None, [(''com.example'', fstValue ActionRemap MatchPrefix)])"
    by (simp add: demo_rules_resolved fstEmit_def fstValue_def Let_def)
  then have "\<exists>f data. BuildFST memVellum [demo_rules] = Inr (f, data, 1) \<and> length data < 2 ^ 32"
    by (simp add: BuildFST_def mergeResolve_resolved [OF asc] LoadFST_def memParse_data memData_def memBlock_def)
  then show "\<exists>f data. compile memVellum (demo_router ''fst'') (calm s) = (Inr (FSTBox f, Some data, 1), calm s) \<and>
      length data < 2 ^ 32"
    using opened by (auto simp: compile_def demo_router_def demo_run_rules MatcherRadix_def)
qed


lemma router_answers_witness:
  "\<exists>s box data n t. compile memVellum (demo_router MatcherRadix) (calm s) = (Inr (box, data, n), t) \<and>
     Lookup memVellum ((demo_router MatcherRadix)\<lparr>rM := Some box\<rparr>) ''www.example.com'' = ActionRemap"
proof -
  obtain s where s: "list_all2 (stored demo_store s) [demo_source] [demo_recs]" using demo_stored by blast
  obtain rx where c: "compile memVellum (demo_router MatcherRadix) (calm s) = (Inr (RadixBox rx, None, 1), calm s)"
    using demo_compile(1) [OF s] by blast
  have "list_all2 (stored (rstore (demo_router MatcherRadix)) s) (sources (demo_router MatcherRadix)) [demo_recs]"
    using s by (simp add: demo_router_def)
  from router_answers [OF this memVellum.vellum_pkg_axioms c, of "''www.example.com''"] demo_answer
  have "Lookup memVellum ((demo_router MatcherRadix)\<lparr>rM := Some (RadixBox rx)\<rparr>) ''www.example.com'' = ActionRemap"
    by (simp add: demo_router_def demo_run_rules)
  with c show ?thesis by blast
qed

lemma warm_start_witness:
  "\<exists>v n r'. LoadCached memVellum (demo_router ''fst'') (calm v) = ((n, r'), calm v) \<and> Ready r' \<and>
     Lookup memVellum r' ''www.example.com'' = ActionRemap"
proof -
  let ?r = "demo_router ''fst''"
  obtain s where s: "list_all2 (stored demo_store s) [demo_source] [demo_recs]" using demo_stored by blast
  obtain f data where c: "compile memVellum ?r (calm s) = (Inr (FSTBox f, Some data, 1), calm s)"
    and len: "length data < 2 ^ 32"
    using demo_compile(2) [OF s] by blast
  have st: "list_all2 (stored (rstore ?r) s) (sources ?r) [demo_recs]" using s by (simp add: demo_router_def)
  have "writable (dir demo_store, fstName) demo_fs" by (rule demo_writable) (simp add: demo_store_def)
  from SaveFST_live [OF this] obtain v where v: "SaveFST (rstore ?r) data demo_fs = (None, v)"
    by (auto simp: demo_router_def)
  have fst: "backend ?r \<noteq> MatcherRadix" by (simp add: demo_router_def MatcherRadix_def)
  have none: "?r\<lparr>rM := None\<rparr> = ?r" by (simp add: demo_router_def)
  have "Lookup memVellum (?r\<lparr>rM := Some (FSTBox f)\<rparr>) ''www.example.com'' = ActionRemap"
    using compile_answers(1) [OF st memVellum.vellum_pkg_axioms c, of "''www.example.com''"] demo_answer
    by (simp add: Lookup_def demo_run_rules demo_router_def)
  with warm_start [OF st memVellum.vellum_pkg_axioms c v len fst] show ?thesis
    unfolding none by metis
qed

end
