(* ===== verification/Dns_Cache.thy ===== *)
theory Dns_Cache
  imports Answer
begin

text \<open>
  The cache of replies, \<open>src/server/cache/cache.go\<close>. The package \<open>github.com/jellydator/ttlcache\<close>
  is the record \<open>ttlPkg\<close> of the operations that are called, over its state \<^typ>\<open>'c\<close>; the locale
  \<open>ttl_cache\<close> states what it documents of them. A call happens at one instant \<open>now\<close>. Without
  another call for the same key in flight, \<open>singleflight.Do\<close> calls its function; a caller that
  joins a flight gets a copy of its result, as \<open>joinFlight\<close> says. Messages are values here: the
  copies that the code takes because records are shared behind pointers are the values themselves.
\<close>

section \<open>The package\<close>

record 'c ttlPkg =
  tcGet :: "bytes \<Rightarrow> time \<Rightarrow> 'c \<Rightarrow> (msg \<times> time) option \<times> 'c"
  tcSet :: "bytes \<Rightarrow> msg \<Rightarrow> duration \<Rightarrow> time \<Rightarrow> 'c \<Rightarrow> 'c"
  tcLen :: "'c \<Rightarrow> nat"

text \<open>
  A cache without extension on access: \<open>Get\<close> gives the item of the key or nothing, and \<open>Set\<close> with a
  positive duration makes the item of the key; both may evict other items.
\<close>

locale ttl_cache =
  fixes pkg :: "'c ttlPkg"
    and items :: "'c \<Rightarrow> bytes \<rightharpoonup> msg \<times> time"
  assumes get_item: "tcGet pkg k now c = (r, c') \<Longrightarrow> (r = None \<or> r = items c k) \<and> items c' \<subseteq>\<^sub>m items c"
    and set_item: "0 < d \<Longrightarrow> items (tcSet pkg k m d now c) \<subseteq>\<^sub>m (items c)(k \<mapsto> (m, now + d))"

section \<open>State and operations\<close>

record 'c Cache =
  cCache :: 'c
  minTTL :: duration
  maxTTL :: duration

definition NewCache :: "'c \<Rightarrow> duration \<Rightarrow> duration \<Rightarrow> 'c Cache" where
  "NewCache c mn mx = \<lparr>cCache = c, minTTL = mn, maxTTL = mx\<rparr>"

definition seconds :: duration where "seconds = 1000000000"

definition defaultTTL :: duration where "defaultTTL = 0"

definition keySep :: char where "keySep = CHR 0x7C"

definition cacheKey :: "bytes \<Rightarrow> u16 \<Rightarrow> u16 \<Rightarrow> bytes" where
  "cacheKey name qtype qclass =
     name @ [keySep] @ decimal (unat qtype) @ [keySep] @ decimal (unat qclass)"

definition cloneWithTTL :: "rr list \<Rightarrow> u32 \<Rightarrow> rr list" where
  "cloneWithTTL rrs t = map (setTTL t) rrs"

definition getByKey :: "'c ttlPkg \<Rightarrow> time \<Rightarrow> msg \<Rightarrow> bytes \<Rightarrow> 'c Cache \<Rightarrow> msg option \<times> 'c Cache" where
  "getByKey pkg now req key c =
     (case tcGet pkg key now (cCache c) of
        (None, cc) \<Rightarrow> (None, c\<lparr>cCache := cc\<rparr>)
      | (Some (m, expires), cc) \<Rightarrow>
          (let itemTTL = expires - now
           in if itemTTL \<le> 0 then (None, c\<lparr>cCache := cc\<rparr>)
              else
                (let t = word_of_int (itemTTL div seconds) :: u32
                 in (Some (m\<lparr>ID := ID req, Answer := cloneWithTTL (Answer m) t,
                       Ns := cloneWithTTL (Ns m) t, Extra := cloneWithTTL (Extra m) t\<rparr>),
                     c\<lparr>cCache := cc\<rparr>))))"

text \<open>The first SOA record of the authority section.\<close>

fun firstSOA :: "rr list \<Rightarrow> (hdr \<times> soa) option" where
  "firstSOA [] = None"
| "firstSOA (SOA h s # rrs) = Some (h, s)"
| "firstSOA (_ # rrs) = firstSOA rrs"

definition minRecordTTL :: "rr list \<Rightarrow> u32 \<Rightarrow> u32" where
  "minRecordTTL rrs t = fold (\<lambda>x t. min t (hTTL (header x))) rrs t"

text \<open>The duration of a reply whose caller gave none; \<^const>\<open>None\<close> where the code returns.\<close>

definition replyTTL :: "msg \<Rightarrow> duration option" where
  "replyTTL m =
     (if Rcode m = RcodeNameError then
        (case firstSOA (Ns m) of
           None \<Rightarrow> None
         | Some (h, s) \<Rightarrow> Some (uint (min (hTTL h) (soaMin s)) * seconds))
      else
        (let t = minRecordTTL (Extra m) (minRecordTTL (Ns m) (minRecordTTL (Answer m) (-1)))
         in if t = -1 then None else Some (uint t * seconds)))"

definition clampTTL :: "'c Cache \<Rightarrow> duration \<Rightarrow> duration" where
  "clampTTL c t =
     (let t = (if t > maxTTL c then maxTTL c else t)
      in if t < minTTL c then minTTL c else t)"

definition setByKey :: "'c ttlPkg \<Rightarrow> time \<Rightarrow> msg \<Rightarrow> bytes \<Rightarrow> duration \<Rightarrow> 'c Cache \<Rightarrow> 'c Cache" where
  "setByKey pkg now resp key t c =
     (if Rcode resp \<noteq> RcodeSuccess \<and> Rcode resp \<noteq> RcodeNameError then c
      else if Truncated resp then c
      else case (if t = defaultTTL then replyTTL resp else Some t) of
        None \<Rightarrow> c
      | Some t \<Rightarrow> c\<lparr>cCache := tcSet pkg key resp (clampTTL c t) now (cCache c)\<rparr>)"

text \<open>The lambda works on the state \<^typ>\<open>'s\<close> of its caller.\<close>

type_synonym 's lambda = "'s \<Rightarrow> (msg option \<times> duration \<times> error option) \<times> 's"

definition joinFlight :: "msg \<Rightarrow> msg option \<Rightarrow> msg option" where
  "joinFlight req r = map_option (\<lambda>r. r\<lparr>Data := [], ID := ID req\<rparr>) r"

definition GetResponseLambda ::
  "'c ttlPkg \<Rightarrow> time \<Rightarrow> msg \<Rightarrow> bytes \<Rightarrow> 's lambda \<Rightarrow> 'c Cache \<Rightarrow> 's \<Rightarrow> (msg option \<times> bool) \<times> 'c Cache \<times> 's"
where
  "GetResponseLambda pkg now req name lambda c s =
     (if name = [] \<or> length (Question req) \<noteq> 1 then
        (case lambda s of
           ((resp, _, Some err), s) \<Rightarrow> ((None, False), c, s)
         | ((resp, _, None), s) \<Rightarrow> ((resp, False), c, s))
      else
        (let q = hd (Question req);
             key = cacheKey name (rrType q) (hClass (header q))
         in case getByKey pkg now req key c of
              (Some resp, c) \<Rightarrow> ((Some resp, True), c, s)
            | (None, c) \<Rightarrow>
                (case lambda s of
                   ((_, _, Some err), s) \<Rightarrow> ((joinFlight req None, False), c, s)
                 | ((None, _, None), s) \<Rightarrow> ((joinFlight req None, False), c, s)
                 | ((Some r, t, None), s) \<Rightarrow>
                     ((joinFlight req (Some r), False), setByKey pkg now (r\<lparr>Data := []\<rparr>) key t c, s))))"

definition cLen :: "'c ttlPkg \<Rightarrow> 'c Cache \<Rightarrow> nat" where
  "cLen pkg c = tcLen pkg (cCache c)"

section \<open>Keys\<close>

lemma split_at_last:
  assumes "xs @ c # ys = xs' @ c # ys'" and "c \<notin> set ys" and "c \<notin> set ys'"
  shows "xs = xs' \<and> ys = ys'"
  using assms by (auto simp: append_eq_append_conv2 append_eq_Cons_conv Cons_eq_append_conv)

lemma keySep_decimal: "keySep \<notin> set (decimal n)"
  using decimal_digits [of keySep n] by (auto simp: keySep_def)

text \<open>
  No two questions share an entry of the cache: the key determines the name, the type and the
  class, also for names that contain the separator.
\<close>

lemma cacheKey_injective:
  "cacheKey n t c = cacheKey n' t' c' \<longleftrightarrow> n = n' \<and> t = t' \<and> c = c'"
proof
  assume eq: "cacheKey n t c = cacheKey n' t' c'"
  then have "(n @ keySep # decimal (unat t)) @ keySep # decimal (unat c) =
      (n' @ keySep # decimal (unat t')) @ keySep # decimal (unat c')"
    by (simp add: cacheKey_def)
  from split_at_last [OF this keySep_decimal keySep_decimal]
  have 1: "n @ keySep # decimal (unat t) = n' @ keySep # decimal (unat t')"
    and 2: "decimal (unat c) = decimal (unat c')" by simp_all
  from split_at_last [OF 1 keySep_decimal keySep_decimal] 2
  show "n = n' \<and> t = t' \<and> c = c'" by (simp add: decimal_inj word_unat_eq_iff)
qed simp

section \<open>What is cached, and for how long\<close>

text \<open>A reply that may be cached.\<close>

definition cacheable :: "msg \<Rightarrow> bool" where
  "cacheable m \<longleftrightarrow> (Rcode m = RcodeSuccess \<or> Rcode m = RcodeNameError) \<and> \<not> Truncated m \<and> Data m = []"

text \<open>
  The invariant of the cache: the item of the key \<open>k\<close> is a reply that may be cached and satisfies \<open>Q k\<close>,
  and expires no later than the longest duration from now.
\<close>

definition keyed_inv ::
  "('c \<Rightarrow> bytes \<rightharpoonup> msg \<times> time) \<Rightarrow> (bytes \<Rightarrow> msg \<Rightarrow> bool) \<Rightarrow> time \<Rightarrow> 'c Cache \<Rightarrow> bool"
where
  "keyed_inv items Q now c \<longleftrightarrow> 0 < minTTL c \<and> minTTL c \<le> maxTTL c \<and>
     (\<forall>k m e. items (cCache c) k = Some (m, e) \<longrightarrow> cacheable m \<and> Q k m \<and> e \<le> now + maxTTL c)"

abbreviation cache_inv ::
  "('c \<Rightarrow> bytes \<rightharpoonup> msg \<times> time) \<Rightarrow> (msg \<Rightarrow> bool) \<Rightarrow> time \<Rightarrow> 'c Cache \<Rightarrow> bool"
where
  "cache_inv items P \<equiv> keyed_inv items (\<lambda>k. P)"

lemmas cache_inv_def = keyed_inv_def

lemma map_le_Some: "f \<subseteq>\<^sub>m g \<Longrightarrow> f k = Some x \<Longrightarrow> g k = Some x"
  by (metis domI map_le_def)

lemma clampTTL_max: "minTTL c \<le> maxTTL c \<Longrightarrow> clampTTL c t = max (minTTL c) (min (maxTTL c) t)"
  by (auto simp: clampTTL_def Let_def)

lemma clampTTL_bounds:
  "minTTL c \<le> maxTTL c \<Longrightarrow> minTTL c \<le> clampTTL c t \<and> clampTTL c t \<le> maxTTL c"
  by (auto simp: clampTTL_def Let_def)

lemma cache_inv_later: "keyed_inv items Q now c \<Longrightarrow> now \<le> later \<Longrightarrow> keyed_inv items Q later c"
  by (fastforce simp: cache_inv_def)

lemma cache_inv_le:
  "keyed_inv items Q now c \<Longrightarrow> items cc \<subseteq>\<^sub>m items (cCache c) \<Longrightarrow> keyed_inv items Q now (c\<lparr>cCache := cc\<rparr>)"
  by (auto simp: cache_inv_def dest!: map_le_Some)

text \<open>A reply from the cache: a cached message with the identity of the request and new durations.\<close>

definition served :: "msg \<Rightarrow> msg \<Rightarrow> u32 \<Rightarrow> msg \<Rightarrow> bool" where
  "served req m t resp \<longleftrightarrow>
     resp = m\<lparr>ID := ID req, Answer := map (setTTL t) (Answer m), Ns := map (setTTL t) (Ns m),
       Extra := map (setTTL t) (Extra m)\<rparr>"

context ttl_cache
begin

lemma getByKey_inv:
  assumes "keyed_inv items Q now c" and "getByKey pkg now req key c = (r, c')"
  shows "keyed_inv items Q now c' \<and> maxTTL c' = maxTTL c \<and> minTTL c' = minTTL c \<and>
    (\<forall>resp. r = Some resp \<longrightarrow> (\<exists>m e. items (cCache c) key = Some (m, e) \<and> now < e \<and>
       served req m (word_of_int ((e - now) div seconds)) resp))"
proof -
  obtain g cc where g: "tcGet pkg key now (cCache c) = (g, cc)" by (rule prod.exhaust)
  note item = get_item [OF g]
  have c': "c' = c\<lparr>cCache := cc\<rparr>"
    using assms(2) g by (auto simp: getByKey_def Let_def split: option.splits if_splits)
  have "keyed_inv items Q now c'" unfolding c' using cache_inv_le [OF assms(1)] item by blast
  moreover have "\<exists>m e. items (cCache c) key = Some (m, e) \<and> now < e \<and>
       served req m (word_of_int ((e - now) div seconds)) resp" if r: "r = Some resp" for resp
  proof -
    from r assms(2) g obtain m e where "g = Some (m, e)" and "now < e"
      and "served req m (word_of_int ((e - now) div seconds)) resp"
      by (auto simp: getByKey_def Let_def served_def cloneWithTTL_def split: option.splits if_splits)
    moreover from this item have "items (cCache c) key = Some (m, e)" by simp
    ultimately show ?thesis by blast
  qed
  ultimately show ?thesis by (simp add: c')
qed

lemma setByKey_inv:
  assumes "keyed_inv items Q now c" and "Q key m" and "Data m = []"
  shows "keyed_inv items Q now (setByKey pkg now m key t c)"
proof (cases "setByKey pkg now m key t c = c")
  case False
  then obtain d where "cacheable m"
    and set: "setByKey pkg now m key t c = c\<lparr>cCache := tcSet pkg key m (clampTTL c d) now (cCache c)\<rparr>"
    using assms(3) by (auto simp: setByKey_def cacheable_def split: option.splits if_splits)
  have mn: "0 < minTTL c" "minTTL c \<le> maxTTL c" using assms(1) by (simp_all add: cache_inv_def)
  note b = clampTTL_bounds [OF mn(2), of d]
  have "items (tcSet pkg key m (clampTTL c d) now (cCache c)) \<subseteq>\<^sub>m
      (items (cCache c))(key \<mapsto> (m, now + clampTTL c d))"
    by (rule set_item) (use b mn in linarith)
  note le = map_le_Some [OF this]
  show ?thesis
    unfolding set cache_inv_def
  proof (intro conjI allI impI)
    show "0 < minTTL (c\<lparr>cCache := tcSet pkg key m (clampTTL c d) now (cCache c)\<rparr>)"
      "minTTL (c\<lparr>cCache := tcSet pkg key m (clampTTL c d) now (cCache c)\<rparr>) \<le>
        maxTTL (c\<lparr>cCache := tcSet pkg key m (clampTTL c d) now (cCache c)\<rparr>)"
      using mn by simp_all
  next
    fix k x e
    assume "items (cCache (c\<lparr>cCache := tcSet pkg key m (clampTTL c d) now (cCache c)\<rparr>)) k = Some (x, e)"
    then have "items (tcSet pkg key m (clampTTL c d) now (cCache c)) k = Some (x, e)" by simp
    then have it: "if k = key then (x, e) = (m, now + clampTTL c d) else items (cCache c) k = Some (x, e)"
      by (auto dest!: le split: if_splits)
    have old: "cacheable x \<and> Q k x \<and> e \<le> now + maxTTL c" if "items (cCache c) k = Some (x, e)"
      using assms(1) that by (auto simp: cache_inv_def)
    show "cacheable x" "Q k x" "e \<le> now + maxTTL (c\<lparr>cCache := tcSet pkg key m (clampTTL c d) now (cCache c)\<rparr>)"
      using it old b assms(2) \<open>cacheable m\<close> by (auto split: if_splits)
  qed
qed (use assms in simp)

end

section \<open>Answers from the cache and from upstream\<close>

text \<open>What \<open>P\<close> says of a message does not depend on its identity, its durations or its packed form.\<close>

definition stable :: "(msg \<Rightarrow> bool) \<Rightarrow> bool" where
  "stable P \<longleftrightarrow> (\<forall>m i d. P m \<longrightarrow> P (m\<lparr>ID := i, Data := d\<rparr>)) \<and>
     (\<forall>m i t. P m \<longrightarrow> P (m\<lparr>ID := i, Answer := map (setTTL t) (Answer m),
        Ns := map (setTTL t) (Ns m), Extra := map (setTTL t) (Extra m)\<rparr>))"

lemma stable_data: "stable P \<Longrightarrow> P m \<Longrightarrow> P (m\<lparr>Data := d\<rparr>)"
proof -
  assume "stable P" "P m"
  then have "P (m\<lparr>ID := ID m, Data := d\<rparr>)" unfolding stable_def by blast
  then show ?thesis by simp
qed

definition replies :: "'s lambda \<Rightarrow> (msg \<Rightarrow> bool) \<Rightarrow> 's \<Rightarrow> bool" where
  "replies lambda P s \<longleftrightarrow> (\<forall>r d s'. lambda s = ((Some r, d, None), s') \<longrightarrow> P r)"

definition keyOf :: "msg \<Rightarrow> bytes \<Rightarrow> bytes" where
  "keyOf req name = (let q = hd (Question req) in cacheKey name (rrType q) (hClass (header q)))"

context ttl_cache
begin

lemma GetResponse_cases:
  assumes "cache_inv items P now c" and "stable P" and "replies lambda P s"
    and "GetResponseLambda pkg now req name lambda c s = ((resp, hit), c', s')"
  shows "cache_inv items P now c' \<and>
    (if hit then s' = s \<and> name \<noteq> [] \<and>
       (\<exists>m e r. items (cCache c) (keyOf req name) = Some (m, e) \<and> now < e \<and> e \<le> now + maxTTL c \<and>
          cacheable m \<and> P m \<and> resp = Some r \<and> served req m (word_of_int ((e - now) div seconds)) r)
     else (\<exists>r d err. lambda s = ((r, d, err), s') \<and>
       (if err \<noteq> None then resp = None
        else if name = [] \<or> length (Question req) \<noteq> 1 then resp = r
        else resp = joinFlight req r)))"
proof (cases "name = [] \<or> length (Question req) \<noteq> 1")
  case True
  with assms(1,4) show ?thesis
    by (auto simp: GetResponseLambda_def split: prod.splits option.splits)
next
  case False
  obtain g c1 where g: "getByKey pkg now req (keyOf req name) c = (g, c1)" by (rule prod.exhaust)
  note hit = getByKey_inv [OF assms(1) g]
  show ?thesis
  proof (cases g)
    case (Some r)
    with assms(4) False g have "resp = Some r" "hit" "c' = c1" "s' = s"
      by (auto simp: GetResponseLambda_def keyOf_def Let_def)
    with hit Some False assms(1) show ?thesis by (fastforce simp: cache_inv_def)
  next
    case None
    obtain r d err s1 where l: "lambda s = ((r, d, err), s1)" by (metis prod.collapse)
    have miss: "hit = False" "s' = s1" "err \<noteq> None \<Longrightarrow> resp = None" "err = None \<Longrightarrow> resp = joinFlight req r"
      using assms(4) False g None l
      by (auto simp: GetResponseLambda_def keyOf_def Let_def joinFlight_def split: option.splits)
    have "c' = c1 \<or> (\<exists>m. P m \<and> Data m = [] \<and> c' = setByKey pkg now m (keyOf req name) d c1)"
    proof (cases "err = None \<and> r \<noteq> None")
      case True
      then obtain m where m: "r = Some m" and "P m" using assms(3) l by (auto simp: replies_def)
      then have "P (m\<lparr>Data := []\<rparr>)" using assms(2) stable_data by blast
      moreover have "c' = setByKey pkg now (m\<lparr>Data := []\<rparr>) (keyOf req name) d c1"
        using assms(4) False g None l True m by (auto simp: GetResponseLambda_def keyOf_def Let_def)
      ultimately show ?thesis by auto
    next
      case False': False
      have "c' = c1"
        using assms(4) False g None l False'
        by (auto simp: GetResponseLambda_def keyOf_def Let_def split: option.splits)
      then show ?thesis ..
    qed
    with hit setByKey_inv have "cache_inv items P now c'" by metis
    with l miss False show ?thesis by simp
  qed
qed

end

text \<open>
  C13. What a client gets from the cache is what was cached for its question: a hit is a stored reply
  that may be cached (successful or a name error, not truncated, not packed) with the identity of
  the request, and the durations of its records are the whole seconds that remain, which is at most
  the configured maximum. A miss asks upstream once and gives that reply, or nothing after an
  error. Whatever all replies from upstream satisfy, all replies in the cache satisfy.
\<close>

theorem cache_answers:
  assumes "ttl_cache pkg items" and "cache_inv items P now c" and "stable P" and "replies lambda P s"
    and "GetResponseLambda pkg now req name lambda c s = ((resp, hit), c', s')"
    and "maxTTL c < 2 ^ 32 * seconds"
  shows "cache_inv items P now c' \<and>
    (if hit then s' = s \<and>
       (\<exists>m e r t. items (cCache c) (keyOf req name) = Some (m, e) \<and> cacheable m \<and> P m \<and>
          resp = Some r \<and> served req m t r \<and> uint t * seconds \<le> e - now \<and> e - now < (uint t + 1) * seconds \<and>
          e - now \<le> maxTTL c)
     else (\<exists>r d err. lambda s = ((r, d, err), s') \<and>
       (if err \<noteq> None then resp = None
        else if name = [] \<or> length (Question req) \<noteq> 1 then resp = r
        else resp = joinFlight req r)))"
proof -
  note cases = ttl_cache.GetResponse_cases [OF assms(1-5)]
  show ?thesis
  proof (cases hit)
    case True
    with cases obtain m e r where it: "items (cCache c) (keyOf req name) = Some (m, e)"
      and e: "now < e" "e \<le> now + maxTTL c" and m: "cacheable m" "P m" and s: "s' = s"
      and r: "resp = Some r" "served req m (word_of_int ((e - now) div seconds)) r"
      by auto
    have q: "(e - now) div seconds * seconds \<le> e - now" "e - now < ((e - now) div seconds + 1) * seconds"
      by (simp_all add: seconds_def)
    have "0 \<le> (e - now) div seconds" using e by (simp add: seconds_def)
    moreover have "(e - now) div seconds < 2 ^ 32"
      using q e assms(6) by (simp add: seconds_def)
    ultimately have t: "uint (word_of_int ((e - now) div seconds) :: u32) = (e - now) div seconds"
      by (simp add: uint_word_of_int)
    with q cases it e m s r t True show ?thesis by auto
  next
    case False
    with cases show ?thesis by simp
  qed
qed

section \<open>The duration of a reply\<close>

lemma minRecordTTL_le:
  "minRecordTTL rrs t \<le> t \<and> (\<forall>x \<in> set rrs. minRecordTTL rrs t \<le> hTTL (header x))"
proof (induction rrs arbitrary: t)
  case (Cons x rrs)
  from Cons.IH [of "min t (hTTL (header x))"] show ?case
    by (auto simp: minRecordTTL_def)
qed (simp add: minRecordTTL_def)

lemma minRecordTTL_in:
  "minRecordTTL rrs t = t \<or> (\<exists>x \<in> set rrs. minRecordTTL rrs t = hTTL (header x))"
proof (induction rrs arbitrary: t)
  case (Cons x rrs)
  have "minRecordTTL (x # rrs) t = minRecordTTL rrs (min t (hTTL (header x)))"
    by (simp add: minRecordTTL_def)
  with Cons.IH [of "min t (hTTL (header x))"] show ?case by (auto simp: min_def split: if_splits)
qed (simp add: minRecordTTL_def)

text \<open>The shortest duration of a record of the reply.\<close>

definition shortest :: "msg \<Rightarrow> u32" where
  "shortest m = minRecordTTL (Extra m) (minRecordTTL (Ns m) (minRecordTTL (Answer m) (-1)))"

lemma shortest_le: "x \<in> set (Answer m @ Ns m @ Extra m) \<Longrightarrow> shortest m \<le> hTTL (header x)"
  using minRecordTTL_le [of "Answer m" "-1"] minRecordTTL_le [of "Ns m" "minRecordTTL (Answer m) (-1)"]
    minRecordTTL_le [of "Extra m" "minRecordTTL (Ns m) (minRecordTTL (Answer m) (-1))"]
  unfolding shortest_def by (auto intro: order_trans)

lemma shortest_in: "shortest m = -1 \<or> (\<exists>x \<in> set (Answer m @ Ns m @ Extra m). shortest m = hTTL (header x))"
  using minRecordTTL_in [of "Answer m" "-1"] minRecordTTL_in [of "Ns m" "minRecordTTL (Answer m) (-1)"]
    minRecordTTL_in [of "Extra m" "minRecordTTL (Ns m) (minRecordTTL (Answer m) (-1))"]
  unfolding shortest_def by auto

text \<open>
  C39. How long a reply is kept, when the caller of the cache leaves it open: a successful reply for the shortest
  duration of its records, a name error for the smaller of the duration and the minimum of its first SOA
  record, except that it is kept for \<open>cache.min_ttl\<close> if that is longer and for \<open>cache.max_ttl\<close> if that is shorter. A
  reply without such a duration (no records, only records of the largest duration of all, a name error without a SOA
  record), with another code, or cut off is not kept at all; README.md says of it that it is kept for \<open>cache.ttl\<close>.
\<close>

theorem cached_duration:
  assumes "minTTL c \<le> maxTTL c" and "d = setByKey pkg now m key defaultTTL c"
  shows "(\<forall>x \<in> set (Answer m @ Ns m @ Extra m). \<not> Truncated m \<and> Rcode m = RcodeSuccess \<and> hTTL (header x) \<noteq> -1 \<and>
       (\<forall>y \<in> set (Answer m @ Ns m @ Extra m). hTTL (header x) \<le> hTTL (header y)) \<longrightarrow>
         d = c\<lparr>cCache := tcSet pkg key m (max (minTTL c) (min (maxTTL c) (uint (hTTL (header x)) * seconds))) now (cCache c)\<rparr>) \<and>
    (\<forall>h s. \<not> Truncated m \<and> Rcode m = RcodeNameError \<and> firstSOA (Ns m) = Some (h, s) \<longrightarrow>
         d = c\<lparr>cCache := tcSet pkg key m (max (minTTL c) (min (maxTTL c) (uint (min (hTTL h) (soaMin s)) * seconds))) now (cCache c)\<rparr>) \<and>
    (Truncated m \<or> Rcode m \<notin> {RcodeSuccess, RcodeNameError} \<or>
       Rcode m = RcodeSuccess \<and> (\<forall>x \<in> set (Answer m @ Ns m @ Extra m). hTTL (header x) = -1) \<or>
       Rcode m = RcodeNameError \<and> firstSOA (Ns m) = None \<longrightarrow> d = c)"
proof (intro conjI allI ballI impI)
  fix x assume x: "x \<in> set (Answer m @ Ns m @ Extra m)"
    and m: "\<not> Truncated m \<and> Rcode m = RcodeSuccess \<and> hTTL (header x) \<noteq> -1 \<and>
       (\<forall>y \<in> set (Answer m @ Ns m @ Extra m). hTTL (header x) \<le> hTTL (header y))"
  have le: "shortest m \<le> hTTL (header x)" by (rule shortest_le [OF x])
  have "shortest m \<noteq> -1" using le m by (metis word_n1_ge order_antisym)
  with shortest_in [of m] m have "hTTL (header x) \<le> shortest m" by metis
  with le have "shortest m = hTTL (header x)" by simp
  with m assms(2) show "d = c\<lparr>cCache := tcSet pkg key m
      (max (minTTL c) (min (maxTTL c) (uint (hTTL (header x)) * seconds))) now (cCache c)\<rparr>"
    by (simp add: setByKey_def clampTTL_max [OF assms(1)] replyTTL_def shortest_def [symmetric] rcode_defs Let_def)
next
  fix h s assume "\<not> Truncated m \<and> Rcode m = RcodeNameError \<and> firstSOA (Ns m) = Some (h, s)"
  with assms(2) show "d = c\<lparr>cCache := tcSet pkg key m
      (max (minTTL c) (min (maxTTL c) (uint (min (hTTL h) (soaMin s)) * seconds))) now (cCache c)\<rparr>"
    by (simp add: setByKey_def clampTTL_max [OF assms(1)] replyTTL_def rcode_defs)
next
  assume "Truncated m \<or> Rcode m \<notin> {RcodeSuccess, RcodeNameError} \<or>
       Rcode m = RcodeSuccess \<and> (\<forall>x \<in> set (Answer m @ Ns m @ Extra m). hTTL (header x) = -1) \<or>
       Rcode m = RcodeNameError \<and> firstSOA (Ns m) = None"
  moreover have "shortest m = -1" if "\<forall>x \<in> set (Answer m @ Ns m @ Extra m). hTTL (header x) = -1"
    using shortest_in [of m] that by metis
  ultimately show "d = c"
    using assms(2) by (auto simp: setByKey_def replyTTL_def shortest_def [symmetric] rcode_defs)
qed

section \<open>An example\<close>

text \<open>A cache that keeps everything.\<close>

definition memCache :: "(bytes \<times> msg \<times> time) list ttlPkg" where
  "memCache =
     \<lparr>tcGet = (\<lambda>k now c. (map_of c k, c)),
      tcSet = (\<lambda>k m d now c. (k, m, now + d) # c),
      tcLen = length\<rparr>"

interpretation memCache: ttl_cache memCache map_of
  by unfold_locales (auto simp: memCache_def)

definition demo_hdr :: hdr where
  "demo_hdr = \<lparr>hName = ''example.com.'', hTTL = 300, hClass = 1\<rparr>"

definition demo_query :: msg where
  "demo_query = \<lparr>ID = 7, Response = False, Rcode = 0, Truncated = False, UDPSize = 1232,
     Question = [A demo_hdr NoAddr], Answer = [], Ns = [], Extra = [], Data = []\<rparr>"

definition demo_reply :: msg where
  "demo_reply = demo_query\<lparr>ID := 9, Response := True, Answer := [A demo_hdr (V4 0x5DB8D822)]\<rparr>"

definition demo_cache :: "(bytes \<times> msg \<times> time) list Cache" where
  "demo_cache = \<lparr>cCache = [(keyOf demo_query ''example.com'', demo_reply, 200 * seconds)],
     minTTL = 60 * seconds, maxTTL = 3600 * seconds\<rparr>"

lemma demo_cache_inv: "cache_inv map_of (\<lambda>m. True) 0 demo_cache"
  by (simp add: cache_inv_def demo_cache_def seconds_def cacheable_def demo_reply_def demo_query_def rcode_defs)

lemma cache_answers_witness:
  "\<exists>resp c'. GetResponseLambda memCache 0 demo_query ''example.com'' (\<lambda>s. ((None, 0, None), s)) demo_cache () =
      ((Some resp, True), c', ()) \<and> ID resp = 7 \<and> map (hTTL \<circ> header) (Answer resp) = [200]"
proof -
  obtain resp hit c' u where g: "GetResponseLambda memCache 0 demo_query ''example.com''
      (\<lambda>s. ((None, 0, None), s)) demo_cache () = ((resp, hit), c', u)" by (metis prod.collapse)
  then have hit: "hit = True"
    by (auto simp: GetResponseLambda_def getByKey_def demo_cache_def demo_query_def keyOf_def memCache_def
        Let_def seconds_def)
  have "stable (\<lambda>m. True)" "replies (\<lambda>s. ((None, 0, None), s)) (\<lambda>m. True) ()"
    by (simp_all add: stable_def replies_def)
  from cache_answers [OF memCache.ttl_cache_axioms demo_cache_inv this g] hit
  obtain m e r t where it: "map_of (cCache demo_cache) (keyOf demo_query ''example.com'') = Some (m, e)"
    and r: "resp = Some r" "served demo_query m t r"
    and t: "uint t * seconds \<le> e" "e < (uint t + 1) * seconds"
    by (auto simp: demo_cache_def seconds_def)
  from it have "m = demo_reply" "e = 200 * seconds" by (simp_all add: demo_cache_def)
  moreover from this t have "uint t = 200" by (simp add: seconds_def)
  then have "t = 200" by (simp add: word_uint_eq_iff)
  ultimately show ?thesis using g hit r by (simp add: served_def demo_query_def demo_reply_def)
qed

lemma cached_duration_witness:
  "setByKey memCache 0 demo_reply ''k'' defaultTTL demo_cache =
     demo_cache\<lparr>cCache := tcSet memCache ''k'' demo_reply (300 * seconds) 0 (cCache demo_cache)\<rparr>"
proof -
  have "minTTL demo_cache \<le> maxTTL demo_cache" by (simp add: demo_cache_def seconds_def)
  from cached_duration [OF this refl, where pkg = memCache and now = 0 and m = demo_reply and key = "''k''"]
  show ?thesis by (simp add: demo_reply_def demo_query_def demo_hdr_def rcode_defs)
      (simp add: demo_cache_def seconds_def)
qed

text \<open>
  A negative answer without a name error: a successful reply with no answer and a SOA record in its
  authority section. Its minimum does not bound the duration.
\<close>

lemma nodata_ignores_minimum:
  assumes "Rcode m = RcodeSuccess" and "Answer m = []" and "Extra m = []" and "Ns m = [SOA h s]"
    and "hTTL h \<noteq> -1"
  shows "replyTTL m = Some (uint (hTTL h) * seconds)"
proof -
  have "min (-1) (hTTL h) = hTTL h" by (simp add: min.absorb2 word_n1_ge)
  with assms show ?thesis by (simp add: replyTTL_def minRecordTTL_def rcode_defs Let_def)
qed

end
