(* ===== verification/Ipt_Manager.thy ===== *)
theory Ipt_Manager
  imports Firewall Domain
begin

text \<open>
  The iptables backend, \<open>src/server/firewall/iptables/iptables.go\<close>. The package
  \<open>github.com/coreos/go-iptables\<close> is the record \<open>iptPkg\<close> of the operations that are called, over a
  state \<^typ>\<open>'s\<close>; the locale \<open>ipt_pkg\<close> states what it and the command \<open>iptables -S\<close> document. The
  text forms of IPv4 addresses (\<open>String\<close> and \<open>ParseAddr\<close> of \<open>net/netip\<close>) and \<open>strings.Fields\<close> are
  modelled as far as the backend uses them.
\<close>

section \<open>The standard packages\<close>

text \<open>\<open>strings.Fields\<close>: the parts between runs of white space. \<open>w\<close> is the part that is being read.\<close>

fun fieldsLoop :: "(nat \<times> bytes) list \<Rightarrow> bytes \<Rightarrow> bytes list" where
  "fieldsLoop [] w = (if w = [] then [] else [w])"
| "fieldsLoop ((r, b) # rs) w =
     (if isSpaceRune r then (if w = [] then fieldsLoop rs [] else w # fieldsLoop rs [])
      else fieldsLoop rs (w @ b))"

definition Fields :: "bytes \<Rightarrow> bytes list" where
  "Fields s = fieldsLoop (runes s) []"

definition TrimSuffix :: "bytes \<Rightarrow> bytes \<Rightarrow> bytes" where
  "TrimSuffix s suf = (if suffix suf s then take (length s - length suf) s else s)"

text \<open>The four bytes of an IPv4 address in decimal, with dots between them.\<close>

definition octets :: "u32 \<Rightarrow> nat list" where
  "octets u = map of_char (be_put 4 (unat u))"

fun dots :: "nat list \<Rightarrow> bytes" where
  "dots [] = []"
| "dots [n] = decimal n"
| "dots (n # ns) = decimal n @ ''.'' @ dots ns"

definition ip4String :: "u32 \<Rightarrow> bytes" where
  "ip4String u = dots (octets u)"

text \<open>
  \<open>Addr.String\<close>; the text of an IPv6 address is left open as \<open>v6\<close>, because the program hands IPv4
  addresses to its backends.
\<close>

fun addrString :: "(128 word \<Rightarrow> string \<Rightarrow> bytes) \<Rightarrow> addr \<Rightarrow> bytes" where
  "addrString v6 NoAddr = ''invalid IP''"
| "addrString v6 (V4 u) = ip4String u"
| "addrString v6 (V6 a z) = v6 a z"

definition isDigit :: "char \<Rightarrow> bool" where
  "isDigit c \<longleftrightarrow> 48 \<le> (of_char c :: nat) \<and> (of_char c :: nat) \<le> 57"

text \<open>The loop of the parser for IPv4 over the rest of the text, with the bytes so far, the value
  of the current field and the number of its digits.\<close>

fun parse4Loop :: "bytes \<Rightarrow> nat list \<Rightarrow> nat \<Rightarrow> nat \<Rightarrow> nat list option" where
  "parse4Loop [] fs v d = (if d = 0 \<or> length fs \<noteq> 3 then None else Some (fs @ [v]))"
| "parse4Loop (c # s) fs v d =
     (if isDigit c then
        (if d = 1 \<and> v = 0 then None
         else (let v = 10 * v + (of_char c - 48) in if v > 255 then None else parse4Loop s fs v (d + 1)))
      else if c = CHR ''.'' then (if d = 0 \<or> length fs = 3 then None else parse4Loop s (fs @ [v]) 0 0)
      else None)"

text \<open>
  \<open>ParseAddr\<close>, for a caller that wants IPv4: the first dot, colon or percent sign tells the family,
  and the result for another family is not an IPv4 address, like the error.
\<close>

definition ParseAddr4 :: "bytes \<Rightarrow> addr option" where
  "ParseAddr4 s =
     (case dropWhile (\<lambda>c. c \<notin> set ''.:%'') s of
        [] \<Rightarrow> None
      | c # _ \<Rightarrow>
          if c = CHR ''.'' then
            (case parse4Loop s [] 0 0 of
               None \<Rightarrow> None
             | Some fs \<Rightarrow> Some (AddrFrom4 (map char_of fs)))
          else None)"

section \<open>The package\<close>

record 's iptPkg =
  ipInit :: "'s \<Rightarrow> error option \<times> 's"
  ipChainExists :: "bytes \<Rightarrow> bytes \<Rightarrow> 's \<Rightarrow> (error + bool) \<times> 's"
  ipNewChain :: "bytes \<Rightarrow> bytes \<Rightarrow> 's \<Rightarrow> error option \<times> 's"
  ipAppendUnique :: "bytes \<Rightarrow> bytes \<Rightarrow> bytes list \<Rightarrow> 's \<Rightarrow> error option \<times> 's"
  ipDeleteIfExists :: "bytes \<Rightarrow> bytes \<Rightarrow> bytes list \<Rightarrow> 's \<Rightarrow> error option \<times> 's"
  ipList :: "bytes \<Rightarrow> bytes \<Rightarrow> 's \<Rightarrow> (error + bytes list) \<times> 's"
  ipV6 :: "128 word \<Rightarrow> string \<Rightarrow> bytes"

section \<open>Operations\<close>

definition iptTable :: bytes where "iptTable = ''nat''"
definition preroute :: bytes where "preroute = ''PREROUTING''"
definition targetDNAT :: bytes where "targetDNAT = ''DNAT''"
definition flagDest :: bytes where "flagDest = ''-d''"
definition flagJump :: bytes where "flagJump = ''-j''"
definition flagToDest :: bytes where "flagToDest = ''--to-destination''"
definition hostMaskSfx :: bytes where "hostMaskSfx = ''/32''"
definition appendRuleTag :: bytes where "appendRuleTag = ''-A''"

definition iptRule :: "'s iptPkg \<Rightarrow> addr \<Rightarrow> addr \<Rightarrow> bytes list" where
  "iptRule pkg fakeIP realIP =
     [flagDest, addrString (ipV6 pkg) fakeIP, flagJump, targetDNAT, flagToDest, addrString (ipV6 pkg) realIP]"

definition iptAdd :: "'s iptPkg \<Rightarrow> bytes \<Rightarrow> fwMapping \<Rightarrow> 's \<Rightarrow> error option \<times> 's" where
  "iptAdd pkg chn mp s = ipAppendUnique pkg iptTable chn (iptRule pkg (Fake mp) (Real mp)) s"

text \<open>The loop of \<open>Delete\<close>, with the error so far.\<close>

fun iptDeleteLoop :: "'s iptPkg \<Rightarrow> bytes \<Rightarrow> fwMapping list \<Rightarrow> error option \<Rightarrow> 's \<Rightarrow> error option \<times> 's" where
  "iptDeleteLoop pkg chn [] err s = (err, s)"
| "iptDeleteLoop pkg chn (mp # mps) err s =
     (case ipDeleteIfExists pkg iptTable chn (iptRule pkg (Fake mp) (Real mp)) s of
        (None, s) \<Rightarrow> iptDeleteLoop pkg chn mps err s
      | (Some delErr, s) \<Rightarrow>
          iptDeleteLoop pkg chn mps (Some (Join (case err of None \<Rightarrow> [delErr] | Some e \<Rightarrow> [e, delErr]))) s)"

definition iptDelete :: "'s iptPkg \<Rightarrow> bytes \<Rightarrow> fwMapping list \<Rightarrow> 's \<Rightarrow> error option \<times> 's" where
  "iptDelete pkg chn mappings s = iptDeleteLoop pkg chn mappings None s"

text \<open>The loop of \<open>parseDNATRule\<close> over the fields but the last.\<close>

fun dnatLoop :: "bytes list \<Rightarrow> bytes \<Rightarrow> bytes \<Rightarrow> bytes \<times> bytes" where
  "dnatLoop (x # y # parts) fakeStr realStr =
     (if x = flagDest then dnatLoop (y # parts) (TrimSuffix y hostMaskSfx) realStr
      else if x = flagToDest then dnatLoop (y # parts) fakeStr y
      else dnatLoop (y # parts) fakeStr realStr)"
| "dnatLoop _ fakeStr realStr = (fakeStr, realStr)"

definition parseDNATRule :: "bytes \<Rightarrow> fwMapping option" where
  "parseDNATRule r =
     (let parts = Fields r in
      if parts = [] \<or> hd parts \<noteq> appendRuleTag then None
      else
        (case dnatLoop parts [] [] of (fakeStr, realStr) \<Rightarrow>
          (case (ParseAddr4 fakeStr, ParseAddr4 realStr) of
             (Some fakeIP, Some realIP) \<Rightarrow>
               if \<not> Is4 fakeIP \<or> \<not> Is4 realIP then None else Some \<lparr>Fake = fakeIP, Real = realIP\<rparr>
           | _ \<Rightarrow> None)))"

definition iptListRules :: "'s iptPkg \<Rightarrow> bytes \<Rightarrow> 's \<Rightarrow> (error + fwMapping list) \<times> 's" where
  "iptListRules pkg chn s =
     (case ipList pkg iptTable chn s of
        (Inl err, s) \<Rightarrow> (Inl (Wrap ''failed to list chain'' err), s)
      | (Inr rules, s) \<Rightarrow> (Inr (List.map_filter parseDNATRule rules), s))"

definition iptManager :: "'s iptPkg \<Rightarrow> bytes \<Rightarrow> 's manager" where
  "iptManager pkg chn =
     \<lparr>mAdd = iptAdd pkg chn, mDelete = iptDelete pkg chn, mList = iptListRules pkg chn, mClose = (\<lambda>s. (None, s))\<rparr>"

definition NewIptManager :: "'s iptPkg \<Rightarrow> bytes \<Rightarrow> bytes \<Rightarrow> 's \<Rightarrow> (error + 's manager) \<times> 's" where
  "NewIptManager pkg chn fakeCIDR s =
     (case ipInit pkg s of
        (Some err, s) \<Rightarrow> (Inl (Wrap ''failed to init iptables'' err), s)
      | (None, s) \<Rightarrow>
      (case ipChainExists pkg iptTable chn s of
        (Inl err, s) \<Rightarrow> (Inl (Wrap ''failed to check chain'' err), s)
      | (Inr exists, s) \<Rightarrow>
      (case (if exists then (None, s) else ipNewChain pkg iptTable chn s) of
        (Some err, s) \<Rightarrow> (Inl (Wrap ''failed to create chain'' err), s)
      | (None, s) \<Rightarrow>
      (case ipAppendUnique pkg iptTable preroute [flagDest, fakeCIDR, flagJump, chn] s of
        (Some err, s) \<Rightarrow> (Inl (Wrap ''failed to add PREROUTING jump'' err), s)
      | (None, s) \<Rightarrow> (Inr (iptManager pkg chn), s)))))"

section \<open>Text and back\<close>

lemma digits_ascii: "isDigit c \<Longrightarrow> of_char c < (128 :: nat) \<and> \<not> spaceByte c \<and> c \<notin> set ''.:%/''"
  by (auto simp: isDigit_def spaceByte_def)

lemma decimal_isDigit: "c \<in> set (decimal n) \<Longrightarrow> isDigit c"
  using decimal_digits by (simp add: isDigit_def)

lemma parse4_digit:
  "k < 10 \<Longrightarrow> parse4Loop (digit k # s) fs v d =
     (if d = 1 \<and> v = 0 \<or> 10 * v + k > 255 then None else parse4Loop s fs (10 * v + k) (d + 1))"
  by (simp add: isDigit_def of_digit Let_def)

lemma decimal_small:
  "n < 10 \<Longrightarrow> decimal n = [digit n]"
  "10 \<le> n \<Longrightarrow> n < 100 \<Longrightarrow> decimal n = [digit (n div 10), digit (n mod 10)]"
  by (simp_all add: decimal.simps [of n] decimal.simps [of "n div 10"])

lemma decimal_hundreds:
  assumes "100 \<le> n" and "n < 1000"
  shows "decimal n = [digit (n div 10 div 10), digit (n div 10 mod 10), digit (n mod 10)]"
proof -
  have "10 \<le> n div 10" "n div 10 < 100" using assms by linarith+
  with assms show ?thesis by (simp only: decimal.simps [of n] decimal_small(2)) simp
qed

lemma parse4_decimal:
  assumes "n < 256"
  shows "\<exists>d > 0. parse4Loop (decimal n @ s) fs 0 0 = parse4Loop s fs n d"
proof -
  consider "n < 10" | "10 \<le> n" "n < 100" | "100 \<le> n" using assms by linarith
  then show ?thesis
  proof cases
    case 1
    then show ?thesis by (intro exI [of _ 1]) (simp add: decimal_small parse4_digit del: parse4Loop.simps)
  next
    case 2
    define k where "k = n div 10"
    have "1 \<le> k" "k < 10" "10 * k + n mod 10 = n" using 2 unfolding k_def by simp_all
    with 2 assms show ?thesis
      by (intro exI [of _ "Suc (Suc 0)"]) (simp add: decimal_small k_def [symmetric] parse4_digit del: parse4Loop.simps)
  next
    case 3
    define j where "j = n div 10"
    define k where "k = j div 10"
    have "1 \<le> k" "k < 10" "10 * k + j mod 10 = j" "10 * j + n mod 10 = n" "j \<le> 255"
      using 3 assms unfolding k_def j_def by simp_all
    moreover from 3 assms have "decimal n = [digit k, digit (j mod 10), digit (n mod 10)]"
      using decimal_hundreds [of n] by (simp add: k_def j_def)
    ultimately show ?thesis
      using assms by (intro exI [of _ "Suc (Suc (Suc 0))"]) (simp add: parse4_digit del: parse4Loop.simps)
  qed
qed

lemma octets_four: "\<exists>a b c d. octets u = [a, b, c, d] \<and> a < 256 \<and> b < 256 \<and> c < 256 \<and> d < 256"
proof -
  have l: "length (octets u) = 4" by (simp add: octets_def)
  have "n < 256" if "n \<in> set (octets u)" for n
    using that nat_of_char_less_256 by (auto simp: octets_def)
  moreover obtain a b c d where "octets u = [a, b, c, d]"
    using l by (auto simp: length_Suc_conv numeral_eq_Suc)
  ultimately show ?thesis by auto
qed

lemma octets_addr: "AddrFrom4 (map char_of (octets u)) = V4 u"
  by (simp add: octets_def AddrFrom4_def comp_def)

lemma parse4_ip4: "parse4Loop (ip4String u) [] 0 0 = Some (octets u)"
proof -
  have dot: "d > 0 \<Longrightarrow> length fs \<noteq> 3 \<Longrightarrow> parse4Loop (CHR ''.'' # s) fs v d = parse4Loop s (fs @ [v]) 0 0"
    for s fs v d by (simp add: isDigit_def)
  obtain a b c d where o: "octets u = [a, b, c, d]" and l: "a < 256" "b < 256" "c < 256" "d < 256"
    using octets_four by blast
  have "parse4Loop (decimal n @ CHR ''.'' # s) fs 0 0 = parse4Loop s (fs @ [n]) 0 0"
    if "n < 256" "length fs \<noteq> 3" for n s fs
    using parse4_decimal [OF that(1), of "CHR ''.'' # s" fs] dot that(2) by metis
  moreover have "parse4Loop (decimal d) [a, b, c] 0 0 = Some [a, b, c, d]"
    using parse4_decimal [OF l(4), of "[]" "[a, b, c]"] by auto
  ultimately show ?thesis using l by (simp add: ip4String_def o del: parse4Loop.simps)
qed

lemma decimal_ne: "decimal n \<noteq> []"
  by (simp add: decimal.simps [of n])

lemma ip4_parts: "\<exists>n s. ip4String u = decimal n @ CHR ''.'' # s"
proof -
  obtain a b c d where "octets u = [a, b, c, d]" using octets_four by blast
  then have "ip4String u = decimal a @ CHR ''.'' # dots [b, c, d]" by (simp add: ip4String_def)
  then show ?thesis by blast
qed

lemma ParseAddr4_ip4 [simp]: "ParseAddr4 (ip4String u) = Some (V4 u)"
proof -
  obtain n s where d: "ip4String u = decimal n @ CHR ''.'' # s" using ip4_parts by blast
  have "dropWhile (\<lambda>c. c \<notin> set ''.:%'') (decimal n @ t) = dropWhile (\<lambda>c. c \<notin> set ''.:%'') t" for t
    using digits_ascii [OF decimal_isDigit] by (intro dropWhile_append2) auto
  then have "dropWhile (\<lambda>c. c \<notin> set ''.:%'') (ip4String u) = CHR ''.'' # s" by (simp add: d)
  then show ?thesis by (simp add: ParseAddr4_def parse4_ip4 octets_addr)
qed

lemma ip4_inj [simp]: "ip4String u = ip4String v \<longleftrightarrow> u = v"
  by (metis ParseAddr4_ip4 addr.inject(1) option.inject)

section \<open>Lines of a listing\<close>

text \<open>A word: it has no white space.\<close>

definition word :: "bytes \<Rightarrow> bool" where
  "word w \<longleftrightarrow> w \<noteq> [] \<and> list_all (\<lambda>c. of_char c < (128 :: nat) \<and> \<not> spaceByte c) w"

fun unwords :: "bytes list \<Rightarrow> bytes" where
  "unwords [] = []"
| "unwords [w] = w"
| "unwords (w # ws) = w @ '' '' @ unwords ws"

lemma fieldsLoop_word:
  "list_all (\<lambda>c. of_char c < (128 :: nat) \<and> \<not> spaceByte c) w \<Longrightarrow>
     fieldsLoop (runes (w @ s)) v = fieldsLoop (runes s) (v @ w)"
proof (induction w arbitrary: v)
  case (Cons c w)
  then show ?case using isSpaceRune_ascii [of c] by simp
qed simp

lemma Fields_unwords: "list_all word ws \<Longrightarrow> Fields (unwords ws) = ws"
  unfolding Fields_def
proof (induction ws rule: unwords.induct)
  case (2 w)
  then show ?case using fieldsLoop_word [of w "[]" "[]"] by (simp add: word_def)
next
  case (3 w v ws)
  have "isSpaceRune 32" by (simp add: isSpaceRune_def)
  with 3 show ?case using fieldsLoop_word [of w "'' '' @ unwords (v # ws)" "[]"] by (simp add: word_def)
qed simp

lemma word_append: "word v \<Longrightarrow> word w \<Longrightarrow> word (v @ w)"
  by (simp add: word_def)

lemma word_decimal: "word (decimal n)"
  using digits_ascii [OF decimal_isDigit] decimal_ne by (simp add: word_def list_all_iff)

lemma word_dots: "ns \<noteq> [] \<Longrightarrow> word (dots ns)"
proof (induction ns rule: dots.induct)
  case (3 n m ns)
  have "word ''.''" by (simp add: word_def spaceByte_def)
  with 3 show ?case by (simp only: dots.simps) (intro word_append word_decimal, simp_all)
qed (simp_all add: word_decimal)

lemma word_ip4: "word (ip4String u)"
  using octets_four [of u] by (auto simp only: ip4String_def intro!: word_dots)

lemma word_flags: "word flagDest" "word flagJump" "word targetDNAT" "word flagToDest" "word appendRuleTag" "word hostMaskSfx"
  by (simp_all add: word_def spaceByte_def flagDest_def flagJump_def targetDNAT_def flagToDest_def appendRuleTag_def hostMaskSfx_def)

lemma TrimSuffix_append [simp]: "TrimSuffix (s @ suf) suf = s"
  by (simp add: TrimSuffix_def suffix_def)

text \<open>The line by which \<open>iptables -S\<close> shows a rule of this program: the address has its mask.\<close>

definition ruleLine :: "bytes \<Rightarrow> u32 \<Rightarrow> u32 \<Rightarrow> bytes" where
  "ruleLine chn f r = unwords [appendRuleTag, chn, flagDest, ip4String f @ hostMaskSfx, flagJump, targetDNAT, flagToDest, ip4String r]"

definition good_chain :: "bytes \<Rightarrow> bool" where
  "good_chain chn \<longleftrightarrow> word chn \<and> chn \<noteq> flagDest \<and> chn \<noteq> flagToDest"

lemma not_flag: "ip4String u @ s \<noteq> flagDest" "ip4String u @ s \<noteq> flagToDest"
proof -
  have "isDigit (hd (ip4String u @ s))"
    using ip4_parts [of u] decimal_isDigit [OF hd_in_set [OF decimal_ne]] by (auto simp: decimal_ne)
  then show "ip4String u @ s \<noteq> flagDest" "ip4String u @ s \<noteq> flagToDest"
    by (auto simp: flagDest_def flagToDest_def isDigit_def)
qed

lemma parse_ruleLine:
  assumes "good_chain chn"
  shows "parseDNATRule (ruleLine chn f r) = Some \<lparr>Fake = V4 f, Real = V4 r\<rparr>"
proof -
  have "Fields (ruleLine chn f r) = [appendRuleTag, chn, flagDest, ip4String f @ hostMaskSfx, flagJump, targetDNAT, flagToDest, ip4String r]"
    unfolding ruleLine_def using assms
    by (intro Fields_unwords) (simp add: good_chain_def word_flags word_ip4 word_append)
  moreover have "flagToDest \<noteq> flagDest" "appendRuleTag \<noteq> flagDest" "appendRuleTag \<noteq> flagToDest" "flagJump \<noteq> flagDest"
    "flagJump \<noteq> flagToDest" "targetDNAT \<noteq> flagDest" "targetDNAT \<noteq> flagToDest"
    by (simp_all add: flagToDest_def flagDest_def appendRuleTag_def flagJump_def targetDNAT_def)
  ultimately show ?thesis
    using assms not_flag [of f hostMaskSfx] by (simp add: parseDNATRule_def good_chain_def)
qed

lemma parse_other:
  assumes "good_chain chn"
  shows "parseDNATRule (unwords [''-N'', chn]) = None"
proof -
  have "word ''-N''" by (simp add: word_def spaceByte_def)
  then have "Fields (unwords [''-N'', chn]) = [''-N'', chn]"
    using assms by (intro Fields_unwords) (simp add: good_chain_def)
  then show ?thesis by (simp add: parseDNATRule_def appendRuleTag_def)
qed

section \<open>The contract of the package\<close>

text \<open>
  \<open>cview s\<close> gives the rules of each chain, in order. The operations change one chain, and a failed
  one changes nothing. A chain that holds only rules of this program is listed by its declaration
  and one line for each rule.
\<close>

definition host_rule :: "u32 \<Rightarrow> u32 \<Rightarrow> bytes list" where
  "host_rule f r = [flagDest, ip4String f, flagJump, targetDNAT, flagToDest, ip4String r]"

locale ipt_pkg =
  fixes pkg :: "'s iptPkg"
    and cview :: "'s \<Rightarrow> bytes \<times> bytes \<rightharpoonup> bytes list list"
  assumes append_ok: "ipAppendUnique pkg t c spec s = (None, s') \<Longrightarrow>
      \<exists>xs. cview s (t, c) = Some xs \<and> cview s' = (cview s)((t, c) \<mapsto> (if spec \<in> set xs then xs else xs @ [spec]))"
    and append_err: "ipAppendUnique pkg t c spec s = (Some e, s') \<Longrightarrow> cview s' = cview s"
    and remove_ok: "ipDeleteIfExists pkg t c spec s = (None, s') \<Longrightarrow>
      \<exists>xs. cview s (t, c) = Some xs \<and> cview s' = (cview s)((t, c) \<mapsto> remove1 spec xs)"
    and remove_err: "ipDeleteIfExists pkg t c spec s = (Some e, s') \<Longrightarrow> cview s' = cview s"
    and list_rules: "ipList pkg t c s = (Inr ls, s') \<Longrightarrow> cview s (t, c) = Some (map (\<lambda>(f, r). host_rule f r) ps) \<Longrightarrow>
      ls = unwords [''-N'', c] # map (\<lambda>(f, r). ruleLine c f r) ps"
    and init_same: "ipInit pkg s = (ir, s') \<Longrightarrow> cview s' = cview s"
    and exists_ok: "ipChainExists pkg t c s = (Inr b, s') \<Longrightarrow> cview s' = cview s \<and> b = (cview s (t, c) \<noteq> None)"
    and new_ok: "ipNewChain pkg t c s = (None, s') \<Longrightarrow> cview s' = (cview s)((t, c) \<mapsto> [])"
    and list_same: "ipList pkg t c s = (res, s') \<Longrightarrow> cview s' = cview s"

text \<open>The rules in force, and a chain that the program owns, without a rule twice.\<close>

definition ipt_rules :: "('s \<Rightarrow> bytes \<times> bytes \<rightharpoonup> bytes list list) \<Rightarrow> bytes \<Rightarrow> 's \<Rightarrow> fwMapping set" where
  "ipt_rules cview chn s =
     {\<lparr>Fake = V4 f, Real = V4 r\<rparr> | f r. \<exists>xs. cview s (iptTable, chn) = Some xs \<and> host_rule f r \<in> set xs}"

definition ipt_owned :: "('s \<Rightarrow> bytes \<times> bytes \<rightharpoonup> bytes list list) \<Rightarrow> bytes \<Rightarrow> 's \<Rightarrow> bool" where
  "ipt_owned cview chn s \<longleftrightarrow>
     (\<exists>ps. cview s (iptTable, chn) = Some (map (\<lambda>(f, r). host_rule f r) ps) \<and> distinct ps)"

definition mapping_of :: "u32 \<times> u32 \<Rightarrow> fwMapping" where
  "mapping_of p = \<lparr>Fake = V4 (fst p), Real = V4 (snd p)\<rparr>"

lemma host_rule_inj [simp]: "host_rule f r = host_rule f' r' \<longleftrightarrow> f = f' \<and> r = r'"
  by (simp add: host_rule_def)

lemma inj_host_rule: "inj (\<lambda>(f, r). host_rule f r)"
  by (auto simp: inj_def)

lemma inj_mapping_of: "inj mapping_of"
  by (auto simp: inj_def mapping_of_def prod_eq_iff)

lemma ipt_rules_owned:
  "cview s (iptTable, chn) = Some (map (\<lambda>(f, r). host_rule f r) ps) \<Longrightarrow> ipt_rules cview chn s = mapping_of ` set ps"
  by (force simp: ipt_rules_def mapping_of_def)

lemma v4_mapping_of: "v4_mapping m \<longleftrightarrow> (\<exists>p. m = mapping_of p)"
  by (cases m) (auto simp: v4_mapping_def Is4_iff mapping_of_def)

lemma iptRule_mapping: "iptRule pkg (Fake (mapping_of p)) (Real (mapping_of p)) = (case p of (f, r) \<Rightarrow> host_rule f r)"
  by (cases p) (simp add: iptRule_def host_rule_def mapping_of_def)

lemma map_remove1: "inj g \<Longrightarrow> remove1 (g x) (map g xs) = map g (remove1 x xs)"
  by (induction xs) (auto dest: injD)

context ipt_pkg
begin

lemma append_owned:
  assumes "cview s (iptTable, chn) = Some (map (\<lambda>(f, r). host_rule f r) ps)"
    and "iptAdd pkg chn (mapping_of p) s = (e, s')"
  shows "cview s' (iptTable, chn) = Some (map (\<lambda>(f, r). host_rule f r)
    (if e = None \<and> p \<notin> set ps then ps @ [p] else ps))"
proof (cases e)
  case None
  with assms(2) have "ipAppendUnique pkg iptTable chn (case p of (f, r) \<Rightarrow> host_rule f r) s = (None, s')"
    by (simp add: iptAdd_def iptRule_mapping)
  from append_ok [OF this] assms(1) None show ?thesis
    using inj_host_rule by (auto simp: inj_image_mem_iff split: prod.splits)
next
  case (Some x)
  with assms append_err show ?thesis by (simp add: iptAdd_def)
qed

lemma delete_owned:
  assumes "iptDeleteLoop pkg chn (map mapping_of qs) err s = (res, s')"
    and "cview s (iptTable, chn) = Some (map (\<lambda>(f, r). host_rule f r) ps)" and "distinct ps"
  shows "\<exists>ps'. cview s' (iptTable, chn) = Some (map (\<lambda>(f, r). host_rule f r) ps') \<and> distinct ps' \<and>
    set ps' \<subseteq> set ps \<and> set ps - set qs \<subseteq> set ps' \<and> (res = None \<longrightarrow> err = None \<and> set ps' \<inter> set qs = {})"
  using assms
proof (induction qs arbitrary: err s ps)
  case (Cons q qs)
  obtain e s1 where d: "ipDeleteIfExists pkg iptTable chn (case q of (f, r) \<Rightarrow> host_rule f r) s = (e, s1)"
    by (rule prod.exhaust)
  define ps1 where "ps1 = (if e = None then remove1 q ps else ps)"
  define err1 where "err1 = (case e of None \<Rightarrow> err | Some x \<Rightarrow> Some (Join (case err of None \<Rightarrow> [x] | Some e \<Rightarrow> [e, x])))"
  have c1: "cview s1 (iptTable, chn) = Some (map (\<lambda>(f, r). host_rule f r) ps1)"
  proof (cases e)
    case None
    from remove_ok [OF d [unfolded None]] Cons.prems(2) None show ?thesis
      using map_remove1 [OF inj_host_rule, of q ps] by (auto simp: ps1_def)
  next
    case (Some x)
    with remove_err [OF d [unfolded Some]] Cons.prems(2) show ?thesis by (simp add: ps1_def)
  qed
  have r: "iptDeleteLoop pkg chn (map mapping_of qs) err1 s1 = (res, s')"
    using Cons.prems(1) d by (simp add: iptRule_mapping err1_def split: option.splits)
  have p: "distinct ps1" "set ps1 \<subseteq> set ps" "set ps - {q} \<subseteq> set ps1" "e = None \<longrightarrow> q \<notin> set ps1"
    using Cons.prems(3) by (auto simp: ps1_def)
  from Cons.IH [OF r c1 p(1)] obtain ps' where ps': "cview s' (iptTable, chn) = Some (map (\<lambda>(f, r). host_rule f r) ps')"
    "distinct ps'" "set ps' \<subseteq> set ps1" "set ps1 - set qs \<subseteq> set ps'" "res = None \<longrightarrow> err1 = None \<and> set ps' \<inter> set qs = {}"
    by blast
  have "err1 = None \<longrightarrow> e = None \<and> err = None" by (auto simp: err1_def split: option.splits)
  with p ps' show ?case by (intro exI [of _ ps']) auto
qed auto

end

context ipt_pkg
begin

lemma New_owned:
  assumes "NewIptManager pkg chn cidr s = (Inr mgr, s')" and "chn \<noteq> preroute"
    and "cview s (iptTable, chn) = None \<or> ipt_owned cview chn s"
  shows "mgr = iptManager pkg chn \<and> ipt_owned cview chn s' \<and> ipt_rules cview chn s' = ipt_rules cview chn s \<and>
    (\<exists>xs ys. cview s (iptTable, preroute) = Some xs \<and> cview s' (iptTable, preroute) = Some ys \<and>
       [flagDest, cidr, flagJump, chn] \<in> set ys \<and> (distinct xs \<longrightarrow> distinct ys))"
proof -
  let ?jump = "[flagDest, cidr, flagJump, chn]" and ?k = "(iptTable, chn)" and ?p = "(iptTable, preroute)"
  from assms(1) obtain s1 b s2 s3 where i: "ipInit pkg s = (None, s1)"
    and x: "ipChainExists pkg iptTable chn s1 = (Inr b, s2)"
    and n: "(if b then (None, s2) else ipNewChain pkg iptTable chn s2) = (None, s3)"
    and a: "ipAppendUnique pkg iptTable preroute ?jump s3 = (None, s')" and mgr: "mgr = iptManager pkg chn"
    by (auto simp: NewIptManager_def split: prod.splits option.splits sum.splits)
  have 2: "cview s2 = cview s" "b = (cview s ?k \<noteq> None)"
    using init_same [OF i] exists_ok [OF x] by simp_all
  have 3: "cview s3 = (if b then cview s else (cview s)(?k \<mapsto> []))"
    using n 2 new_ok by (auto split: if_splits)
  from append_ok [OF a] obtain xs where xs: "cview s3 ?p = Some xs"
    and s': "cview s' = (cview s3)(?p \<mapsto> (if ?jump \<in> set xs then xs else xs @ [?jump]))" by blast
  have k: "?k \<noteq> ?p" using assms(2) by simp
  have c: "cview s' ?k = (if b then cview s ?k else Some [])" using s' 3 k by simp
  have "ipt_owned cview chn s'"
    using assms(3) 2 c by (auto simp: ipt_owned_def intro: exI [of _ "[]"])
  moreover have "ipt_rules cview chn s' = ipt_rules cview chn s" using c 2 by (auto simp: ipt_rules_def)
  moreover have "cview s ?p = Some xs" using xs 3 k by (auto split: if_splits)
  ultimately show ?thesis using mgr s' by auto
qed

end

locale ipt_chain = ipt_pkg pkg cview
  for pkg :: "'s iptPkg" and cview :: "'s \<Rightarrow> bytes \<times> bytes \<rightharpoonup> bytes list list" +
  fixes chn :: bytes
  assumes good: "good_chain chn"

context ipt_chain
begin

abbreviation (input) owned where "owned \<equiv> ipt_owned cview chn"
abbreviation (input) in_force where "in_force \<equiv> ipt_rules cview chn"

lemma ipt_add:
  assumes "owned w" and "v4_mapping m" and "mAdd (iptManager pkg chn) m w = (r, w')"
  shows "owned w' \<and> in_force w' = (if r = None then insert m (in_force w) else in_force w)"
proof -
  from assms(1) obtain ps where ps: "cview w (iptTable, chn) = Some (map (\<lambda>(f, r). host_rule f r) ps)" "distinct ps"
    by (auto simp: ipt_owned_def)
  obtain p where p: "m = mapping_of p" using assms(2) v4_mapping_of by blast
  have a: "iptAdd pkg chn (mapping_of p) w = (r, w')" using assms(3) by (simp add: iptManager_def p)
  define ps' where "ps' = (if r = None \<and> p \<notin> set ps then ps @ [p] else ps)"
  have w': "cview w' (iptTable, chn) = Some (map (\<lambda>(f, r). host_rule f r) ps')"
    using append_owned [OF ps(1) a] by (simp add: ps'_def)
  have "distinct ps'" using ps(2) by (simp add: ps'_def)
  with w' have "owned w'" by (auto simp: ipt_owned_def)
  then show ?thesis
    unfolding ipt_rules_owned [of cview, OF w'] ipt_rules_owned [of cview, OF ps(1)] by (auto simp: ps'_def p)
qed

lemma ipt_delete:
  assumes "owned w" and "list_all v4_mapping ms" and "mDelete (iptManager pkg chn) ms w = (r, w')"
  shows "owned w' \<and> in_force w' \<subseteq> in_force w \<and> in_force w - set ms \<subseteq> in_force w' \<and>
    (r = None \<longrightarrow> in_force w' \<inter> set ms = {})"
proof -
  from assms(1) obtain ps where ps: "cview w (iptTable, chn) = Some (map (\<lambda>(f, r). host_rule f r) ps)" "distinct ps"
    by (auto simp: ipt_owned_def)
  have "\<exists>qs. ms = map mapping_of qs"
    using assms(2) by (induction ms) (auto simp: v4_mapping_of Cons_eq_map_conv)
  then obtain qs where qs: "ms = map mapping_of qs" ..
  have "iptDeleteLoop pkg chn (map mapping_of qs) None w = (r, w')"
    using assms(3) by (simp add: iptManager_def iptDelete_def qs)
  from delete_owned [OF this ps] obtain ps' where w': "cview w' (iptTable, chn) = Some (map (\<lambda>(f, r). host_rule f r) ps')"
    and ps': "distinct ps'" "set ps' \<subseteq> set ps" "set ps - set qs \<subseteq> set ps'" "r = None \<longrightarrow> set ps' \<inter> set qs = {}"
    by blast
  have own: "owned w'" using w' ps'(1) by (auto simp: ipt_owned_def)
  have keep: "mapping_of ` set ps - mapping_of ` set qs \<subseteq> mapping_of ` set ps'"
    unfolding image_set_diff [OF inj_mapping_of, symmetric] by (rule image_mono) (rule ps'(3))
  have gone: "mapping_of ` set ps' \<inter> mapping_of ` set qs = {}" if "r = None"
    unfolding image_Int [OF inj_mapping_of, symmetric] using ps'(4) that by simp
  show ?thesis
    unfolding ipt_rules_owned [of cview, OF w'] ipt_rules_owned [of cview, OF ps(1)] qs set_map
    by (intro conjI impI own keep gone image_mono ps'(2))
qed

lemma ipt_list:
  assumes "owned w" and "mList (iptManager pkg chn) w = (lr, w')"
  shows "owned w' \<and> in_force w' = in_force w \<and> (\<forall>ms. lr = Inr ms \<longrightarrow> set ms = in_force w \<and> distinct ms)"
proof -
  obtain res w1 where li: "ipList pkg iptTable chn w = (res, w1)" by (rule prod.exhaust)
  with assms(2) have w1: "w' = w1" by (auto simp: iptManager_def iptListRules_def split: sum.splits)
  have same: "cview w' = cview w" using list_same [OF li] w1 by simp
  from assms(1) obtain ps where ps: "cview w (iptTable, chn) = Some (map (\<lambda>(f, r). host_rule f r) ps)" "distinct ps"
    by (auto simp: ipt_owned_def)
  have "set ms = in_force w \<and> distinct ms" if "lr = Inr ms" for ms
  proof -
    from assms(2) li that obtain ls where res: "res = Inr ls" and "ms = List.map_filter parseDNATRule ls"
      by (cases res) (auto simp: iptManager_def iptListRules_def)
    with list_rules [OF li [unfolded res] ps(1)] have "ms = map mapping_of ps"
      using parse_ruleLine [OF good] parse_other [OF good]
      by (simp add: map_filter_def comp_def split_beta mapping_of_def)
    then show ?thesis
      using ipt_rules_owned [of cview, OF ps(1)] ps(2) inj_on_subset [OF inj_mapping_of] by (simp add: distinct_map)
  qed
  moreover have "owned w'" "in_force w' = in_force w"
    using assms(1) same by (simp_all add: ipt_owned_def ipt_rules_def)
  ultimately show ?thesis by blast
qed

end

sublocale ipt_chain \<subseteq> firewall_manager "iptManager pkg chn" "ipt_rules cview chn" "ipt_owned cview chn"
proof unfold_locales
  fix w ms r w'
  assume "ipt_owned cview chn w" "list_all v4_mapping ms" "mDelete (iptManager pkg chn) ms w = (r, w')"
  note del = ipt_delete [OF this]
  have "{x \<in> ipt_rules cview chn w. Fake x \<notin> Fake ` set ms} \<subseteq> ipt_rules cview chn w - set ms" by auto
  with del show "ipt_owned cview chn w' \<and> ipt_rules cview chn w' \<subseteq> ipt_rules cview chn w \<and>
      {x \<in> ipt_rules cview chn w. Fake x \<notin> Fake ` set ms} \<subseteq> ipt_rules cview chn w'" by blast
  show "ipt_rules cview chn w - set ms \<subseteq> ipt_rules cview chn w'" using del by blast
next
  fix w m r w'
  assume "ipt_owned cview chn w" "v4_mapping m" "mAdd (iptManager pkg chn) m w = (r, w')"
  from ipt_add [OF this] show "ipt_owned cview chn w' \<and> ipt_rules cview chn w \<subseteq> ipt_rules cview chn w' \<and>
      ipt_rules cview chn w' \<subseteq> insert m (ipt_rules cview chn w)" by (auto split: if_splits)
qed (auto dest: ipt_add ipt_delete ipt_list)

context ipt_chain
begin

lemma is_manager: "firewall_manager (iptManager pkg chn) (ipt_rules cview chn) (ipt_owned cview chn)"
  by (rule firewall_manager_axioms)

end

section \<open>Tables in memory\<close>

text \<open>A package whose state is the chains, with a script that says which calls fail.\<close>

record memTables =
  mtChains :: "((bytes \<times> bytes) \<times> bytes list list) list"
  mtFaults :: "bool list"

definition mtCall :: "memTables \<Rightarrow> bool \<times> memTables" where
  "mtCall s = (case mtFaults s of [] \<Rightarrow> (False, s) | b # bs \<Rightarrow> (b, s\<lparr>mtFaults := bs\<rparr>))"

definition mtChange ::
  "(bytes list list \<Rightarrow> bytes list list) \<Rightarrow> bytes \<times> bytes \<Rightarrow> memTables \<Rightarrow> error option \<times> memTables"
where
  "mtChange f k s =
     (case mtCall s of
        (True, s) \<Rightarrow> (Some (Err ''iptables failed''), s)
      | (False, s) \<Rightarrow>
          (case map_of (mtChains s) k of
             None \<Rightarrow> (Some (Err ''no chain''), s)
           | Some xs \<Rightarrow> (None, s\<lparr>mtChains := (k, f xs) # mtChains s\<rparr>)))"

fun mtLine :: "bytes \<Rightarrow> bytes list \<Rightarrow> bytes" where
  "mtLine c [d, f, j, t, to, r] = unwords [appendRuleTag, c, d, f @ hostMaskSfx, j, t, to, r]"
| "mtLine c spec = unwords (appendRuleTag # c # spec)"

definition memIpt :: "memTables iptPkg" where
  "memIpt =
     \<lparr>ipInit = (\<lambda>s. (None, s)),
      ipChainExists = (\<lambda>t c s. (Inr (map_of (mtChains s) (t, c) \<noteq> None), s)),
      ipNewChain = (\<lambda>t c s. (None, s\<lparr>mtChains := ((t, c), []) # mtChains s\<rparr>)),
      ipAppendUnique = (\<lambda>t c spec. mtChange (\<lambda>xs. if spec \<in> set xs then xs else xs @ [spec]) (t, c)),
      ipDeleteIfExists = (\<lambda>t c spec. mtChange (remove1 spec) (t, c)),
      ipList = (\<lambda>t c s. case map_of (mtChains s) (t, c) of
          None \<Rightarrow> (Inl (Err ''no chain''), s)
        | Some xs \<Rightarrow> (Inr (unwords [''-N'', c] # map (mtLine c) xs), s)),
      ipV6 = (\<lambda>_ _. ''::'')\<rparr>"

lemma mtChange_ok:
  "mtChange f k s = (None, s') \<Longrightarrow> \<exists>xs. map_of (mtChains s) k = Some xs \<and> map_of (mtChains s') = (map_of (mtChains s))(k \<mapsto> f xs)"
  by (auto simp: mtChange_def mtCall_def split: list.splits option.splits prod.splits bool.splits if_splits)

lemma mtChange_err: "mtChange f k s = (Some e, s') \<Longrightarrow> map_of (mtChains s') = map_of (mtChains s)"
  by (auto simp: mtChange_def mtCall_def split: list.splits option.splits prod.splits bool.splits if_splits)

lemma mtLine_host: "mtLine c (host_rule f r) = ruleLine c f r"
  by (simp add: host_rule_def ruleLine_def)

interpretation memIpt: ipt_chain memIpt "\<lambda>s. map_of (mtChains s)" "''AZ''"
proof unfold_locales
  show "good_chain ''AZ''" by (simp add: good_chain_def word_def spaceByte_def flagDest_def flagToDest_def)
  fix t c spec s s'
  assume "ipAppendUnique memIpt t c spec s = (None, s')"
  then have "mtChange (\<lambda>xs. if spec \<in> set xs then xs else xs @ [spec]) (t, c) s = (None, s')" by (simp add: memIpt_def)
  from mtChange_ok [OF this]
  show "\<exists>xs. map_of (mtChains s) (t, c) = Some xs \<and>
      map_of (mtChains s') = (map_of (mtChains s))((t, c) \<mapsto> (if spec \<in> set xs then xs else xs @ [spec]))" .
qed (auto simp: memIpt_def mtLine_host split_beta split: option.splits dest: mtChange_ok mtChange_err)

section \<open>Properties\<close>

text \<open>
  C19. The iptables backend keeps the contract of a backend that programs the kernel: what it adds,
  deletes and lists are exactly the rules of its chain, whichever commands fail. So all
  properties of the mapper and of the server hold with it. Its constructor leaves a chain that
  the program owns, creates a missing one, keeps the rules of an earlier run, and
  leaves the jump to the chain in place, which it adds only once.
\<close>

theorem iptables_contract:
  assumes "ipt_chain pkg cview chn"
  shows "firewall_manager (iptManager pkg chn) (ipt_rules cview chn) (ipt_owned cview chn) \<and>
    (\<forall>cidr s mgr s'. NewIptManager pkg chn cidr s = (Inr mgr, s') \<and> chn \<noteq> preroute \<and>
       (cview s (iptTable, chn) = None \<or> ipt_owned cview chn s) \<longrightarrow>
       mgr = iptManager pkg chn \<and> ipt_owned cview chn s' \<and> ipt_rules cview chn s' = ipt_rules cview chn s \<and>
       (\<exists>xs ys. cview s (iptTable, preroute) = Some xs \<and> cview s' (iptTable, preroute) = Some ys \<and>
          [flagDest, cidr, flagJump, chn] \<in> set ys \<and> (distinct xs \<longrightarrow> distinct ys)))"
proof -
  have new: "mgr = iptManager pkg chn \<and> ipt_owned cview chn s' \<and> ipt_rules cview chn s' = ipt_rules cview chn s \<and>
      (\<exists>xs ys. cview s (iptTable, preroute) = Some xs \<and> cview s' (iptTable, preroute) = Some ys \<and>
          [flagDest, cidr, flagJump, chn] \<in> set ys \<and> (distinct xs \<longrightarrow> distinct ys))"
    if n: "NewIptManager pkg chn cidr s = (Inr mgr, s')" and "chn \<noteq> preroute"
      and o: "cview s (iptTable, chn) = None \<or> ipt_owned cview chn s" for cidr s mgr s'
    by (rule ipt_pkg.New_owned [OF ipt_chain.axioms(1) [OF assms] n that(2) o])
  show ?thesis
    using ipt_chain.is_manager [OF assms] new by blast
qed

definition demo_tables :: memTables where
  "demo_tables = \<lparr>mtChains = [((iptTable, preroute), [])], mtFaults = []\<rparr>"

lemma iptables_contract_witness:
  "\<exists>mgr s. NewIptManager memIpt ''AZ'' ''10.30.0.0/15'' demo_tables = (Inr mgr, s) \<and>
     ipt_owned (\<lambda>s. map_of (mtChains s)) ''AZ'' s \<and> ipt_rules (\<lambda>s. map_of (mtChains s)) ''AZ'' s = {}"
proof -
  have none: "map_of (mtChains demo_tables) (iptTable, ''AZ'') = None" "''AZ'' \<noteq> preroute"
    by (simp_all add: demo_tables_def preroute_def)
  then have "\<exists>mgr s. NewIptManager memIpt ''AZ'' ''10.30.0.0/15'' demo_tables = (Inr mgr, s)"
    by (simp add: NewIptManager_def memIpt_def mtChange_def mtCall_def demo_tables_def)
  then obtain mgr s where new: "NewIptManager memIpt ''AZ'' ''10.30.0.0/15'' demo_tables = (Inr mgr, s)" by blast
  have "ipt_rules (\<lambda>s. map_of (mtChains s)) ''AZ'' demo_tables = {}" using none by (simp add: ipt_rules_def)
  with iptables_contract [OF memIpt.ipt_chain_axioms] new none show ?thesis by blast
qed

end
