(* ===== verification/Config.thy ===== *)
theory Config
  imports Resolver Router Dns_Cache Ipt_Manager
begin

text \<open>
  The configuration, \<open>src/cfg\<close>: its structures, what their tags demand, how it is read, and the
  default. The YAML reader \<open>go.uber.org/config\<close> is the record \<open>yamlPkg\<close>. The tags of the package
  \<open>validator\<close> are written out as it documents them; the formats that it knows by name are the
  record \<open>formats\<close>. \<open>netip.ParsePrefix\<close> is modelled for IPv4; for the server the text of an IPv6
  prefix is an error like a malformed one.
\<close>

section \<open>The structures\<close>

record Bind =
  Address :: bytes
  Port :: int
  Protocol :: bytes

record cfgCache =
  Capacity :: int
  TTL :: duration
  MinTTL :: duration
  MaxTTL :: duration

record cfgFirewall =
  Backend :: bytes
  fwSet :: bytes
  fwChain :: bytes
  fwTTL :: duration

definition BackendNFT :: bytes where "BackendNFT = ''nft''"
definition BackendIPTables :: bytes where "BackendIPTables = ''iptables''"
definition BackendNoop :: bytes where "BackendNoop = ''noop''"

record cfgPolicy =
  ReloadInterval :: duration
  RebuildTimeout :: duration
  MatcherBackend :: bytes
  Matchers :: "cfgMatcher list"

definition MatcherFST :: bytes where "MatcherFST = ''fst''"

record AntizapretConfig =
  Bindings :: "Bind list"
  Processes :: int
  MetricsAddress :: bytes
  Upstreams :: "cfgUpstream list"
  Policy :: cfgPolicy
  FakeCIDR :: bytes
  CacheCfg :: cfgCache
  FirewallCfg :: cfgFirewall
  RequestTimeout :: duration
  LoggingSeverity :: bytes
  StatePath :: bytes

section \<open>Validation\<close>

record formats =
  isIP :: "bytes \<Rightarrow> bool"
  isURI :: "bytes \<Rightarrow> bool"
  isPort :: "int \<Rightarrow> bool"
  isCIDRv4 :: "bytes \<Rightarrow> bool"
  isHostnamePort :: "bytes \<Rightarrow> bool"

text \<open>The tags: \<open>omitempty\<close> before a check, \<open>oneof\<close>, \<open>unique=Name\<close>, \<open>required_if\<close>.\<close>

definition omitempty :: "(bytes \<Rightarrow> bool) \<Rightarrow> bytes \<Rightarrow> bool" where
  "omitempty P s \<longleftrightarrow> s = [] \<or> P s"

definition oneof :: "bytes list \<Rightarrow> bytes \<Rightarrow> bool" where
  "oneof xs s \<longleftrightarrow> s \<in> set xs"

definition validBind :: "formats \<Rightarrow> Bind \<Rightarrow> bool" where
  "validBind v b \<longleftrightarrow> omitempty (isIP v) (Address b) \<and> isPort v (Port b) \<and>
     Protocol b \<noteq> [] \<and> oneof [''udp'', ''tcp''] (Protocol b)"

definition validCache :: "cfgCache \<Rightarrow> bool" where
  "validCache c \<longleftrightarrow> 1 \<le> Capacity c \<and> 0 < TTL c \<and> 0 < MinTTL c \<and> 0 < MaxTTL c \<and> MinTTL c \<le> MaxTTL c"

definition validUpstream :: "formats \<Rightarrow> cfgUpstream \<Rightarrow> bool" where
  "validUpstream v u \<longleftrightarrow> upDSN u \<noteq> [] \<and> isURI v (upDSN u) \<and> 0 < upTimeout u"

definition validFirewall :: "cfgFirewall \<Rightarrow> bool" where
  "validFirewall f \<longleftrightarrow> omitempty (oneof [BackendNFT, BackendIPTables, BackendNoop]) (Backend f) \<and>
     (Backend f = BackendNFT \<longrightarrow> fwSet f \<noteq> []) \<and> fwChain f \<noteq> [] \<and> 0 < fwTTL f"

definition validMatcher :: "formats \<Rightarrow> cfgMatcher \<Rightarrow> bool" where
  "validMatcher v m \<longleftrightarrow> cfgName m \<noteq> [] \<and> cfgType m \<noteq> [] \<and>
     oneof [RouterTypeBlackhole, RouterTypeRemap, RouterTypePassthrough, RouterTypeNXDomain] (cfgType m) \<and>
     cfgSource m \<noteq> [] \<and> isURI v (cfgSource m) \<and>
     omitempty (oneof [FormatPlain, FormatRegexp]) (cfgFormat m) \<and>
     (cfgFormat m = FormatRegexp \<longrightarrow> cfgRegexp m \<noteq> None)"

definition validPolicy :: "formats \<Rightarrow> cfgPolicy \<Rightarrow> bool" where
  "validPolicy v p \<longleftrightarrow> 0 < ReloadInterval p \<and> 0 < RebuildTimeout p \<and>
     omitempty (oneof [MatcherRadix, MatcherFST]) (MatcherBackend p) \<and>
     distinct (map cfgName (Matchers p)) \<and> list_all (validMatcher v) (Matchers p)"

definition validConfig :: "formats \<Rightarrow> AntizapretConfig \<Rightarrow> bool" where
  "validConfig v c \<longleftrightarrow>
     Bindings c \<noteq> [] \<and> list_all (validBind v) (Bindings c) \<and>
     (Processes c = 0 \<or> 1 \<le> Processes c) \<and>
     omitempty (isHostnamePort v) (MetricsAddress c) \<and>
     Upstreams c \<noteq> [] \<and> list_all (validUpstream v) (Upstreams c) \<and>
     validPolicy v (Policy c) \<and>
     FakeCIDR c \<noteq> [] \<and> isCIDRv4 v (FakeCIDR c) \<and>
     validCache (CacheCfg c) \<and> validFirewall (FirewallCfg c) \<and>
     0 < RequestTimeout c \<and> StatePath c \<noteq> []"

section \<open>Reading\<close>

text \<open>\<open>newYAML\<close> merges the sources, later ones over earlier ones; \<open>populate\<close> fills the structure.\<close>

record 'y yamlPkg =
  newYAML :: "reader list \<Rightarrow> error + 'y"
  populate :: "'y \<Rightarrow> AntizapretConfig \<Rightarrow> error + AntizapretConfig"

definition readConfig ::
  "'y yamlPkg \<Rightarrow> formats \<Rightarrow> world \<Rightarrow> bytes \<Rightarrow> bytes \<Rightarrow> AntizapretConfig \<Rightarrow> error + AntizapretConfig"
where
  "readConfig Y v W configFilename defaultConfig target =
     (case (if configFilename \<noteq> [] then map_sum id (\<lambda>cfgFile. [cfgFile]) (osOpen W configFilename) else Inr []) of
        Inl err \<Rightarrow> Inl err
      | Inr files \<Rightarrow>
     (case newYAML Y (\<lparr>rest = defaultConfig, atEnd = EOF\<rparr> # files) of
        Inl err \<Rightarrow> Inl err
      | Inr provider \<Rightarrow>
     (case populate Y provider target of
        Inl err \<Rightarrow> Inl err
      | Inr target \<Rightarrow>
          if validConfig v target then Inr target
          else Inl (Wrap ''invalid config'' (Err ''validation'')))))"

section \<open>The default\<close>

text \<open>The values that the YAML text \<open>AntizapretDefaultConfig\<close> gives; what it leaves out is zero.\<close>

definition AntizapretDefault :: AntizapretConfig where
  "AntizapretDefault =
     \<lparr>Bindings = [\<lparr>Address = ''127.0.0.1'', Port = 53, Protocol = ''udp''\<rparr>],
      Processes = 0,
      MetricsAddress = [],
      Upstreams = [\<lparr>upName = ''google'', upDSN = ''udp://8.8.8.8:53'', upTimeout = 1 * seconds\<rparr>],
      Policy = \<lparr>ReloadInterval = 3600 * seconds, RebuildTimeout = 60 * seconds, MatcherBackend = ''fst'',
        Matchers = [\<lparr>cfgName = ''hosts'', cfgType = ''remap'', cfgSource = ''file:///etc/antizapret-go/hosts.txt'',
          cfgFormat = ''plain'', cfgSubdomains = Some True, cfgPrune = False, cfgRegexp = None, cfgFilter = None\<rparr>]\<rparr>,
      FakeCIDR = ''10.30.0.0/15'',
      CacheCfg = \<lparr>Capacity = 20000, TTL = 24 * 3600 * seconds, MinTTL = 60 * seconds, MaxTTL = 24 * 3600 * seconds\<rparr>,
      FirewallCfg = \<lparr>Backend = ''nft'', fwSet = ''ANTIZAPRET_SET'', fwChain = ''ANTIZAPRET_CHAIN'', fwTTL = 300 * seconds\<rparr>,
      RequestTimeout = 2 * seconds,
      LoggingSeverity = ''error'',
      StatePath = ''/var/lib/antizapret-go/state''\<rparr>"

section \<open>Prefixes\<close>

definition bitsOf :: "bytes \<Rightarrow> nat option" where
  "bitsOf s =
     (if s = [] \<or> \<not> list_all isDigit s \<or> length s > 1 \<and> hd s = CHR ''0'' then None
      else if undecimal s > 32 then None else Some (undecimal s))"

text \<open>The text before and after the last slash, if there is one.\<close>

definition cutLast :: "char \<Rightarrow> bytes \<Rightarrow> (bytes \<times> bytes) option" where
  "cutLast c s =
     (if c \<notin> set s then None
      else let k = length (takeWhile (\<lambda>x. x \<noteq> c) (rev s))
           in Some (take (length s - k - 1) s, drop (length s - k) s))"

definition ParsePrefix :: "bytes \<Rightarrow> error + addr \<times> nat" where
  "ParsePrefix s =
     (case cutLast (CHR ''/'') s of
        None \<Rightarrow> Inl (Err ''no slash'')
      | Some (ipStr, bitsStr) \<Rightarrow>
     (case ParseAddr4 ipStr of
        None \<Rightarrow> Inl (Err ''unable to parse IP'')
      | Some ip \<Rightarrow>
     (case bitsOf bitsStr of
        None \<Rightarrow> Inl (Err ''bad bits after slash'')
      | Some bits \<Rightarrow> Inr (ip, bits))))"

lemma cutLast_app: "c \<notin> set b \<Longrightarrow> cutLast c (a @ c # b) = Some (a, b)"
proof -
  assume c: "c \<notin> set b"
  have "takeWhile (\<lambda>x. x \<noteq> c) (rev b @ c # rev a) = rev b @ takeWhile (\<lambda>x. x \<noteq> c) (c # rev a)"
    using c by (intro takeWhile_append2) auto
  then show ?thesis by (simp add: cutLast_def Let_def)
qed

lemma decimal_isDigits: "list_all isDigit (decimal n)"
  using decimal_digits by (simp add: list_all_iff isDigit_def)

lemma decimal_hd0: "length (decimal n) > 1 \<Longrightarrow> hd (decimal n) \<noteq> CHR ''0''"
proof (induction n rule: decimal.induct)
  case (1 n)
  have big: "\<not> n < 10" using "1.prems" by (subst (asm) decimal.simps) (auto split: if_splits)
  have d: "decimal n = decimal (n div 10) @ [digit (n mod 10)]" using big by (simp add: decimal.simps [of n])
  show ?case
  proof (cases "length (decimal (n div 10)) > 1")
    case True
    with "1.IH" [OF big] d show ?thesis by (simp add: decimal_ne)
  next
    case False
    then have s: "n div 10 < 10" by (subst (asm) decimal.simps) (auto simp: decimal_ne split: if_splits)
    then have "decimal (n div 10) = [digit (n div 10)]" by (simp add: decimal.simps [of "n div 10"])
    moreover have "digit (n div 10) \<noteq> CHR ''0''"
    proof
      assume "digit (n div 10) = CHR ''0''"
      then have "(of_char (digit (n div 10)) :: nat) = 48" by simp
      with s big show False by (simp add: of_digit)
    qed
    ultimately show ?thesis using d by simp
  qed
qed

text \<open>
  The text form of an IPv4 prefix is read back as this prefix, for every address and every
  length from 0 to 32; a longer length is refused.
\<close>

lemma prefix_text: "ParsePrefix (ip4String u @ ''/'' @ decimal n) =
     (if n \<le> 32 then Inr (V4 u, n) else Inl (Err ''bad bits after slash''))"
proof -
  have "CHR ''/'' \<notin> set (decimal n)" using decimal_digits [of "CHR ''/''" n] by auto
  from cutLast_app [OF this, of "ip4String u"] show ?thesis
    using decimal_hd0 [of n]
    by (auto simp: ParsePrefix_def bitsOf_def decimal_isDigits decimal_ne undecimal_decimal)
qed

lemma ParsePrefix_bits: "ParsePrefix s = Inr (ip, n) \<Longrightarrow> n \<le> 32"
  by (auto simp: ParsePrefix_def bitsOf_def split: option.splits if_splits)

section \<open>What an accepted configuration is good for\<close>

lemma readConfig_valid: "readConfig Y v W f d t = Inr c \<Longrightarrow> validConfig v c"
  by (auto simp: readConfig_def split: sum.splits if_splits)

lemma oneof_simps [simp]: "oneof [] s \<longleftrightarrow> False" "oneof (x # xs) s \<longleftrightarrow> s = x \<or> oneof xs s"
  by (auto simp: oneof_def)

lemma newParser_errors:
  assumes "validMatcher v m" and "newParser pkg m sub = Inl e"
  shows "\<exists>p e'. reCompile pkg p = Inl e'"
  using assms by (auto simp: newParser_def validMatcher_def omitempty_def split: option.splits sum.splits if_splits)

lemma compileAll_errors: "compileAll pkg ps = Inl e \<Longrightarrow> \<exists>p e'. reCompile pkg p = Inl e'"
  by (induction ps arbitrary: e) (auto split: sum.splits)

lemma newSource_errors:
  assumes "validMatcher v m" and "newSource pkg W m i = Inl e"
  shows "(\<exists>p e'. reCompile pkg p = Inl e') \<or> (\<exists>e'. newFetcher W (cfgSource m) = Inl e')"
proof -
  have "sourceAction (cfgType m) \<noteq> None"
    using assms(1) by (auto simp: sourceAction_def validMatcher_def)
  then show ?thesis
    using assms(2) newParser_errors [OF assms(1), of pkg] compileAll_errors [of pkg]
    by (fastforce simp: newSource_def newFilter_def Let_def split: option.splits sum.splits if_splits)
qed

lemma newUpstreams_length: "newUpstreams net m us = Inr xs \<Longrightarrow> length xs = length us"
  by (induction us arbitrary: xs) (auto split: sum.splits)

lemma NewResolver_nonempty:
  "us \<noteq> [] \<Longrightarrow> NewResolver net us m = Inl e \<Longrightarrow> newUpstreams net m us = Inl e"
  by (auto simp: NewResolver_def dest: newUpstreams_length split: sum.splits if_splits)


text \<open>Formats that take what the default needs, and a YAML reader that takes the default.\<close>

definition demo_formats :: formats where
  "demo_formats = \<lparr>isIP = (\<lambda>s. ParseAddr4 s \<noteq> None), isURI = (\<lambda>s. CHR '':'' \<in> set s), isPort = (\<lambda>p. 1 \<le> p \<and> p \<le> 65535),
     isCIDRv4 = (\<lambda>s. case ParsePrefix s of Inr (V4 _, _) \<Rightarrow> True | _ \<Rightarrow> False), isHostnamePort = (\<lambda>s. CHR '':'' \<in> set s)\<rparr>"

definition demo_yaml :: "unit yamlPkg" where
  "demo_yaml = \<lparr>newYAML = (\<lambda>rs. Inr ()), populate = (\<lambda>y c. Inr AntizapretDefault)\<rparr>"

lemma default_prefix: "ParsePrefix (FakeCIDR AntizapretDefault) = Inr (V4 0x0A1E0000, 15)"
proof -
  have "ParseAddr4 ''10.30.0.0'' = Some (V4 0x0A1E0000)"
    by (simp add: ParseAddr4_def isDigit_def Let_def AddrFrom4_def be_get_def)
  moreover have "bitsOf ''15'' = Some 15" by (simp add: bitsOf_def isDigit_def undecimal_def)
  moreover have "cutLast (CHR ''/'') ''10.30.0.0/15'' = Some (''10.30.0.0'', ''15'')"
    using cutLast_app [of "CHR ''/''" "''15''" "''10.30.0.0''"] by simp
  ultimately show ?thesis by (simp add: ParsePrefix_def AntizapretDefault_def)
qed

lemma default_valid: "validConfig demo_formats AntizapretDefault"
proof -
  have "isCIDRv4 demo_formats (FakeCIDR AntizapretDefault)" by (simp add: demo_formats_def default_prefix)
  moreover have "ParseAddr4 ''127.0.0.1'' \<noteq> None"
    by (simp add: ParseAddr4_def isDigit_def Let_def)
  ultimately show ?thesis
    by (simp add: validConfig_def validBind_def validUpstream_def validPolicy_def validCache_def validFirewall_def
        validMatcher_def omitempty_def AntizapretDefault_def demo_formats_def seconds_def BackendNFT_def MatcherFST_def
        RouterTypeRemap_def FormatPlain_def FormatRegexp_def)
qed

lemma demo_read: "readConfig demo_yaml demo_formats W [] d t = Inr AntizapretDefault"
  by (simp add: readConfig_def demo_yaml_def default_valid)


end
