(* ===== verification/Server.thy ===== *)
theory Server
  imports IP_Mapper Config Dns_Cache Router Metrics
begin

text \<open>
  The server, \<open>src/server/server.go\<close>: its parts, how they are created, and the operations that are
  not on the path of a query. The packages that the parts use are the record \<open>env\<close>. The channel
  \<open>rebuildReady\<close> is a field that says whether it is closed. The firewall manager's state is kept
  in the mapper, which is the only part that uses it while the server runs. The loops over tickers
  and channels take what they receive as a list; the theory \<open>Service\<close> has their rounds as steps
  between which other things happen.
\<close>

record ('c, 'n, 'q, 'h, 'w, 'b, 'f, 're) env =
  eNames :: names
  eRegexp :: "'re regexpPkg"
  eVellum :: "('b, 'f) vellumPkg"
  eManager :: "'w manager"
  eNet :: "('n, 'q, 'h) netPkg"
  eTTL :: "'c ttlPkg"
  eNewTTL :: "nat \<Rightarrow> duration \<Rightarrow> 'c"
  eLen :: "msg \<Rightarrow> nat"
  eTruncate :: "msg \<Rightarrow> msg"

record ('c, 'w, 're, 'f) Server =
  sResolver :: Resolver
  sMapper :: "'w ipMapper"
  sRouter :: "('re, 'f) Router"
  sStore :: store
  sCache :: "'c Cache"
  sTimeout :: duration
  sRebuildTimeout :: duration
  sWarm :: bool
  sRebuildReady :: bool
  sMetrics :: "Metrics option"

section \<open>Operations\<close>

definition NewServer ::
  "('c, 'n, 'q, 'h, 'w, 'b, 'f, 're) env \<Rightarrow> time \<Rightarrow> world \<Rightarrow> AntizapretConfig \<Rightarrow> 'w \<Rightarrow> Metrics option \<Rightarrow> fs \<Rightarrow>
   (error + ('c, 'w, 're, 'f) Server) \<times> fs"
where
  "NewServer E now W cfg w m s =
     (case NewIPMapper (eManager E) now (ParsePrefix (FakeCIDR cfg)) (fwTTL (FirewallCfg cfg)) w of
        Inl (err, w) \<Rightarrow> (Inl err, s)
      | Inr mp \<Rightarrow>
      (case NewResolver (eNet E) (Upstreams cfg) m of
        Inl err \<Rightarrow> (Inl err, s)
      | Inr rs \<Rightarrow>
      (let c = NewCache (eNewTTL E (nat (Capacity (CacheCfg cfg))) (TTL (CacheCfg cfg))) (MinTTL (CacheCfg cfg)) (MaxTTL (CacheCfg cfg)) in
      (case New (StatePath cfg) s of
        (Inl err, s) \<Rightarrow> (Inl err, s)
      | (Inr st, s) \<Rightarrow>
      (case NewRouter (eRegexp E) W (Matchers (Policy cfg)) st (MatcherBackend (Policy cfg)) of
        Inl err \<Rightarrow> (Inl err, s)
      | Inr r \<Rightarrow>
      (case LoadCached (eVellum E) r s of
        ((n, r), s) \<Rightarrow>
          (Inr \<lparr>sResolver = rs, sMapper = mp, sRouter = r, sStore = st, sCache = c,
             sTimeout = RequestTimeout cfg, sRebuildTimeout = RebuildTimeout (Policy cfg),
             sWarm = (n > 0), sRebuildReady = False, sMetrics = m\<rparr>, s)))))))"

text \<open>\<open>took\<close> is the time since the start of the operation, for the metrics.\<close>

definition rebuild ::
  "('c, 'n, 'q, 'h, 'w, 'b, 'f, 're) env \<Rightarrow> duration \<Rightarrow> world \<Rightarrow> ('c, 'w, 're, 'f) Server \<Rightarrow> fs \<Rightarrow>
   ('c, 'w, 're, 'f) Server \<times> fs"
where
  "rebuild E took W srv s =
     (case Rebuild (eNames E) (eRegexp E) (eVellum E) W (sRouter srv) s of
        ((err, r), s) \<Rightarrow>
          (srv\<lparr>sRouter := r, sMetrics := map_option (ObserveRebuild err took) (sMetrics srv)\<rparr>, s))"

text \<open>The first rebuild of \<open>PolicyRebuilder\<close>, before its loop.\<close>

definition firstRebuild ::
  "('c, 'n, 'q, 'h, 'w, 'b, 'f, 're) env \<Rightarrow> duration \<Rightarrow> world \<Rightarrow> ('c, 'w, 're, 'f) Server \<Rightarrow> fs \<Rightarrow>
   ('c, 'w, 're, 'f) Server \<times> fs"
where
  "firstRebuild E took W srv s =
     (case rebuild E took W srv s of (srv, s) \<Rightarrow> (srv\<lparr>sRebuildReady := True\<rparr>, s))"

text \<open>
  \<open>PolicyRebuilder\<close> with what it receives: the end of the context, the signal to reload, or a tick.
  \<open>time.NewTicker\<close> panics on an interval that is not positive, after the first rebuild.
\<close>

datatype rebuildEvent = RebuildDone | RebuildSignal duration world | RebuildTick duration world

fun rebuilderLoop ::
  "('c, 'n, 'q, 'h, 'w, 'b, 'f, 're) env \<Rightarrow> rebuildEvent list \<Rightarrow> ('c, 'w, 're, 'f) Server \<Rightarrow> fs \<Rightarrow>
   ('c, 'w, 're, 'f) Server \<times> fs"
where
  "rebuilderLoop E [] srv s = (srv, s)"
| "rebuilderLoop E (RebuildDone # evs) srv s = (srv, s)"
| "rebuilderLoop E (RebuildSignal took W # evs) srv s =
     (case rebuild E took W srv s of (srv, s) \<Rightarrow> rebuilderLoop E evs srv s)"
| "rebuilderLoop E (RebuildTick took W # evs) srv s =
     (case rebuild E took W srv s of (srv, s) \<Rightarrow> rebuilderLoop E evs srv s)"

definition NewTicker :: "duration \<Rightarrow> error option" where
  "NewTicker d = (if d \<le> 0 then Some (Panic ''non-positive interval for NewTicker'') else None)"

definition PolicyRebuilder ::
  "('c, 'n, 'q, 'h, 'w, 'b, 'f, 're) env \<Rightarrow> duration \<Rightarrow> duration \<Rightarrow> world \<Rightarrow> rebuildEvent list \<Rightarrow>
   ('c, 'w, 're, 'f) Server \<Rightarrow> fs \<Rightarrow> (error + ('c, 'w, 're, 'f) Server) \<times> fs"
where
  "PolicyRebuilder E interval took W evs srv s =
     (case firstRebuild E took W srv s of
        (srv, s) \<Rightarrow>
          (case NewTicker interval of
             Some panic \<Rightarrow> (Inl panic, s)
           | None \<Rightarrow> (case rebuilderLoop E evs srv s of (srv, s) \<Rightarrow> (Inr srv, s))))"

text \<open>Whether \<open>WaitReady\<close> returns while the context is alive.\<close>

definition WaitReady :: "('c, 'w, 're, 'f) Server \<Rightarrow> bool" where
  "WaitReady srv \<longleftrightarrow> sWarm srv \<or> sRebuildReady srv"

definition serverReady :: "('c, 'w, 're, 'f) Server \<Rightarrow> bool" where
  "serverReady srv = Ready (sRouter srv)"

definition ActiveMappings :: "('c, 'w, 're, 'f) Server \<Rightarrow> nat" where
  "ActiveMappings srv = (case Stats (sMapper srv) of (active, _) \<Rightarrow> active)"

definition PoolCapacity :: "('c, 'w, 're, 'f) Server \<Rightarrow> nat" where
  "PoolCapacity srv = (case Stats (sMapper srv) of (_, cap) \<Rightarrow> cap)"

definition CacheSize :: "'c ttlPkg \<Rightarrow> ('c, 'w, 're, 'f) Server \<Rightarrow> nat" where
  "CacheSize pkg srv = cLen pkg (sCache srv)"

text \<open>The body of the loop of \<open>MappingCleaner\<close>; an error is only logged.\<close>

definition cleanTick ::
  "('c, 'n, 'q, 'h, 'w, 'b, 'f, 're) env \<Rightarrow> time \<Rightarrow> u32 list \<Rightarrow> ('c, 'w, 're, 'f) Server \<Rightarrow> ('c, 'w, 're, 'f) Server"
where
  "cleanTick E now ks srv =
     (case Clean (eManager E) now ks (sMapper srv) of (err, mp) \<Rightarrow> srv\<lparr>sMapper := mp\<rparr>)"

datatype cleanEvent = CleanDone | CleanTick time "u32 list"

fun cleanerLoop ::
  "('c, 'n, 'q, 'h, 'w, 'b, 'f, 're) env \<Rightarrow> cleanEvent list \<Rightarrow> ('c, 'w, 're, 'f) Server \<Rightarrow> ('c, 'w, 're, 'f) Server"
where
  "cleanerLoop E [] srv = srv"
| "cleanerLoop E (CleanDone # evs) srv = srv"
| "cleanerLoop E (CleanTick now ks # evs) srv = cleanerLoop E evs (cleanTick E now ks srv)"

definition MappingCleaner ::
  "('c, 'n, 'q, 'h, 'w, 'b, 'f, 're) env \<Rightarrow> duration \<Rightarrow> cleanEvent list \<Rightarrow> ('c, 'w, 're, 'f) Server \<Rightarrow>
   error + ('c, 'w, 're, 'f) Server"
where
  "MappingCleaner E interval evs srv =
     (case NewTicker interval of Some panic \<Rightarrow> Inl panic | None \<Rightarrow> Inr (cleanerLoop E evs srv))"

text \<open>What the gauges of the metrics read.\<close>

definition stateSource ::
  "('c, 'n, 'q, 'h, 'w, 'b, 'f, 're) env \<Rightarrow> ('c, 'w, 're, 'f) Server \<Rightarrow> StateSource"
where
  "stateSource E srv =
     \<lparr>srcReady = serverReady srv, srcActiveMappings = ActiveMappings srv, srcPoolCapacity = PoolCapacity srv,
      srcCacheSize = CacheSize (eTTL E) srv\<rparr>"

text \<open>\<open>Close\<close> asks all parts and joins their errors; the cache and the store return none.\<close>

definition Close ::
  "('c, 'n, 'q, 'h, 'w, 'b, 'f, 're) env \<Rightarrow> ('c, 'w, 're, 'f) Server \<Rightarrow> error option \<times> ('c, 'w, 're, 'f) Server"
where
  "Close E srv =
     (case mClose (eManager E) (fw (sMapper srv)) of
        (err, w) \<Rightarrow>
          (joined (case err of None \<Rightarrow> [] | Some e \<Rightarrow> [e]), srv\<lparr>sMapper := (sMapper srv)\<lparr>fw := w\<rparr>\<rparr>))"

end
