(* ===== verification/Nft_Manager.thy ===== *)
theory Nft_Manager
  imports Firewall
begin

text \<open>
  The nftables backend, \<open>src/server/firewall/nft/nft.go\<close>. The connection \<open>nftables.Conn\<close> is a
  third-party package: it is the record \<open>nftConn\<close> of the operations that the manager calls, over
  a state \<^typ>\<open>'k\<close>. The locale \<open>nft_conn\<close> states what the package and the kernel document of
  them, and the section at the end gives a connection that has this behaviour.

  The one set of the manager is implicit. The operations hold \<open>m.mu\<close> throughout.
\<close>

record setElement =
  Key :: bytes
  Val :: bytes

record 'k nftConn =
  SetAddElements :: "setElement list \<Rightarrow> 'k \<Rightarrow> error option \<times> 'k"
  SetDeleteElements :: "setElement list \<Rightarrow> 'k \<Rightarrow> error option \<times> 'k"
  Flush :: "'k \<Rightarrow> error option \<times> 'k"
  GetSetElements :: "'k \<Rightarrow> (error + setElement list) \<times> 'k"
  CloseLasting :: "'k \<Rightarrow> error option \<times> 'k"

text \<open>\<open>os.ErrNotExist\<close>, which the kernel's \<open>ENOENT\<close> is in the sense of \<open>errors.Is\<close>.\<close>

definition ErrNotExist :: error where
  "ErrNotExist = Err ''file does not exist''"

section \<open>Operations\<close>

definition toSetElement :: "fwMapping \<Rightarrow> setElement option" where
  "toSetElement mp =
     (case (As4 (Fake mp), As4 (Real mp)) of
        (Some k, Some v) \<Rightarrow> Some \<lparr>Key = k, Val = v\<rparr>
      | _ \<Rightarrow> None)"

text \<open>\<open>toSetElements\<close>; \<^const>\<open>None\<close> is the panic of \<open>As4\<close> on an address that is not IPv4.\<close>

fun toSetElements :: "fwMapping list \<Rightarrow> setElement list option" where
  "toSetElements [] = Some []"
| "toSetElements (mp # mps) =
     (case (toSetElement mp, toSetElements mps) of
        (Some e, Some es) \<Rightarrow> Some (e # es)
      | _ \<Rightarrow> None)"

definition nftAdd :: "'k nftConn \<Rightarrow> fwMapping \<Rightarrow> 'k \<Rightarrow> error option \<times> 'k" where
  "nftAdd conn mp s =
     (let wrap = map_option (Wrap ''failed to add to set'')
      in case toSetElement mp of
        None \<Rightarrow> (Some (Panic ''As4 called on IPv6 address''), s)
      | Some e \<Rightarrow>
          (case SetAddElements conn [e] s of
             (Some err, s) \<Rightarrow> (wrap (Some err), s)
           | (None, s) \<Rightarrow> (case Flush conn s of (err, s) \<Rightarrow> (wrap err, s))))"

text \<open>\<open>netip.AddrFromSlice\<close>, as far as it matters here: four bytes are an IPv4 address, sixteen an
  IPv6 address, and no other length is an address.\<close>

definition AddrFromSlice :: "bytes \<Rightarrow> addr option" where
  "AddrFromSlice b =
     (if length b = 4 then Some (AddrFrom4 b)
      else if length b = 16 then Some (V6 (word_of_nat (be_get b)) [])
      else None)"

definition intersectPresent :: "fwMapping list \<Rightarrow> setElement list \<Rightarrow> fwMapping list" where
  "intersectPresent mappings existing =
     (let live = concat (map (\<lambda>e. case AddrFromSlice (Key e) of
                                    Some k \<Rightarrow> [Unmap k] | None \<Rightarrow> []) existing)
      in filter (\<lambda>mp. Fake mp \<in> set live) mappings)"

definition nftDelete :: "'k nftConn \<Rightarrow> fwMapping list \<Rightarrow> 'k \<Rightarrow> error option \<times> 'k" where
  "nftDelete conn mappings s =
     (if mappings = [] then (None, s)
      else
        let wrap = map_option (Wrap ''failed to delete elements from set'');
            panic = Panic ''As4 called on IPv6 address''
        in case toSetElements mappings of
          None \<Rightarrow> (Some panic, s)
        | Some es \<Rightarrow>
            (case SetDeleteElements conn es s of
               (Some err, s) \<Rightarrow> (wrap (Some err), s)
             | (None, s) \<Rightarrow>
                 (case Flush conn s of
                    (None, s) \<Rightarrow> (None, s)
                  | (Some err, s) \<Rightarrow>
                      if \<not> errors_is err ErrNotExist then (wrap (Some err), s)
                      else
                        (case GetSetElements conn s of
                           (Inl err, s) \<Rightarrow> (wrap (Some err), s)
                         | (Inr existing, s) \<Rightarrow>
                             let present = intersectPresent mappings existing
                             in if present = [] then (None, s)
                                else
                                  (case toSetElements present of
                                     None \<Rightarrow> (Some panic, s)
                                   | Some es \<Rightarrow>
                                       (case SetDeleteElements conn es s of
                                          (Some err, s) \<Rightarrow> (wrap (Some err), s)
                                        | (None, s) \<Rightarrow>
                                            (case Flush conn s of (err, s) \<Rightarrow> (wrap err, s))))))))"

text \<open>The discarded result of \<open>AddrFromSlice\<close> in \<open>List\<close> is the zero address on a bad length.\<close>

definition nftList :: "'k nftConn \<Rightarrow> 'k \<Rightarrow> (error + fwMapping list) \<times> 'k" where
  "nftList conn s =
     (case GetSetElements conn s of
        (Inl err, s) \<Rightarrow> (Inl (Wrap ''failed to list set elements'' err), s)
      | (Inr elems, s) \<Rightarrow>
          let addr_of = (\<lambda>b. case AddrFromSlice b of Some a \<Rightarrow> Unmap a | None \<Rightarrow> NoAddr)
          in (Inr (map (\<lambda>e. \<lparr>Fake = addr_of (Key e), Real = addr_of (Val e)\<rparr>) elems), s))"

definition nftManager :: "'k nftConn \<Rightarrow> 'k manager" where
  "nftManager conn = \<lparr>mAdd = nftAdd conn, mDelete = nftDelete conn, mList = nftList conn,
                      mClose = CloseLasting conn\<rparr>"

section \<open>What the package and the kernel promise\<close>

text \<open>
  The connection queues operations, and \<open>Flush\<close> sends the queue as one batch that the kernel
  applies as a whole or not at all. In a batch, adding an element whose key has another value,
  or whose bytes are not two IPv4 addresses, is refused, and so is deleting a key that is not
  there. An element is deleted by its key.
\<close>

datatype batchOp = BAdd "setElement list" | BDel "setElement list"

type_synonym kernelSet = "bytes \<rightharpoonup> bytes"

fun addElems :: "setElement list \<Rightarrow> kernelSet \<Rightarrow> kernelSet option" where
  "addElems [] m = Some m"
| "addElems (e # es) m =
     (if length (Key e) = 4 \<and> length (Val e) = 4 \<and> (m (Key e) = None \<or> m (Key e) = Some (Val e))
      then addElems es (m(Key e \<mapsto> Val e)) else None)"

fun delElems :: "setElement list \<Rightarrow> kernelSet \<Rightarrow> kernelSet option" where
  "delElems [] m = Some m"
| "delElems (e # es) m = (if m (Key e) = None then None else delElems es (m(Key e := None)))"

fun applyBatch :: "batchOp list \<Rightarrow> kernelSet \<Rightarrow> kernelSet option" where
  "applyBatch [] m = Some m"
| "applyBatch (BAdd es # b) m = Option.bind (addElems es m) (applyBatch b)"
| "applyBatch (BDel es # b) m = Option.bind (delElems es m) (applyBatch b)"

locale nft_conn =
  fixes conn :: "'k nftConn"
    and kset :: "'k \<Rightarrow> kernelSet"
    and queued :: "'k \<Rightarrow> batchOp list"
  assumes add_queues: "SetAddElements conn es s = (r, s') \<Longrightarrow>
      kset s' = kset s \<and> queued s' = (if r = None then queued s @ [BAdd es] else queued s)"
    and delete_queues: "SetDeleteElements conn es s = (r, s') \<Longrightarrow>
      kset s' = kset s \<and> queued s' = (if r = None then queued s @ [BDel es] else queued s)"
    and flush_empties: "Flush conn s = (r, s') \<Longrightarrow> queued s' = []"
    and flush_applies: "Flush conn s = (None, s') \<Longrightarrow> applyBatch (queued s) (kset s) = Some (kset s')"
    and flush_atomic: "Flush conn s = (Some e, s') \<Longrightarrow> kset s' = kset s"
    and get_frame: "GetSetElements conn s = (gr, s') \<Longrightarrow> kset s' = kset s \<and> queued s' = queued s"
    and get_exact: "GetSetElements conn s = (Inr es, s') \<Longrightarrow>
      distinct es \<and> set es = {e. kset s (Key e) = Some (Val e)}"
    and typed: "kset s k = Some v \<Longrightarrow> length k = 4 \<and> length v = 4"

text \<open>The rules that a kernel set stands for.\<close>

definition bytes4 :: "u32 \<Rightarrow> bytes" where
  "bytes4 u = be_put 4 (unat u)"

definition rules_of :: "kernelSet \<Rightarrow> fwMapping set" where
  "rules_of m = {\<lparr>Fake = V4 f, Real = V4 r\<rparr> | f r. m (bytes4 f) = Some (bytes4 r)}"

lemma bytes4_inj [simp]: "bytes4 a = bytes4 b \<longleftrightarrow> a = b"
  unfolding bytes4_def by (metis word_of_be)

lemma bytes4_surj:
  assumes "length b = 4"
  obtains u where "b = bytes4 u" and "u = word_of_nat (be_get b)"
proof
  have "be_get b < 2 ^ 32" using be_get_less [of b] assms by simp
  then have "unat (word_of_nat (be_get b) :: u32) = be_get b" by (simp add: of_nat_inverse)
  then show "b = bytes4 (word_of_nat (be_get b))"
    using be_put_get [of b] assms by (simp add: bytes4_def)
qed simp

lemma toSetElement_v4 [simp]:
  "toSetElement \<lparr>Fake = V4 f, Real = V4 r\<rparr> = Some \<lparr>Key = bytes4 f, Val = bytes4 r\<rparr>"
  by (simp add: toSetElement_def bytes4_def)

lemma v4_mapping_iff: "v4_mapping m \<longleftrightarrow> (\<exists>f r. m = \<lparr>Fake = V4 f, Real = V4 r\<rparr>)"
  by (cases m) (auto simp: v4_mapping_def Is4_iff)

definition elem_of :: "fwMapping \<Rightarrow> setElement" where
  "elem_of m = the (toSetElement m)"

lemma toSetElements_v4: "list_all v4_mapping ms \<Longrightarrow> toSetElements ms = Some (map elem_of ms)"
  by (induction ms) (auto simp: v4_mapping_iff elem_of_def)

lemma Key_elem_of: "v4_mapping m \<Longrightarrow> Key (elem_of m) = bytes4 f \<longleftrightarrow> Fake m = V4 f"
  by (auto simp: v4_mapping_iff elem_of_def)

lemma delElems_Some:
  "delElems es m = Some m' \<Longrightarrow> m' k = (if k \<in> Key ` set es then None else m k)"
  by (induction es arbitrary: m) (auto split: if_splits)

lemma rules_of_iff: "\<lparr>Fake = V4 f, Real = V4 r\<rparr> \<in> rules_of m \<longleftrightarrow> m (bytes4 f) = Some (bytes4 r)"
  by (auto simp: rules_of_def)

lemma rules_of_v4: "x \<in> rules_of m \<Longrightarrow> v4_mapping x"
  by (auto simp: rules_of_def v4_mapping_iff)

lemma rules_of_eqI:
  assumes "\<And>f r. \<lparr>Fake = V4 f, Real = V4 r\<rparr> \<in> A \<longleftrightarrow> m (bytes4 f) = Some (bytes4 r)"
    and "\<And>x. x \<in> A \<Longrightarrow> v4_mapping x"
  shows "rules_of m = A"
  using assms rules_of_iff rules_of_v4 by (metis (no_types, lifting) set_eqI v4_mapping_iff)

lemma rules_of_delElems:
  assumes v: "list_all v4_mapping ms" and d: "delElems (map elem_of ms) m = Some m'"
  shows "rules_of m' = {x \<in> rules_of m. Fake x \<notin> Fake ` set ms}"
proof (rule rules_of_eqI)
  fix f r
  have "bytes4 f \<in> Key ` set (map elem_of ms) \<longleftrightarrow> V4 f \<in> Fake ` set ms"
    using v Key_elem_of by (auto simp: list_all_iff image_iff) metis+
  then show "\<lparr>Fake = V4 f, Real = V4 r\<rparr> \<in> {x \<in> rules_of m. Fake x \<notin> Fake ` set ms} \<longleftrightarrow>
      m' (bytes4 f) = Some (bytes4 r)"
    by (simp add: rules_of_iff delElems_Some [OF d])
qed (auto dest: rules_of_v4)

lemma rules_of_addElem:
  assumes v: "v4_mapping mp" and d: "addElems [elem_of mp] m = Some m'"
  shows "rules_of m' = insert mp (rules_of m)"
proof (rule rules_of_eqI)
  fix f r
  from v obtain f' r' where mp: "mp = \<lparr>Fake = V4 f', Real = V4 r'\<rparr>" by (auto simp: v4_mapping_iff)
  with d have "m' = m(bytes4 f' \<mapsto> bytes4 r')" and "m (bytes4 f') \<in> {None, Some (bytes4 r')}"
    by (auto simp: elem_of_def split: if_splits)
  then show "\<lparr>Fake = V4 f, Real = V4 r\<rparr> \<in> insert mp (rules_of m) \<longleftrightarrow> m' (bytes4 f) = Some (bytes4 r)"
    by (auto simp: rules_of_iff mp)
qed (use v in \<open>auto dest: rules_of_v4\<close>)

lemma rules_of_functional: "x \<in> rules_of m \<Longrightarrow> y \<in> rules_of m \<Longrightarrow> Fake x = Fake y \<Longrightarrow> x = y"
  by (auto simp: rules_of_def)

section \<open>The manager keeps the contract of the interface\<close>

lemma AddrFromSlice_bytes4 [simp]: "AddrFromSlice (bytes4 u) = Some (V4 u)"
  by (simp add: AddrFromSlice_def bytes4_def AddrFrom4_def)

text \<open>Deleting every rule with one of the given fakes.\<close>

definition without :: "fwMapping list \<Rightarrow> fwMapping set \<Rightarrow> fwMapping set" where
  "without ms R = {x \<in> R. Fake x \<notin> Fake ` set ms}"

context nft_conn
begin

lemma kset_bytes4:
  assumes "kset s k = Some v"
  obtains f r where "k = bytes4 f" and "v = bytes4 r"
  using typed [OF assms] by (metis bytes4_surj)

lemma nftAdd_spec:
  assumes "queued s = []" and "v4_mapping m" and "nftAdd conn m s = (r, s')"
  shows "queued s' = [] \<and>
    rules_of (kset s') = (if r = None then insert m (rules_of (kset s)) else rules_of (kset s))"
proof -
  obtain r1 s1 where a: "SetAddElements conn [elem_of m] s = (r1, s1)" by force
  obtain r2 s2 where f: "Flush conn s1 = (r2, s2)" by force
  have e: "toSetElement m = Some (elem_of m)"
    using assms(2) by (auto simp: v4_mapping_iff elem_of_def)
  show ?thesis
  proof (cases r1)
    case None
    then have s': "s' = s2" and r: "r = None \<longleftrightarrow> r2 = None"
      using assms(3) a f by (auto simp: nftAdd_def e)
    from None add_queues [OF a] assms(1) have q: "queued s1 = [BAdd [elem_of m]]" "kset s1 = kset s"
      by simp_all
    show ?thesis
    proof (cases r2)
      case None
      with flush_applies [of s1 s2] f q have "addElems [elem_of m] (kset s) = Some (kset s2)"
        by (auto split: bind_splits if_splits)
      with rules_of_addElem [OF assms(2)] flush_empties [OF f] s' r None show ?thesis by simp
    next
      case (Some err)
      with flush_atomic [of s1 err s2] flush_empties [OF f] f q s' r show ?thesis by auto
    qed
  next
    case (Some err)
    with assms add_queues [OF a] a show ?thesis by (auto simp: nftAdd_def e)
  qed
qed

text \<open>One batch of deletions, from queueing to \<open>Flush\<close>.\<close>

lemma delete_batch:
  assumes "queued s = []" and "list_all v4_mapping ms"
    and d: "SetDeleteElements conn (map elem_of ms) s = (None, s1)" and f: "Flush conn s1 = (r, s2)"
  shows "queued s2 = [] \<and>
    rules_of (kset s2) = (if r = None then without ms (rules_of (kset s)) else rules_of (kset s))"
proof -
  from delete_queues [OF d] assms(1)
  have q: "queued s1 = [BDel (map elem_of ms)]" "kset s1 = kset s" by simp_all
  show ?thesis
  proof (cases r)
    case None
    with flush_applies [of s1 s2] f q have "delElems (map elem_of ms) (kset s) = Some (kset s2)"
      by (auto split: bind_splits)
    with rules_of_delElems [OF assms(2)] flush_empties [OF f] None show ?thesis
      by (simp add: without_def)
  next
    case (Some err)
    with flush_atomic [of s1 err s2] flush_empties [OF f] f q show ?thesis by simp
  qed
qed

lemma intersectPresent_spec:
  assumes "GetSetElements conn s = (Inr es, s')"
  shows "intersectPresent ms es = filter (\<lambda>mp. Fake mp \<in> Fake ` rules_of (kset s)) ms"
proof -
  have g: "set es = {e. kset s (Key e) = Some (Val e)}" using get_exact [OF assms] by simp
  let ?live = "\<lambda>e. case AddrFromSlice (Key e) of Some k \<Rightarrow> [Unmap k] | None \<Rightarrow> []"
  have "set (concat (map ?live es)) = Fake ` rules_of (kset s)"
  proof (intro set_eqI iffI)
    fix x assume "x \<in> set (concat (map ?live es))"
    then obtain e where "e \<in> set es" and x: "x \<in> set (?live e)" by (auto simp del: o_apply)
    then have e: "kset s (Key e) = Some (Val e)" using g by simp
    then obtain f r where "Key e = bytes4 f" "Val e = bytes4 r" by (rule kset_bytes4)
    with e x show "x \<in> Fake ` rules_of (kset s)" by (force simp: rules_of_def)
  next
    fix x assume "x \<in> Fake ` rules_of (kset s)"
    then obtain f r where "x = V4 f" and "kset s (bytes4 f) = Some (bytes4 r)"
      by (auto simp: rules_of_def)
    with g have "\<lparr>Key = bytes4 f, Val = bytes4 r\<rparr> \<in> set es" and "x = V4 f" by auto
    then show "x \<in> set (concat (map ?live es))" by force
  qed
  then show ?thesis by (simp add: intersectPresent_def Let_def)
qed

lemma without_present: "without (filter (\<lambda>mp. Fake mp \<in> Fake ` R) ms) R = without ms R"
proof -
  have "Fake x \<in> Fake ` {mp \<in> set ms. Fake mp \<in> Fake ` R} \<longleftrightarrow> Fake x \<in> Fake ` set ms" if "x \<in> R" for x
    using that by (auto simp: image_iff) metis
  then show ?thesis by (auto simp: without_def)
qed

lemma nftDelete_spec:
  assumes "queued s = []" and v: "list_all v4_mapping ms" and "nftDelete conn ms s = (r, s')"
  shows "queued s' = [] \<and>
    rules_of (kset s') = (if r = None then without ms (rules_of (kset s)) else rules_of (kset s))"
proof (cases "ms = []")
  case True
  with assms show ?thesis by (simp add: nftDelete_def without_def)
next
  case False
  obtain r1 s1 where d: "SetDeleteElements conn (map elem_of ms) s = (r1, s1)" by force
  obtain r2 s2 where f: "Flush conn s1 = (r2, s2)" by force
  obtain g s3 where g: "GetSetElements conn s2 = (g, s3)" by force
  show ?thesis
  proof (cases "r1 = None \<and> r2 \<noteq> None \<and> errors_is (the r2) ErrNotExist")
    case False
    with assms \<open>ms \<noteq> []\<close> d f delete_queues [OF d] delete_batch [OF assms(1) v, of s1 r2 s2]
    show ?thesis by (auto simp: nftDelete_def toSetElements_v4 [OF v] Let_def split: option.splits)
  next
    case retry: True
    let ?present = "filter (\<lambda>mp. Fake mp \<in> Fake ` rules_of (kset s)) ms"
    have kept: "queued s3 = [] \<and> kset s3 = kset s" and s2: "kset s2 = kset s"
      using retry d f get_frame [OF g] flush_empties [OF f] flush_atomic [of s1 "the r2" s2]
        delete_queues [OF d] by auto
    have vp: "list_all v4_mapping ?present" using v by (simp add: list_all_iff)
    obtain r4 s4 where d4: "SetDeleteElements conn (map elem_of ?present) s3 = (r4, s4)" by force
    obtain r5 s5 where f5: "Flush conn s4 = (r5, s5)" by force
    have none: "without ms (rules_of (kset s)) = rules_of (kset s)" if "?present = []"
      using without_present [of "rules_of (kset s)" ms] that by (auto simp: without_def)
    show ?thesis
    proof (cases g)
      case (Inl err)
      with retry assms \<open>ms \<noteq> []\<close> d f g kept show ?thesis
        by (auto simp: nftDelete_def toSetElements_v4 [OF v] Let_def)
    next
      case (Inr es)
      note p = intersectPresent_spec [OF g [unfolded Inr], of ms, unfolded s2]
      show ?thesis
        using retry assms \<open>ms \<noteq> []\<close> d f g Inr d4 f5 kept none delete_queues [OF d4]
          delete_batch [OF _ vp, of s3 s4 r5 s5] without_present [of "rules_of (kset s)" ms]
        by (auto simp: nftDelete_def toSetElements_v4 [OF v] toSetElements_v4 [OF vp] p Let_def
            split: if_splits option.splits)
    qed
  qed
qed

end

lemma without_exact: "set ms \<subseteq> rules_of m \<Longrightarrow> without ms (rules_of m) = rules_of m - set ms"
  using rules_of_functional unfolding without_def by blast

lemma addr_of_bytes4: "(case AddrFromSlice (bytes4 u) of Some a \<Rightarrow> Unmap a | None \<Rightarrow> NoAddr) = V4 u"
  by simp

context nft_conn
begin

lemma nftList_spec:
  assumes "nftList conn s = (r, s')"
  shows "queued s' = queued s \<and> kset s' = kset s"
    and "r = Inr ms \<Longrightarrow> set ms = rules_of (kset s) \<and> distinct ms"
proof -
  obtain g s1 where g: "GetSetElements conn s = (g, s1)" by force
  with assms have s': "s' = s1" by (auto simp: nftList_def Let_def split: sum.splits)
  with get_frame [OF g] show "queued s' = queued s \<and> kset s' = kset s" by simp
  assume r: "r = Inr ms"
  then obtain es where gs: "g = Inr es" using assms g by (auto simp: nftList_def split: sum.splits)
  let ?a = "\<lambda>b. case AddrFromSlice b of Some a \<Rightarrow> Unmap a | None \<Rightarrow> NoAddr"
  let ?m = "\<lambda>e. \<lparr>Fake = ?a (Key e), Real = ?a (Val e)\<rparr>"
  from assms g gs r have ms: "ms = map ?m es" by (simp add: nftList_def Let_def)
  from get_exact [OF g [unfolded gs]]
  have es: "distinct es" "set es = {e. kset s (Key e) = Some (Val e)}" by simp_all
  have inj: "inj_on ?m (set es)"
  proof (rule inj_onI)
    fix x y assume "x \<in> set es" and "y \<in> set es" and eq: "?m x = ?m y"
    then have "kset s (Key x) = Some (Val x)" "kset s (Key y) = Some (Val y)" using es(2) by auto
    then obtain f r f' r' where "Key x = bytes4 f" "Val x = bytes4 r" "Key y = bytes4 f'" "Val y = bytes4 r'"
      by (metis kset_bytes4)
    with eq show "x = y" by simp
  qed
  have "set ms = rules_of (kset s)"
  proof (intro set_eqI iffI)
    fix x assume "x \<in> set ms"
    then obtain e where "e \<in> set es" and x: "x = ?m e" unfolding ms set_map by blast
    then have e: "kset s (Key e) = Some (Val e)" using es(2) by simp
    then obtain f r where "Key e = bytes4 f" "Val e = bytes4 r" by (rule kset_bytes4)
    with e x show "x \<in> rules_of (kset s)" by (simp add: rules_of_iff)
  next
    fix x assume "x \<in> rules_of (kset s)"
    then obtain f r where x: "x = \<lparr>Fake = V4 f, Real = V4 r\<rparr>" and "kset s (bytes4 f) = Some (bytes4 r)"
      by (auto simp: rules_of_def)
    then have "\<lparr>Key = bytes4 f, Val = bytes4 r\<rparr> \<in> set es" using es(2) by simp
    then show "x \<in> set ms" unfolding ms x by (force simp: image_iff)
  qed
  with inj es(1) show "set ms = rules_of (kset s) \<and> distinct ms" by (simp add: ms distinct_map)
qed

end

sublocale nft_conn \<subseteq> firewall_manager "nftManager conn" "\<lambda>s. rules_of (kset s)" "\<lambda>s. queued s = []"
proof unfold_locales
  fix s s' m r e ms lr
  assume q: "queued s = []"
  show "queued s' = [] \<and> rules_of (kset s) \<subseteq> rules_of (kset s') \<and>
      rules_of (kset s') \<subseteq> insert m (rules_of (kset s))"
    if "v4_mapping m" "mAdd (nftManager conn) m s = (r, s')"
    using nftAdd_spec [OF q, of m r s'] that by (auto simp: nftManager_def split: if_splits)
  show "rules_of (kset s') = rules_of (kset s)"
    if "v4_mapping m" "mAdd (nftManager conn) m s = (Some e, s')"
    using nftAdd_spec [OF q, of m "Some e" s'] that by (simp add: nftManager_def)
  show "m \<in> rules_of (kset s')" if "v4_mapping m" "mAdd (nftManager conn) m s = (None, s')"
    using nftAdd_spec [OF q, of m None s'] that by (simp add: nftManager_def)
  show "queued s' = [] \<and> rules_of (kset s') \<subseteq> rules_of (kset s) \<and>
      {x \<in> rules_of (kset s). Fake x \<notin> Fake ` set ms} \<subseteq> rules_of (kset s')"
    if "list_all v4_mapping ms" "mDelete (nftManager conn) ms s = (r, s')"
    using nftDelete_spec [OF q, of ms r s'] that
    by (auto simp: nftManager_def without_def split: if_splits)
  show "rules_of (kset s) - set ms \<subseteq> rules_of (kset s')"
    if "list_all v4_mapping ms" "mDelete (nftManager conn) ms s = (r, s')" "set ms \<subseteq> rules_of (kset s)"
    using nftDelete_spec [OF q, of ms r s'] that without_exact [of ms "kset s"]
    by (auto simp: nftManager_def split: if_splits)
  show "rules_of (kset s') \<inter> set ms = {}"
    if "list_all v4_mapping ms" "mDelete (nftManager conn) ms s = (None, s')"
    using nftDelete_spec [OF q, of ms None s'] that by (auto simp: nftManager_def without_def)
  show "queued s' = [] \<and> rules_of (kset s') = rules_of (kset s)"
    if "mList (nftManager conn) s = (lr, s')"
    using nftList_spec(1) [of s lr s'] that q by (simp add: nftManager_def)
  show "set ms = rules_of (kset s) \<and> distinct ms" if "mList (nftManager conn) s = (Inr ms, s')"
    using nftList_spec(2) [of s "Inr ms" s' ms] that by (simp add: nftManager_def)
qed

section \<open>Delete succeeds on rules that are not there\<close>

text \<open>
  When the kernel refuses nothing (\<open>healthy\<close>), queueing and reading succeed, and a batch of
  deletions fails only for an element that is missing, with \<open>ErrNotExist\<close>.
\<close>

locale nft_live = nft_conn conn kset queued
  for conn :: "'k nftConn" and kset :: "'k \<Rightarrow> kernelSet" and queued :: "'k \<Rightarrow> batchOp list" +
  fixes healthy :: "'k \<Rightarrow> bool"
  assumes delete_live: "healthy s \<Longrightarrow> SetDeleteElements conn es s = (r, s') \<Longrightarrow> r = None \<and> healthy s'"
    and flush_live: "healthy s \<Longrightarrow> queued s = [BDel es] \<Longrightarrow> Flush conn s = (r, s') \<Longrightarrow>
      healthy s' \<and> (if delElems es (kset s) = None then \<exists>e. r = Some e \<and> errors_is e ErrNotExist
                    else r = None)"
    and get_live: "healthy s \<Longrightarrow> GetSetElements conn s = (gr, s') \<Longrightarrow> healthy s' \<and> (\<exists>es. gr = Inr es)"

lemma delElems_present:
  assumes "distinct (map Key es)" and "\<forall>e \<in> set es. m (Key e) \<noteq> None"
  shows "delElems es m \<noteq> None"
  using assms
proof (induction es arbitrary: m)
  case (Cons e es)
  have "\<forall>x \<in> set es. (m(Key e := None)) (Key x) \<noteq> None"
    using Cons.prems by (auto simp: image_iff)
  then have "delElems es (m(Key e := None)) \<noteq> None"
    using Cons.prems(1) by (intro Cons.IH) simp_all
  with Cons.prems show ?case by (simp del: fun_upd_apply)
qed simp

lemma Keys_distinct:
  assumes "list_all v4_mapping ms" and "distinct (map Fake ms)"
  shows "distinct (map Key (map elem_of ms))"
proof -
  have "Key (elem_of x) = Key (elem_of y) \<longleftrightarrow> Fake x = Fake y" if "x \<in> set ms" "y \<in> set ms" for x y
  proof -
    from that(2) assms(1) obtain f r where y: "y = \<lparr>Fake = V4 f, Real = V4 r\<rparr>"
      by (auto simp: list_all_iff v4_mapping_iff)
    from that(1) assms(1) have "v4_mapping x" by (simp add: list_all_iff)
    from Key_elem_of [OF this, of f] show ?thesis by (simp add: y elem_of_def)
  qed
  with assms(2) show ?thesis by (auto simp: distinct_map inj_on_def)
qed

context nft_live
begin

lemma delete_batch_live:
  assumes "healthy s" and "queued s = []" and "list_all v4_mapping ms"
    and "SetDeleteElements conn (map elem_of ms) s = (q, s1)" and "Flush conn s1 = (r, s2)"
  shows "q = None \<and> healthy s2 \<and>
    (if delElems (map elem_of ms) (kset s) = None then \<exists>e. r = Some e \<and> errors_is e ErrNotExist
     else r = None)"
  using delete_live [OF assms(1,4)] delete_queues [OF assms(4)] assms(2)
    flush_live [OF _ _ assms(5), of "map elem_of ms"] by simp

lemma nftDelete_live:
  assumes h: "healthy s" "queued s = []" and v: "list_all v4_mapping ms" and d: "distinct (map Fake ms)"
    and del: "nftDelete conn ms s = (r, s')"
  shows "r = None \<and> healthy s'"
proof (cases "ms = []")
  case True
  with h(1) del show ?thesis by (simp add: nftDelete_def)
next
  case False
  obtain r1 s1 where d1: "SetDeleteElements conn (map elem_of ms) s = (r1, s1)" by force
  obtain r2 s2 where f: "Flush conn s1 = (r2, s2)" by force
  note first = delete_batch_live [OF h v d1 f]
  show ?thesis
  proof (cases "delElems (map elem_of ms) (kset s) = None")
    case False
    with first \<open>ms \<noteq> []\<close> d1 f del show ?thesis
      by (auto simp: nftDelete_def toSetElements_v4 [OF v] Let_def)
  next
    case True
    obtain g s3 where g: "GetSetElements conn s2 = (g, s3)" by force
    with get_live [of s2 g s3] first obtain es where gs: "g = Inr es" and h3: "healthy s3" by auto
    have kept: "queued s3 = [] \<and> kset s3 = kset s" and s2: "kset s2 = kset s"
      using first True d1 f get_frame [OF g] flush_empties [OF f] flush_atomic [of s1 "the r2" s2]
        delete_queues [OF d1] by auto
    let ?present = "filter (\<lambda>mp. Fake mp \<in> Fake ` rules_of (kset s)) ms"
    have vp: "list_all v4_mapping ?present" using v by (simp add: list_all_iff)
    note p = intersectPresent_spec [OF g [unfolded gs], of ms, unfolded s2]
    obtain r4 s4 where d4: "SetDeleteElements conn (map elem_of ?present) s3 = (r4, s4)" by force
    obtain r5 s5 where f5: "Flush conn s4 = (r5, s5)" by force
    have "delElems (map elem_of ?present) (kset s) \<noteq> None"
    proof (rule delElems_present)
      show "distinct (map Key (map elem_of ?present))"
        using d by (intro Keys_distinct [OF vp]) (simp add: distinct_map_filter)
      show "\<forall>e \<in> set (map elem_of ?present). kset s (Key e) \<noteq> None"
        using v by (auto simp: list_all_iff v4_mapping_iff elem_of_def rules_of_def)
    qed
    then have second: "r4 = None" "r5 = None" "healthy s5"
      using delete_batch_live [OF h3 _ vp d4 f5] kept by auto
    have e: "nftDelete conn ms s = (if ?present = [] then (None, s3) else (None, s5))"
      using first True \<open>ms \<noteq> []\<close> d1 f g gs d4 f5 second
      by (auto simp: nftDelete_def toSetElements_v4 [OF v] toSetElements_v4 [OF vp] p Let_def)
    show ?thesis using e del h3 second(3) by (auto split: if_splits)
  qed
qed

end

section \<open>A connection with this behaviour\<close>

text \<open>
  A kernel set in memory. It shows that the promises can be kept together, and concrete runs of
  the development use it. \<open>faults\<close> lists what becomes of the coming calls of \<open>Flush\<close>: \<open>True\<close> is
  a call that the kernel refuses (no permission); when the list is used up, no call is.
\<close>

record memState =
  keys :: "bytes list"
  cells :: kernelSet
  batch :: "batchOp list"
  faults :: "bool list"

definition mem_kset :: "memState \<Rightarrow> kernelSet" where
  "mem_kset s k =
     (if k \<in> set (keys s) \<and> length k = 4
      then (case cells s k of Some v \<Rightarrow> if length v = 4 then Some v else None | None \<Rightarrow> None)
      else None)"

definition batch_keys :: "batchOp list \<Rightarrow> bytes list" where
  "batch_keys b = concat (map (\<lambda>op. case op of BAdd es \<Rightarrow> map Key es | BDel es \<Rightarrow> []) b)"

definition mem_flush :: "memState \<Rightarrow> error option \<times> memState" where
  "mem_flush s =
     (let s' = s\<lparr>batch := [], faults := tl (faults s)\<rparr>
      in if faults s \<noteq> [] \<and> hd (faults s) then (Some (Err ''operation not permitted''), s')
         else case applyBatch (batch s) (mem_kset s) of
           None \<Rightarrow> (Some (Wrap ''conn.Receive'' ErrNotExist), s')
         | Some m \<Rightarrow> (None, s'\<lparr>keys := keys s @ batch_keys (batch s), cells := m\<rparr>))"

definition memConn :: "memState nftConn" where
  "memConn =
     \<lparr>SetAddElements = (\<lambda>es s. (None, s\<lparr>batch := batch s @ [BAdd es]\<rparr>)),
      SetDeleteElements = (\<lambda>es s. (None, s\<lparr>batch := batch s @ [BDel es]\<rparr>)),
      Flush = mem_flush,
      GetSetElements = (\<lambda>s. (Inr (map (\<lambda>k. \<lparr>Key = k, Val = the (mem_kset s k)\<rparr>)
          (filter (\<lambda>k. mem_kset s k \<noteq> None) (remdups (keys s)))), s)),
      CloseLasting = (\<lambda>s. (None, s))\<rparr>"

definition memEmpty :: memState where
  "memEmpty = \<lparr>keys = [], cells = Map.empty, batch = [], faults = []\<rparr>"

lemma addElems_typed:
  assumes "addElems es m = Some m'" and "\<forall>k v. m k = Some v \<longrightarrow> length k = 4 \<and> length v = 4 \<and> k \<in> K"
  shows "\<forall>k v. m' k = Some v \<longrightarrow> length k = 4 \<and> length v = 4 \<and> k \<in> K \<union> Key ` set es"
  using assms
proof (induction es arbitrary: m K)
  case (Cons e es)
  from Cons.prems(1)
  have a: "addElems es (m(Key e \<mapsto> Val e)) = Some m'" and "length (Key e) = 4" "length (Val e) = 4"
    by (simp_all split: if_splits)
  then have "\<forall>k v. (m(Key e \<mapsto> Val e)) k = Some v \<longrightarrow>
      length k = 4 \<and> length v = 4 \<and> k \<in> insert (Key e) K"
    using Cons.prems(2) by simp
  from Cons.IH [OF a this]
  have "\<forall>k v. m' k = Some v \<longrightarrow> length k = 4 \<and> length v = 4 \<and> k \<in> insert (Key e) K \<union> Key ` set es" .
  then show ?case by auto
qed auto

lemma applyBatch_typed:
  assumes "applyBatch b m = Some m'" and "\<forall>k v. m k = Some v \<longrightarrow> length k = 4 \<and> length v = 4 \<and> k \<in> K"
  shows "\<forall>k v. m' k = Some v \<longrightarrow> length k = 4 \<and> length v = 4 \<and> k \<in> K \<union> set (batch_keys b)"
  using assms
proof (induction b arbitrary: m K)
  case (Cons op b)
  show ?case
  proof (cases op)
    case (BAdd es)
    with Cons.prems(1) obtain m1 where m1: "addElems es m = Some m1" "applyBatch b m1 = Some m'"
      by (auto split: bind_splits)
    from Cons.IH [OF m1(2) addElems_typed [OF m1(1) Cons.prems(2)]] BAdd
    show ?thesis by (simp add: batch_keys_def Un_assoc)
  next
    case (BDel es)
    with Cons.prems(1) obtain m1 where m1: "delElems es m = Some m1" "applyBatch b m1 = Some m'"
      by (auto split: bind_splits)
    have "\<forall>k v. m1 k = Some v \<longrightarrow> length k = 4 \<and> length v = 4 \<and> k \<in> K"
      using delElems_Some [OF m1(1)] Cons.prems(2) by (auto split: if_splits)
    from Cons.IH [OF m1(2) this] BDel show ?thesis by (simp add: batch_keys_def)
  qed
qed (auto simp: batch_keys_def)

lemma mem_kset_typed:
  "mem_kset s k = Some v \<Longrightarrow> length k = 4 \<and> length v = 4 \<and> k \<in> set (keys s)"
  by (auto simp: mem_kset_def split: if_splits option.splits)

lemma mem_kset_flush:
  assumes "applyBatch (batch s) (mem_kset s) = Some m"
  shows "mem_kset (s'\<lparr>keys := keys s @ batch_keys (batch s), cells := m\<rparr>) = m"
proof
  fix k
  have "\<forall>k v. m k = Some v \<longrightarrow> length k = 4 \<and> length v = 4 \<and> k \<in> set (keys s) \<union> set (batch_keys (batch s))"
    by (rule applyBatch_typed [OF assms]) (use mem_kset_typed in blast)
  then show "mem_kset (s'\<lparr>keys := keys s @ batch_keys (batch s), cells := m\<rparr>) k = m k"
    by (cases "m k") (auto simp: mem_kset_def)
qed

lemma mem_kset_cong [simp]:
  "mem_kset (s\<lparr>batch := b\<rparr>) = mem_kset s" "mem_kset (s\<lparr>batch := b, faults := f\<rparr>) = mem_kset s"
  by (simp_all add: mem_kset_def fun_eq_iff)

interpretation memConn: nft_conn memConn mem_kset batch
proof unfold_locales
  fix s s' :: memState and r :: "error option" and e es k v
  show "mem_kset s' = mem_kset s \<and> batch s' = (if r = None then batch s @ [BAdd es] else batch s)"
    if "SetAddElements memConn es s = (r, s')"
    using that by (auto simp: memConn_def)
  show "mem_kset s' = mem_kset s \<and> batch s' = (if r = None then batch s @ [BDel es] else batch s)"
    if "SetDeleteElements memConn es s = (r, s')"
    using that by (auto simp: memConn_def)
  show "batch s' = []" if "Flush memConn s = (r, s')"
    using that by (auto simp: memConn_def mem_flush_def Let_def split: if_splits option.splits)
  show "applyBatch (batch s) (mem_kset s) = Some (mem_kset s')" if "Flush memConn s = (None, s')"
    using that mem_kset_flush [of s _ "s\<lparr>batch := [], faults := tl (faults s)\<rparr>"]
    by (auto simp: memConn_def mem_flush_def Let_def split: if_splits option.splits)
  show "mem_kset s' = mem_kset s" if "Flush memConn s = (Some e, s')"
    using that by (auto simp: memConn_def mem_flush_def Let_def split: if_splits option.splits)
  show "distinct es \<and> set es = {e. mem_kset s (Key e) = Some (Val e)}"
    if "GetSetElements memConn s = (Inr es, s')"
  proof -
    have "x \<in> (\<lambda>k. \<lparr>Key = k, Val = the (mem_kset s k)\<rparr>) ` {k \<in> set (keys s). mem_kset s k \<noteq> None}"
      if "mem_kset s (Key x) = Some (Val x)" for x
      using that mem_kset_typed [OF that] by (intro image_eqI [where x = "Key x"]) auto
    then show ?thesis using that by (auto simp: memConn_def distinct_map inj_on_def)
  qed
  show "length k = 4 \<and> length v = 4" if "mem_kset s k = Some v"
    using mem_kset_typed [OF that] by simp
next
  fix s s' :: memState and gr
  show "mem_kset s' = mem_kset s \<and> batch s' = batch s" if "GetSetElements memConn s = (gr, s')"
    using that by (auto simp: memConn_def)
qed

interpretation memLive: nft_live memConn mem_kset batch "\<lambda>s. faults s = []"
proof unfold_locales
  fix s s' :: memState and es r
  assume h: "faults s = []"
  show "r = None \<and> faults s' = []" if "SetDeleteElements memConn es s = (r, s')"
    using that h by (auto simp: memConn_def)
  show "faults s' = [] \<and> (if delElems es (mem_kset s) = None
      then \<exists>e. r = Some e \<and> errors_is e ErrNotExist else r = None)"
    if "batch s = [BDel es]" "Flush memConn s = (r, s')"
    using that h
    by (auto simp: memConn_def mem_flush_def Let_def ErrNotExist_def split: option.splits bind_splits)
next
  fix s s' :: memState and gr
  show "faults s' = [] \<and> (\<exists>es. gr = Inr es)" if "faults s = []" "GetSetElements memConn s = (gr, s')"
    using that by (auto simp: memConn_def)
qed

section \<open>The properties of the backend\<close>

text \<open>
  C26. \<open>Delete\<close> of the nftables backend is atomic: whatever the package and the kernel answer, it
  leaves no operation queued, and it has removed either every rule whose fake address is one of
  those given (and nothing else), when it reports success, or no rule at all, when it reports an
  error. Some of the given rules may be missing: the retry after \<open>ErrNotExist\<close> keeps the promise.
\<close>

theorem nft_delete_atomic:
  assumes "nft_conn conn kset queued" and "queued s = []" and "list_all v4_mapping ms"
    and "nftDelete conn ms s = (r, s')"
  shows "queued s' = [] \<and>
    rules_of (kset s') =
      (if r = None then {x \<in> rules_of (kset s). Fake x \<notin> Fake ` set ms} else rules_of (kset s))"
  using nft_conn.nftDelete_spec [OF assms] by (simp add: without_def)

text \<open>A set with one rule, of which a \<open>Delete\<close> names this rule and one that is not there.\<close>

definition demo_rule :: "u32 \<Rightarrow> fwMapping" where
  "demo_rule f = \<lparr>Fake = V4 f, Real = V4 (f + 1)\<rparr>"

definition demo_set :: memState where
  "demo_set = \<lparr>keys = [bytes4 0x0A1E0001], cells = [bytes4 0x0A1E0001 \<mapsto> bytes4 0x0A1E0002],
      batch = [], faults = []\<rparr>"

lemma length_bytes4 [simp]: "length (bytes4 u) = 4"
  by (simp add: bytes4_def)

lemmas demo_simps = demo_rule_def demo_set_def memConn_def mem_flush_def mem_kset_def batch_keys_def
  Let_def ErrNotExist_def

lemma nft_delete_atomic_witness:
  "\<exists>s'. nftDelete memConn [demo_rule 0x0A1E0001, demo_rule 0x0A1E0005] demo_set = (None, s') \<and>
     rules_of (mem_kset s') = {x \<in> rules_of (mem_kset demo_set). Fake x \<notin> {V4 0x0A1E0001, V4 0x0A1E0005}} \<and>
     mem_kset demo_set \<noteq> Map.empty"
proof -
  let ?ms = "[demo_rule 0x0A1E0001, demo_rule 0x0A1E0005]"
  have "fst (nftDelete memConn ?ms demo_set) = None"
    by (simp add: nftDelete_def intersectPresent_def demo_simps)
  then obtain s' where d: "nftDelete memConn ?ms demo_set = (None, s')" by (metis prod.collapse)
  have v: "list_all v4_mapping ?ms" by (simp add: demo_rule_def v4_mapping_def)
  have "batch demo_set = []" by (simp add: demo_set_def)
  from nft_delete_atomic [OF memConn.nft_conn_axioms this v d]
  have "rules_of (mem_kset s') =
      {x \<in> rules_of (mem_kset demo_set). Fake x \<notin> {V4 0x0A1E0001, V4 0x0A1E0005}}"
    by (simp add: demo_rule_def)
  moreover have "mem_kset demo_set (bytes4 0x0A1E0001) \<noteq> None"
    by (simp add: demo_set_def mem_kset_def)
  then have "mem_kset demo_set \<noteq> Map.empty" by auto
  ultimately show ?thesis using d by blast
qed

text \<open>
  C31. Rules that are already gone do not make \<open>Delete\<close> fail: when the kernel refuses nothing,
  a \<open>Delete\<close> of any IPv4 mappings with different fake addresses, present or not, succeeds, and
  afterwards no rule with one of these fake addresses is left. This is what the interface
  \<open>firewall.Manager\<close> asks of \<open>Delete\<close>.
\<close>

theorem nft_delete_missing:
  assumes "nft_live conn kset queued healthy" and "healthy s" and "queued s = []"
    and "list_all v4_mapping ms" and "distinct (map Fake ms)"
    and "nftDelete conn ms s = (r, s')"
  shows "r = None \<and> rules_of (kset s') = {x \<in> rules_of (kset s). Fake x \<notin> Fake ` set ms}"
proof -
  have c: "nft_conn conn kset queued" using assms(1) by (simp add: nft_live_def)
  show ?thesis
    using nft_live.nftDelete_live [OF assms] nft_conn.nftDelete_spec [OF c assms(3,4,6)]
    by (simp add: without_def)
qed

lemma nft_delete_missing_witness:
  "fst (nftDelete memConn [demo_rule 0x0A1E0001, demo_rule 0x0A1E0005] demo_set) = None \<and>
   rules_of (mem_kset (snd (nftDelete memConn [demo_rule 0x0A1E0001, demo_rule 0x0A1E0005] demo_set))) =
     {x \<in> rules_of (mem_kset demo_set). Fake x \<notin> {V4 0x0A1E0001, V4 0x0A1E0005}}"
proof -
  let ?ms = "[demo_rule 0x0A1E0001, demo_rule 0x0A1E0005]"
  obtain r s' where d: "nftDelete memConn ?ms demo_set = (r, s')" by force
  have "faults demo_set = []" and "batch demo_set = []" by (simp_all add: demo_set_def)
  from nft_delete_missing [OF memLive.nft_live_axioms this _ _ d] d
  show ?thesis by (simp add: demo_rule_def v4_mapping_def)
qed

text \<open>
  \<open>List\<close> reports exactly the rules in force, each once, and what \<open>Add\<close> programs is listed:
  after a successful \<open>Add\<close> of an IPv4 mapping the list has this rule and the earlier ones, after
  a failed one the earlier ones only.
\<close>

lemma nft_add_list:
  assumes "nft_conn conn kset queued" and "queued s = []" and "v4_mapping mp"
    and "nftAdd conn mp s = (r, s1)" and "nftList conn s1 = (Inr ms, s2)"
  shows "distinct ms \<and> set ms = (if r = None then {mp} else {}) \<union> rules_of (kset s)"
  using nft_conn.nftAdd_spec [OF assms(1-4)] nft_conn.nftList_spec(2) [OF assms(1,5) refl] by simp

lemma nft_add_list_witness:
  "\<exists>ms. fst (nftList memConn (snd (nftAdd memConn (demo_rule 0x0A1E0005) demo_set))) = Inr ms \<and>
     set ms = insert (demo_rule 0x0A1E0005) (rules_of (mem_kset demo_set))"
proof -
  have "fst (nftAdd memConn (demo_rule 0x0A1E0005) demo_set) = None"
    by (simp add: nftAdd_def demo_simps)
  then obtain s1 where a: "nftAdd memConn (demo_rule 0x0A1E0005) demo_set = (None, s1)"
    by (metis prod.collapse)
  obtain ms s2 where l: "nftList memConn s1 = (Inr ms, s2)"
    by (simp add: nftList_def memConn_def)
  have "batch demo_set = []" and "v4_mapping (demo_rule 0x0A1E0005)"
    by (simp_all add: demo_set_def demo_rule_def v4_mapping_def)
  from nft_add_list [OF memConn.nft_conn_axioms this a l] a l show ?thesis by simp
qed

end
