(* ===== verification/Mapper_Rules.thy ===== *)
theory Mapper_Rules
  imports IP_Mapper Nft_Manager
begin

text \<open>
  The mapper and the firewall together: the runs of the mapper as a step relation, and the
  agreement of the table with the DNAT rules in force. The agreement is proved once, in the
  contexts of the firewall's interface, and holds for every backend that keeps the contract.
\<close>

section \<open>Runs of the mapper\<close>

text \<open>
  A step is one call of \<open>Map\<close> or of \<open>Clean\<close>. A run is a sequence of steps at instants that
  satisfy \<open>T\<close>.
\<close>

inductive mapper_step :: "'w manager \<Rightarrow> time \<Rightarrow> 'w ipMapper \<Rightarrow> 'w ipMapper \<Rightarrow> bool" for mgr now where
  map: "Map mgr now a m = (r, m') \<Longrightarrow> mapper_step mgr now m m'"
| clean: "key_order ks (table m) \<Longrightarrow> Clean mgr now ks m = (err, m') \<Longrightarrow> mapper_step mgr now m m'"

inductive mapper_run :: "'w manager \<Rightarrow> (time \<Rightarrow> bool) \<Rightarrow> 'w ipMapper \<Rightarrow> 'w ipMapper \<Rightarrow> bool"
  for mgr T m0
where
  start: "mapper_run mgr T m0 m0"
| step: "mapper_run mgr T m0 m \<Longrightarrow> T now \<Longrightarrow> mapper_step mgr now m m' \<Longrightarrow> mapper_run mgr T m0 m'"

inductive_cases mapper_stepE: "mapper_step mgr now m m'"

lemma mapper_step_inv:
  "mapper_step mgr now m m' \<Longrightarrow> mapper_inv m \<Longrightarrow> mapper_inv m' \<and> space (pool m') = space (pool m)"
proof (erule mapper_stepE)
  fix a r assume "mapper_inv m" and "Map mgr now a m = (r, m')"
  then show ?thesis by (rule Map_inv)
next
  fix ks err assume "mapper_inv m" and "key_order ks (table m)" and "Clean mgr now ks m = (err, m')"
  then show ?thesis by (rule Clean_inv)
qed

lemma mapper_run_inv:
  "mapper_run mgr T m m' \<Longrightarrow> mapper_inv m \<Longrightarrow> mapper_inv m' \<and> space (pool m') = space (pool m)"
  by (induction rule: mapper_run.induct) (auto dest: mapper_step_inv)

section \<open>The table and the rules in force\<close>

definition rule :: "u32 \<Rightarrow> u32 \<Rightarrow> fwMapping" where
  "rule r f = \<lparr>Fake = V4 f, Real = V4 r\<rparr>"

definition rules_for :: "(u32 \<rightharpoonup> u32) \<Rightarrow> fwMapping set" where
  "rules_for g = {rule r f | r f. g r = Some f}"

definition pending_rules :: "'w ipMapper \<Rightarrow> fwMapping set" where
  "pending_rules m = rule_of_pair ` set (pending m)"

lemma rule_v4 [simp]: "v4_mapping (rule r f)" and Fake_rule [simp]: "Fake (rule r f) = V4 f"
  by (simp_all add: rule_def v4_mapping_def)

lemma rule_of_pair_rule: "rule_of_pair p = rule (preal p) (pfake p)"
  by (simp add: rule_of_pair_def rule_def)

lemma rules_of_pairs_v4 [simp]: "list_all v4_mapping (map rule_of_pair ps)"
  by (simp add: list_all_iff rule_of_pair_rule)

lemma rule_inj [simp]: "rule r f = rule r' f' \<longleftrightarrow> r = r' \<and> f = f'"
  by (auto simp: rule_def)

lemma mem_rules_for [simp]: "rule r f \<in> rules_for g \<longleftrightarrow> g r = Some f"
  by (auto simp: rules_for_def)

lemma rules_forE [elim?]:
  assumes "x \<in> rules_for g"
  obtains r f where "x = rule r f" and "g r = Some f"
  using assms by (auto simp: rules_for_def)

lemma rules_for_eqI:
  assumes "\<And>r f. rule r f \<in> A \<longleftrightarrow> g r = Some f" and "\<And>x. x \<in> A \<Longrightarrow> \<exists>r f. x = rule r f"
  shows "rules_for g = A"
  using assms unfolding rules_for_def by blast

lemma rules_for_upd: "g r = None \<Longrightarrow> rules_for (g(r \<mapsto> f)) = insert (rule r f) (rules_for g)"
  by (rule rules_for_eqI) (auto elim: rules_forE)

lemma rules_for_mono: "g \<subseteq>\<^sub>m h \<Longrightarrow> rules_for g \<subseteq> rules_for h"
  by (force simp: rules_for_def map_le_def dom_def)

text \<open>
  \<open>programmed\<close>: every mapping of the table is in force. \<open>no_orphans S\<close>: a rule in force is one of
  the table's, one that waits for its deletion, or one of the set \<open>S\<close> (the rules that the
  constructor could not remove).
\<close>

definition programmed :: "('w \<Rightarrow> fwMapping set) \<Rightarrow> 'w ipMapper \<Rightarrow> bool" where
  "programmed rules m \<longleftrightarrow> rules_for (fake_of (table m)) \<subseteq> rules (fw m)"

definition no_orphans :: "('w \<Rightarrow> fwMapping set) \<Rightarrow> fwMapping set \<Rightarrow> 'w ipMapper \<Rightarrow> bool" where
  "no_orphans rules S m \<longleftrightarrow>
     rules (fw m) \<subseteq> rules_for (fake_of (table m)) \<union> pending_rules m \<union> S"

lemmas rule_defs = programmed_def no_orphans_def pending_rules_def

text \<open>What a cleaning round hands to \<open>Delete\<close>, and what remains in the table.\<close>

lemma expired_rule_iff:
  assumes "key_order ks (table m)" and "expired now l ks (table m) = (ex, t)"
  shows "rule r f \<in> rule_of_pair ` set ex \<longleftrightarrow>
    fake_of (table m) r = Some f \<and> due (now - l) (table m) r"
proof -
  note e = expired_fakes [OF assms]
  note reals = expired_reals(1) [OF assms]
  show ?thesis
  proof
    assume "rule r f \<in> rule_of_pair ` set ex"
    with e(4) reals show "fake_of (table m) r = Some f \<and> due (now - l) (table m) r"
      by (auto simp: rule_of_pair_rule)
  next
    assume a: "fake_of (table m) r = Some f \<and> due (now - l) (table m) r"
    then have "r \<in> preal ` set ex" unfolding reals by blast
    with e(4) a show "rule r f \<in> rule_of_pair ` set ex"
      by (auto simp: rule_of_pair_rule image_iff)
  qed
qed

lemma expired_rules:
  assumes "key_order ks (table m)" and "expired now l ks (table m) = (ex, t)"
  shows "rules_for (fake_of (table m)) = rules_for (fake_of t) \<union> rule_of_pair ` set ex"
  using expired_fakes(1) [OF assms] expired_rule_iff [OF assms]
  by (intro rules_for_eqI) (auto simp: rule_of_pair_rule elim: rules_forE)

text \<open>The rules of the mappings that are due.\<close>

definition due_rules :: "time \<Rightarrow> 'w ipMapper \<Rightarrow> fwMapping set" where
  "due_rules now m =
     rules_for (\<lambda>r. if due (now - ttl m) (table m) r then fake_of (table m) r else None)"

lemma expired_due_rules:
  assumes "key_order ks (table m)" and "expired now (ttl m) ks (table m) = (ex, t)"
  shows "rule_of_pair ` set ex = due_rules now m"
  unfolding due_rules_def using expired_rule_iff [OF assms]
  by (intro rules_for_eqI [symmetric]) (auto simp: rule_of_pair_rule)

text \<open>No pair that is to be deleted shares its fake with a mapping that stays.\<close>

lemma items_apart:
  assumes "mapper_inv (m\<lparr>pending := items\<rparr>)"
  shows "rules_for (fake_of (table m)) \<subseteq> {x. Fake x \<notin> Fake ` set (map rule_of_pair items)}"
proof -
  have "ran (fake_of (table m)) \<inter> set (map pfake items) = {}"
    using assms by (simp add: mapper_inv_def pending_fakes_def)
  then show ?thesis by (auto simp: rules_for_def rule_of_pair_rule ran_def)
qed

section \<open>Every backend: nothing beyond what the mapper asked for\<close>

context firewall_frame
begin

lemma Map_frame:
  assumes "mapper_inv m" and "idle (fw m)" and "no_orphans rules S m" and "Map mgr now a m = (r, m')"
  shows "idle (fw m') \<and> no_orphans rules S m'"
  using assms(4)
proof (cases rule: Map_cases)
  case (hit realU f t)
  with assms(2,3) fake_of_tget [OF hit(2)] show ?thesis by (simp add: rule_defs)
next
  case (miss realU s)
  from miss(3,2) show ?thesis
  proof (cases rule: mapFlight_cases)
    case (full p)
    with assms show ?thesis by (simp add: rule_defs)
  next
    case (refused f p e w)
    then have "mAdd mgr (rule realU f) (fw m) = (Some e, w)" using miss(1) by (simp add: rule_def)
    with add_frame [OF assms(2) rule_v4 this] add_err [OF assms(2) rule_v4 this] refused assms(3)
    show ?thesis by (simp add: rule_defs)
  next
    case (mapped f p w)
    then have "mAdd mgr (rule realU f) (fw m) = (None, w)" using miss(1) by (simp add: rule_def)
    with add_frame [OF assms(2) rule_v4 this] mapped assms(3) miss(2)
    show ?thesis by (auto simp: rule_defs rules_for_upd)
  qed
qed (use assms in simp)

end

section \<open>A backend that programs the kernel: the table and the kernel agree\<close>

context firewall_manager
begin

definition agree :: "fwMapping set \<Rightarrow> 'w ipMapper \<Rightarrow> bool" where
  "agree S m \<longleftrightarrow> mapper_inv m \<and> idle (fw m) \<and> programmed rules m \<and> no_orphans rules S m"

lemma Map_agree:
  assumes "agree S m" and "Map mgr now a m = (r, m')"
  shows "agree S m'"
proof -
  have inv: "mapper_inv m" and i: "idle (fw m)" using assms(1) by (simp_all add: agree_def)
  have frame: "mapper_inv m' \<and> idle (fw m') \<and> no_orphans rules S m'"
    using Map_inv [OF inv assms(2)] Map_frame [OF inv i _ assms(2), of S] assms(1)
    by (simp add: agree_def)
  have "programmed rules m'"
    using assms(2)
  proof (cases rule: Map_cases)
    case (hit realU f t)
    with assms(1) fake_of_tget [OF hit(2)] show ?thesis by (simp add: agree_def rule_defs)
  next
    case (miss realU s)
    from miss(3,2) show ?thesis
    proof (cases rule: mapFlight_cases)
      case (refused f p e w)
      then have "mAdd mgr (rule realU f) (fw m) = (Some e, w)" using miss(1) by (simp add: rule_def)
      with add_err [OF i rule_v4 this] refused assms(1) show ?thesis by (simp add: agree_def rule_defs)
    next
      case (mapped f p w)
      then have "mAdd mgr (rule realU f) (fw m) = (None, w)" using miss(1) by (simp add: rule_def)
      with add_exact [OF i rule_v4 this] mapped assms(1) miss(2) show ?thesis
        by (auto simp: agree_def rule_defs rules_for_upd)
    qed (use assms(1) in \<open>simp add: agree_def rule_defs\<close>)
  qed (use assms(1) in \<open>simp add: agree_def\<close>)
  with frame show ?thesis by (simp add: agree_def)
qed

lemma teardown_agree:
  assumes "agree S (m\<lparr>pending := items\<rparr>)" and "teardown mgr items m = ((failed, err), m')"
  shows "agree S (m'\<lparr>pending := failed\<rparr>)"
proof -
  let ?ms = "map rule_of_pair items"
  have inv: "mapper_inv (m'\<lparr>pending := failed\<rparr>)" and i: "idle (fw m)"
    using assms(1) teardown_inv [OF _ assms(2)] by (simp_all add: agree_def)
  have pr: "rules_for (fake_of (table m)) \<subseteq> rules (fw m)"
    and no: "rules (fw m) \<subseteq> rules_for (fake_of (table m)) \<union> set ?ms \<union> S"
    using assms(1) by (simp_all add: agree_def rule_defs)
  have apart: "rules_for (fake_of (table m)) \<subseteq> {x. Fake x \<notin> Fake ` set ?ms}"
    using assms(1) by (intro items_apart) (simp add: agree_def)
  show ?thesis
    using assms(2)
  proof (cases rule: teardown_cases)
    case none
    with assms(1) show ?thesis by simp
  next
    case (kept e w)
    have d: "idle w" "rules w \<subseteq> rules (fw m)" "{x \<in> rules (fw m). Fake x \<notin> Fake ` set ?ms} \<subseteq> rules w"
      using delete_frame [OF i rules_of_pairs_v4 kept(2)] by simp_all
    have "rules_for (fake_of (table m)) \<subseteq> rules w" using pr apart d(3) by blast
    moreover have "rules w \<subseteq> rules_for (fake_of (table m)) \<union> set ?ms \<union> S" using d(2) no by blast
    ultimately show ?thesis using inv kept d(1) by (simp add: agree_def rule_defs)
  next
    case (gone w)
    have d: "idle w" "rules w \<subseteq> rules (fw m)" "{x \<in> rules (fw m). Fake x \<notin> Fake ` set ?ms} \<subseteq> rules w"
      and g: "rules w \<inter> set ?ms = {}"
      using delete_frame [OF i rules_of_pairs_v4 gone(2)] delete_ok [OF i rules_of_pairs_v4 gone(2)]
      by simp_all
    have "rules_for (fake_of (table m)) \<subseteq> rules w" using pr apart d(3) by blast
    moreover have "rules w \<subseteq> rules_for (fake_of (table m)) \<union> S" using d(2) no g by blast
    ultimately show ?thesis using inv gone d(1) by (simp add: agree_def rule_defs)
  qed
qed

lemma Clean_agree:
  assumes "agree S m" and "key_order ks (table m)" and "Clean mgr now ks m = (err, m')"
  shows "agree S m'"
proof -
  obtain ex t where ex: "expired now (ttl m) ks (table m) = (ex, t)" by force
  obtain failed err1 m1 where td: "teardown mgr (pending m @ ex) (m\<lparr>table := t\<rparr>) = ((failed, err1), m1)"
    by (cases "teardown mgr (pending m @ ex) (m\<lparr>table := t\<rparr>)") force
  have inv: "mapper_inv m" using assms(1) by (simp add: agree_def)
  have m': "m' = m1\<lparr>pending := failed\<rparr>" using assms(3) ex td by (simp add: Clean_def)
  have "agree S (m\<lparr>table := t, pending := pending m @ ex\<rparr>)"
    using assms(1) expire_inv [OF inv assms(2) ex] expired_rules [OF assms(2) ex]
    by (auto simp: agree_def rule_defs image_Un)
  then have "agree S ((m\<lparr>table := t\<rparr>)\<lparr>pending := pending m @ ex\<rparr>)" by simp
  from teardown_agree [OF this td] show ?thesis unfolding m' .
qed

lemma run_agree: "mapper_run mgr T m m' \<Longrightarrow> agree S m \<Longrightarrow> agree S m'"
proof (induction rule: mapper_run.induct)
  case (step m now m')
  from step.hyps(3) step.IH [OF step.prems] show ?case
    by cases (blast intro: Map_agree Clean_agree)+
qed

end

section \<open>Adoption: the constructor takes over the rules it finds\<close>

lemma adopting_adopted:
  assumes "adopting m" and "inRange (pool m) f"
  shows "isAdopted (pool m) f \<longleftrightarrow> f \<in> ran (fake_of (table m))"
proof -
  have "leased (pool m) = ran (fake_of (table m))" and "queue (pool m) = []"
    and "cursor (pool m) = network (pool m)"
    using assms(1) by (simp_all add: adopting_def mapper_inv_def pending_fakes_def)
  with assms(2) show ?thesis by (auto simp: leased_def space_def fresh_def inRange_def)
qed

lemma adopting_inv: "adopting m \<Longrightarrow> mapper_inv m" and adopting_pending: "adopting m \<Longrightarrow> pending m = []"
  by (simp_all add: adopting_def)

text \<open>
  When the rules describe a mapping without clashes inside the range, none is stale: all are
  adopted, and the firewall is left alone.
\<close>

lemma adoptLoop_all:
  assumes "adopting m" and "distinct ex" and "set ex \<subseteq> rules_for g"
    and "fake_of (table m) \<subseteq>\<^sub>m g" and "rules_for (fake_of (table m)) \<inter> set ex = {}"
    and g: "inj_on g (dom g)" "\<forall>f \<in> ran g. inRange (pool m) f"
  shows "fw (adoptLoop mgr now ex m) = fw m \<and>
    rules_for (fake_of (table (adoptLoop mgr now ex m))) = rules_for (fake_of (table m)) \<union> set ex"
  using assms(1-5,7)
proof (induction ex arbitrary: m)
  case (Cons mp ex)
  from Cons.prems(3) obtain r f where mp: "mp = rule r f" and gr: "g r = Some f"
    by (auto elim: rules_forE)
  have none: "fake_of (table m) r = None"
    using Cons.prems(4,5) gr mp by (cases "fake_of (table m) r") (auto simp: map_le_def dom_def)
  have range: "inRange (pool m) f" using Cons.prems(6) gr by (auto intro: ranI)
  have "f \<notin> ran (fake_of (table m))"
  proof
    assume "f \<in> ran (fake_of (table m))"
    then obtain r' where r': "fake_of (table m) r' = Some f" by (auto simp: ran_def)
    then have "g r' = Some f" using Cons.prems(4) by (auto simp: map_le_def dom_def)
    with gr g(1) have "r' = r" by (auto simp: inj_on_def dom_def)
    with r' none show False by simp
  qed
  with range have ns: "\<not> stale m f r"
    using adopting_adopted [OF Cons.prems(1) range] none by (simp add: stale_def thas_def fake_of_None)
  let ?m = "m\<lparr>pool := markAdopted f (pool m), table := tset now r f (table m)\<rparr>"
  have step: "adoptLoop mgr now (mp # ex) m = adoptLoop mgr now ex ?m"
    using ns by (simp add: mp rule_def adoptLoop_v4 del: adoptLoop.simps)
  have ft: "fake_of (table ?m) = (fake_of (table m))(r \<mapsto> f)" by simp
  have "fw (adoptLoop mgr now ex ?m) = fw ?m \<and>
    rules_for (fake_of (table (adoptLoop mgr now ex ?m))) = rules_for (fake_of (table ?m)) \<union> set ex"
  proof (rule Cons.IH)
    show "adopting ?m" using not_stale [OF Cons.prems(1) ns] by (intro adopting_mark Cons.prems(1)) auto
    show "fake_of (table ?m) \<subseteq>\<^sub>m g" using Cons.prems(4) gr by (auto simp: ft map_le_def)
    show "rules_for (fake_of (table ?m)) \<inter> set ex = {}"
      using Cons.prems(2,5) unfolding ft rules_for_upd [where g = "fake_of (table m)", OF none] mp by auto
    show "\<forall>f \<in> ran g. inRange (pool ?m) f" using Cons.prems(6) by (simp add: inRange_def)
  qed (use Cons.prems in auto)
  with step ft none mp show ?case by (simp add: rules_for_upd insert_commute)
qed simp

context firewall_manager
begin

text \<open>Whatever it finds, the constructor ends with every mapping of the table in force.\<close>

lemma adoptLoop_programmed:
  assumes "adopting m" and "idle (fw m)" and "programmed rules m"
    and "distinct ex" and "set ex \<subseteq> rules (fw m)" and "rules_for (fake_of (table m)) \<inter> set ex = {}"
  shows "idle (fw (adoptLoop mgr now ex m)) \<and> programmed rules (adoptLoop mgr now ex m) \<and>
    rules (fw (adoptLoop mgr now ex m)) \<subseteq> rules (fw m)"
  using assms
proof (induction ex arbitrary: m)
  case (Cons mp ex)
  show ?case
  proof (cases "v4_mapping mp")
    case False
    have "idle (fw (adoptLoop mgr now ex m)) \<and> programmed rules (adoptLoop mgr now ex m) \<and>
        rules (fw (adoptLoop mgr now ex m)) \<subseteq> rules (fw m)"
      by (rule Cons.IH) (use Cons.prems in auto)
    with False show ?thesis by (simp add: adoptLoop_other del: adoptLoop.simps)
  next
    case True
    then obtain r f where mp: "mp = rule r f"
      by (cases mp) (auto simp: v4_mapping_def Is4_iff rule_def)
    show ?thesis
    proof (cases "stale m f r")
      case True
      obtain e w where d: "mDelete mgr [mp] (fw m) = (e, w)" by force
      have v: "list_all v4_mapping [mp]" by (simp add: mp)
      have w: "idle w" "rules w \<subseteq> rules (fw m)" "rules (fw m) - {mp} \<subseteq> rules w"
        using delete_frame [OF Cons.prems(2) v d] delete_exact [OF Cons.prems(2) v d] Cons.prems(5)
        by simp_all
      let ?m = "m\<lparr>fw := w\<rparr>"
      have "idle (fw (adoptLoop mgr now ex ?m)) \<and> programmed rules (adoptLoop mgr now ex ?m) \<and>
          rules (fw (adoptLoop mgr now ex ?m)) \<subseteq> rules (fw ?m)"
      proof (rule Cons.IH)
        show "programmed rules ?m" using Cons.prems(3,6) w(3) by (auto simp: programmed_def)
        show "set ex \<subseteq> rules (fw ?m)" using Cons.prems(4,5) w(3) by auto
      qed (use Cons.prems w(1) in auto)
      with True d w(2) show ?thesis
        by (simp add: mp rule_def adoptLoop_v4 del: adoptLoop.simps) blast
    next
      case False
      let ?m = "m\<lparr>pool := markAdopted f (pool m), table := tset now r f (table m)\<rparr>"
      note ns = not_stale [OF Cons.prems(1) False]
      have ft: "rules_for (fake_of (table ?m)) = insert mp (rules_for (fake_of (table m)))"
        using ns by (simp add: rules_for_upd mp)
      have "idle (fw (adoptLoop mgr now ex ?m)) \<and> programmed rules (adoptLoop mgr now ex ?m) \<and>
          rules (fw (adoptLoop mgr now ex ?m)) \<subseteq> rules (fw ?m)"
      proof (rule Cons.IH)
        show "adopting ?m" using ns by (intro adopting_mark Cons.prems(1)) auto
        show "programmed rules ?m" using Cons.prems(3,5) ft by (simp add: programmed_def)
        show "rules_for (fake_of (table ?m)) \<inter> set ex = {}" using Cons.prems(4,6) unfolding ft by auto
      qed (use Cons.prems in auto)
      with False show ?thesis by (simp add: mp rule_def adoptLoop_v4 del: adoptLoop.simps)
    qed
  qed
qed simp

lemma new_agree:
  assumes "idle w" and "NewIPMapper mgr now parsed l w = Inr m"
  shows "agree (rules (fw m) - rules_for (fake_of (table m))) m \<and> rules (fw m) \<subseteq> rules w"
proof -
  from assms(2) obtain net bits ex w' where l: "mList mgr w = (Inr ex, w')"
    and m: "m = adoptLoop mgr now ex
      \<lparr>table = newMappingTable, pool = newIPPool net bits, ttl = l, fw = w', pending = []\<rparr>"
    by (rule NewIPMapper_cases)
  let ?m = "\<lparr>table = newMappingTable, pool = newIPPool net bits, ttl = l, fw = w', pending = []\<rparr>"
  have w': "idle w'" "rules w' = rules w" "set ex = rules w" "distinct ex"
    using list_frame [OF assms(1) l] list_ok [OF assms(1) l] by simp_all
  have "idle (fw m) \<and> programmed rules m \<and> rules (fw m) \<subseteq> rules (fw ?m)"
    unfolding m by (rule adoptLoop_programmed [OF adopting_new])
      (use w' in \<open>auto simp: programmed_def rules_for_def\<close>)
  moreover have "mapper_inv m" by (rule adopting_inv [OF NewIPMapper_adopting [OF assms(2)]])
  ultimately show ?thesis using w'(2) by (auto simp: agree_def no_orphans_def)
qed

text \<open>A restart: a new mapper over the rules of one that ran with the same range.\<close>

lemma restart:
  assumes "idle w" and "rules w = rules_for g" and "inj_on g (dom g)"
    and "\<forall>f \<in> ran g. inRange (newIPPool net bits) f"
    and "NewIPMapper mgr now (Inr (V4 net, bits)) l w = Inr m"
  shows "fake_of (table m) = g \<and> rules (fw m) = rules w"
proof -
  let ?m = "\<lambda>w'. \<lparr>table = newMappingTable, pool = newIPPool net bits, ttl = l, fw = w', pending = []\<rparr>"
  from assms(5) obtain ex w' where lst: "mList mgr w = (Inr ex, w')"
    and m: "m = adoptLoop mgr now ex (?m w')"
    by (rule NewIPMapper_cases) simp
  have w': "rules w' = rules w" "set ex = rules w" "distinct ex"
    using list_frame [OF assms(1) lst] list_ok [OF assms(1) lst] by simp_all
  have a: "fw m = fw (?m w') \<and> rules_for (fake_of (table m)) = rules_for (fake_of (table (?m w'))) \<union> set ex"
    unfolding m by (rule adoptLoop_all [OF adopting_new, where g = g])
      (use w' assms(2-4) in \<open>auto simp: rules_for_def\<close>)
  then have "rules_for (fake_of (table m)) = rules_for g"
    using w'(2) assms(2) by (simp add: rules_for_def)
  then have "fake_of (table m) r = g r" for r
    using mem_rules_for by (metis option.exhaust)
  with a w'(1) show ?thesis by auto
qed

end

section \<open>A mapping lives as long as it was promised\<close>

text \<open>The mapping of \<open>r\<close> is \<open>f\<close> and was used at \<open>t0\<close> or later.\<close>

definition used_since :: "time \<Rightarrow> u32 \<Rightarrow> u32 \<Rightarrow> 'w ipMapper \<Rightarrow> bool" where
  "used_since t0 r f m \<longleftrightarrow> (\<exists>e. table m r = Some e \<and> mfake e = f \<and> t0 \<le> lastSeen e)"

lemma used_since_tget:
  assumes "used_since t0 r f m" and "t0 \<le> now" and "tget now r' (table m) = (g, t)"
  shows "used_since t0 r f (m\<lparr>table := t\<rparr>)"
  using assms by (auto simp: used_since_def tget_def split: option.splits if_splits)

lemma used_since_Map:
  assumes "used_since t0 r f m" and "t0 \<le> now" and "Map mgr now a m = (res, m')"
  shows "used_since t0 r f m' \<and> ttl m' = ttl m"
  using assms(3)
proof (cases rule: Map_cases)
  case (hit realU f' t)
  with used_since_tget [OF assms(1,2) hit(2)] show ?thesis by simp
next
  case (miss realU s)
  then have "realU \<noteq> r" using assms(1) by (auto simp: used_since_def fake_of_def)
  from miss(3,2) show ?thesis
    by (cases rule: mapFlight_cases)
      (use assms(1) \<open>realU \<noteq> r\<close> in \<open>auto simp: used_since_def tset_def\<close>)
qed (use assms in simp)

lemma teardown_frame: "teardown mgr items m = (x, m') \<Longrightarrow> table m' = table m \<and> ttl m' = ttl m"
  by (auto simp: teardown_def split: if_splits prod.splits option.splits)

lemma used_since_Clean:
  assumes "used_since t0 r f m" and "now < t0 + ttl m" and "key_order ks (table m)"
    and "Clean mgr now ks m = (err, m')"
  shows "used_since t0 r f m' \<and> ttl m' = ttl m"
proof -
  obtain ex t where ex: "expired now (ttl m) ks (table m) = (ex, t)" by force
  obtain x m1 where td: "teardown mgr (pending m @ ex) (m\<lparr>table := t\<rparr>) = (x, m1)"
    by (cases "teardown mgr (pending m @ ex) (m\<lparr>table := t\<rparr>)") blast
  have "table m' = t" and l: "ttl m' = ttl m"
    using assms(4) ex td teardown_frame [OF td] by (auto simp: Clean_def split: prod.splits)
  moreover have "t = (\<lambda>r. if due (now - ttl m) (table m) r then None else table m r)"
    using expired_split(2) [OF assms(3), of now "ttl m"] ex by simp
  ultimately show ?thesis using assms(1,2) by (auto simp: used_since_def due_def)
qed

lemma used_since_run:
  assumes "mapper_run mgr (\<lambda>t. t0 \<le> t \<and> t < t0 + ttl m) m m'" and "used_since t0 r f m"
  shows "used_since t0 r f m' \<and> ttl m' = ttl m"
  using assms
proof (induction rule: mapper_run.induct)
  case (step m1 now m2)
  then have u: "used_since t0 r f m1" "ttl m1 = ttl m" by auto
  from step.hyps(3) show ?case
  proof cases
    case (map a res)
    with used_since_Map [OF u(1) _ map] step.hyps(2) u(2) show ?thesis by simp
  next
    case (clean ks err)
    with used_since_Clean [OF u(1) _ clean] step.hyps(2) u(2) show ?thesis by simp
  qed
qed simp

lemma Map_used:
  assumes "Map mgr t0 a m = (Inr b, m')"
  shows "\<exists>r f. a = V4 r \<and> b = V4 f \<and> used_since t0 r f m' \<and> ttl m' = ttl m"
  using assms
proof (cases rule: Map_cases)
  case (hit realU f t)
  then show ?thesis by (auto simp: used_since_def tget_def split: option.splits)
next
  case (miss realU s)
  from miss(3,2) show ?thesis
    by (cases rule: mapFlight_cases) (use miss in \<open>auto simp: used_since_def tset_def\<close>)
qed simp

end
