(* ===== verification/Dns_Handler.thy ===== *)
theory Dns_Handler
  imports Server Mapper_Rules
begin

text \<open>
  The handler of DNS queries, \<open>src/server/dns_handler.go\<close>. It takes the request and gives the one
  message that is written to the client. \<open>n\<close> is the state of the network, \<open>udp\<close> whether the client
  is reached over UDP, and \<open>took\<close> the time since the start of the handler, for the metrics.

  \<open>remapTTL\<close> is \<open>uint32(GetTTL().Seconds() * 0.8)\<close> without rounding: for whole seconds below
  \<open>2 ^ 32\<close> the two agree, because the product of doubles is then the nearest double and every
  whole number below \<open>2 ^ 53\<close> is one.
\<close>

section \<open>Operations\<close>

definition EDNS0UDPSize :: nat where "EDNS0UDPSize = 1232"
definition MinMsgSize :: nat where "MinMsgSize = 512"

definition rcodeLabel :: "u16 \<Rightarrow> bytes" where
  "rcodeLabel rcode =
     (if rcode = RcodeSuccess then LabelNoError
      else if rcode = RcodeFormatError then LabelFormErr
      else if rcode = RcodeServerFailure then LabelServFail
      else if rcode = RcodeNameError then LabelNXDomain
      else if rcode = RcodeNotImplemented then LabelNotImp
      else if rcode = RcodeRefused then LabelRefused
      else LabelOther)"

text \<open>\<open>m.Data[:0]\<close> keeps the buffer, but is empty as the message's packed form.\<close>

definition reuseAndWrite :: "msg \<Rightarrow> msg" where
  "reuseAndWrite m = m\<lparr>Data := []\<rparr>"

definition truncateForUDP :: "(msg \<Rightarrow> nat) \<Rightarrow> (msg \<Rightarrow> msg) \<Rightarrow> bool \<Rightarrow> msg \<Rightarrow> msg \<Rightarrow> msg" where
  "truncateForUDP len trunc udp req resp =
     (if \<not> udp then resp
      else
        (let limit = min (max (unat (UDPSize req)) MinMsgSize) EDNS0UDPSize
         in if len resp > limit then (trunc resp)\<lparr>Data := []\<rparr> else resp))"

text \<open>The function that is handed to the cache: the resolver with a deadline, and the filter.\<close>

definition resolveLambda ::
  "('n, 'q, 'h) netPkg \<Rightarrow> duration \<Rightarrow> msg \<Rightarrow> (Resolver \<times> 'n \<times> Metrics option) lambda"
where
  "resolveLambda net timeout r st =
     (case Resolve net (WithTimeout net timeout Background (fst (snd st))) r (fst st) (snd st) of
        (Inl err, rs, nm) \<Rightarrow> ((None, defaultTTL, Some err), (rs, nm))
      | (Inr resp, rs, nm) \<Rightarrow>
          ((Some (resp\<lparr>Answer := filterAnswer (Answer resp), Extra := filterAnswer (Extra resp), Data := []\<rparr>),
            defaultTTL, None), (rs, nm)))"

definition remapTTL :: "duration \<Rightarrow> u32" where
  "remapTTL d = word_of_int (4 * d div (5 * seconds))"

definition mapTransform :: "'w manager \<Rightarrow> time \<Rightarrow> u32 \<Rightarrow> 'w ipMapper Transformer" where
  "mapTransform mgr now t h a m =
     (case Map mgr now a m of
        (Inl mapErr, m) \<Rightarrow> (Inl mapErr, m)
      | (Inr fake, m) \<Rightarrow> (Inr (Some (h\<lparr>hTTL := t\<rparr>, fake)), m))"

text \<open>The choice of the transformer; none for an action that passes.\<close>

definition transformerFor :: "'w manager \<Rightarrow> time \<Rightarrow> action \<Rightarrow> 'w ipMapper \<Rightarrow> 'w ipMapper Transformer option"
where
  "transformerFor mgr now act m =
     (if act = ActionBlackhole then Some blackholeTransform
      else if act = ActionRemap then Some (mapTransform mgr now (remapTTL (GetTTL m)))
      else None)"

definition remapReply :: "'s Transformer \<Rightarrow> msg \<Rightarrow> 's \<Rightarrow> msg \<times> 's" where
  "remapReply tr resp s =
     (case remapAnswer tr (Answer resp) s of
        ((ans, aAtt, aFail), s) \<Rightarrow>
     (case remapAnswer tr (Extra resp) s of
        ((ext, eAtt, eFail), s) \<Rightarrow>
          (let resp = resp\<lparr>Answer := ans, Extra := ext\<rparr>;
               att = aAtt + eAtt
           in if att > 0 \<and> aFail + eFail = att
              then (resp\<lparr>Rcode := RcodeServerFailure, Answer := [], Ns := [], Extra := [], Data := []\<rparr>, s)
              else (resp, s))))"

definition observeRequest ::
  "bytes \<Rightarrow> bytes \<Rightarrow> bytes \<Rightarrow> duration \<Rightarrow> ('c, 'w, 're, 'f) Server \<Rightarrow> ('c, 'w, 're, 'f) Server"
where
  "observeRequest rcode action srvd took srv =
     srv\<lparr>sMetrics := map_option (ObserveRequest rcode action srvd took) (sMetrics srv)\<rparr>"

text \<open>The part of the handler after the lookup in the cache.\<close>

definition answerReply ::
  "('c, 'n, 'q, 'h, 'w, 'b, 'f, 're) env \<Rightarrow> time \<Rightarrow> bool \<Rightarrow> msg \<Rightarrow> action \<Rightarrow> msg option \<Rightarrow> 'w ipMapper \<Rightarrow>
   msg \<times> bytes \<times> 'w ipMapper"
where
  "answerReply E now udp r act resp mp =
     (case resp of
        None \<Rightarrow> (reuseAndWrite (r\<lparr>Response := True, Rcode := RcodeServerFailure\<rparr>), LabelServFail, mp)
      | Some resp \<Rightarrow>
          if Rcode resp \<noteq> RcodeSuccess then (resp\<lparr>Response := True, Data := []\<rparr>, rcodeLabel (Rcode resp), mp)
          else
            (case (case transformerFor (eManager E) now act mp of
                     None \<Rightarrow> (resp, mp)
                   | Some tr \<Rightarrow> remapReply tr resp mp) of
               (resp, mp) \<Rightarrow>
                 (truncateForUDP (eLen E) (eTruncate E) udp r resp, rcodeLabel (Rcode resp), mp)))"

definition DNSHandler ::
  "('c, 'n, 'q, 'h, 'w, 'b, 'f, 're) env \<Rightarrow> time \<Rightarrow> duration \<Rightarrow> bool \<Rightarrow> msg \<Rightarrow> ('c, 'w, 're, 'f) Server \<Rightarrow> 'n \<Rightarrow>
   msg \<times> ('c, 'w, 're, 'f) Server \<times> 'n"
where
  "DNSHandler E now took udp r srv n =
     (if length (Question r) \<noteq> 1 then
        (reuseAndWrite (r\<lparr>Response := True, Rcode := RcodeFormatError\<rparr>),
         observeRequest LabelFormErr ActionNone ServedError took srv, n)
      else
        (let q = hd (Question r);
             qtype = rrType q;
             domain = NormalizeDomain (eNames E) (hName (header q));
             act = Lookup (eVellum E) (sRouter srv) domain;
             action = actionString act
         in if act = ActionNXDomain then
              (reuseAndWrite (r\<lparr>Response := True, Rcode := RcodeNameError, Answer := [], Extra := [],
                 Ns := negativeAuthority (hName (header q))\<rparr>),
               observeRequest LabelNXDomain action ServedSuppressed took srv, n)
            else if qtype = TypeAAAA \<or> isDDRName domain then
              (reuseAndWrite (r\<lparr>Response := True, Rcode := RcodeSuccess, Answer := [], Extra := [],
                 Ns := negativeAuthority (hName (header q))\<rparr>),
               observeRequest LabelNoError action ServedSuppressed took srv, n)
            else
              (case GetResponseLambda (eTTL E) now r domain
                      (resolveLambda (eNet E) (sTimeout srv) r) (sCache srv) (sResolver srv, n, sMetrics srv) of
                 ((resp, hit), c, rs, n, mt) \<Rightarrow>
               (case answerReply E now udp r act resp (sMapper srv) of
                 (reply, rcode, mp) \<Rightarrow>
                   (reply,
                    observeRequest rcode action (if hit then ServedCache else ServedUpstream) took
                      (srv\<lparr>sCache := c, sResolver := rs, sMapper := mp, sMetrics := mt\<rparr>), n)))))"

section \<open>Remapping a reply\<close>

context transformer
begin

lemma remapReply_sent:
  assumes "remapReply tr resp s = (resp', s')" and "inv s"
    and "list_all filtered (Answer resp @ Extra resp)"
  shows "later s s' \<and> list_all (sent (Answer resp @ Extra resp) s') (Answer resp' @ Extra resp')"
proof -
  obtain ans n f s1 where a: "remapAnswer tr (Answer resp) s = ((ans, n, f), s1)" by (metis prod.collapse)
  obtain ext n' f' s2 where e: "remapAnswer tr (Extra resp) s1 = ((ext, n', f'), s2)" by (metis prod.collapse)
  have 1: "later s s1" "list_all (sent (Answer resp) s1) ans"
    using remapAnswer_sent [OF a assms(2)] assms(3) by simp_all
  then have "inv s1" by (simp add: later_def)
  with remapAnswer_sent [OF e] assms(3)
  have 2: "later s1 s2" "list_all (sent (Extra resp) s2) ext" by simp_all
  have "later s2 s2" using 2(1) by (simp add: later_def)
  with 1 2 have "list_all (sent (Answer resp @ Extra resp) s2) (ans @ ext)"
    using sent_all_mono [OF 1(2) 2(1), of "Answer resp @ Extra resp"]
      sent_all_mono [OF 2(2), of s2 "Answer resp @ Extra resp"] by simp
  with assms(1) a e later_trans [OF 1(1) 2(1)] show ?thesis
    by (auto simp: remapReply_def Let_def split: if_splits)
qed

end

lemma remapReply_fields:
  "remapReply tr resp s = (resp', s') \<Longrightarrow> Data resp = [] \<Longrightarrow> Data resp' = [] \<and>
     (Rcode resp' = Rcode resp \<or> Rcode resp' = RcodeServerFailure \<and> Answer resp' = [] \<and> Ns resp' = [] \<and> Extra resp' = [])"
  by (auto simp: remapReply_def Let_def split: prod.splits if_splits)

text \<open>
  A fake that was given for a real address: its mapping was used at \<open>now\<close> or later, and its record
  has the duration \<open>t\<close>.
\<close>

definition fake_given :: "time \<Rightarrow> u32 \<Rightarrow> hdr \<Rightarrow> addr \<Rightarrow> hdr \<Rightarrow> addr \<Rightarrow> 'w ipMapper \<Rightarrow> bool" where
  "fake_given now t h a h' a' m \<longleftrightarrow>
     (\<exists>r f. a = V4 r \<and> a' = V4 f \<and> h' = h\<lparr>hTTL := t\<rparr> \<and> used_since now r f m)"

lemma mapTransform_given:
  "mapTransform mgr now t h a m = (Inr (Some (h', a')), m') \<Longrightarrow> fake_given now t h a h' a' m'"
  by (auto simp: mapTransform_def fake_given_def split: prod.splits sum.splits dest!: Map_used)

lemma mapTransform_Map:
  "mapTransform mgr now t h a m = (r, m') \<Longrightarrow> \<exists>res. Map mgr now a m = (res, m')"
  by (auto simp: mapTransform_def split: prod.splits sum.splits)

lemma fake_given_Map:
  "fake_given now t h a h' a' m \<Longrightarrow> Map mgr now b m = (res, m') \<Longrightarrow> fake_given now t h a h' a' m'"
  unfolding fake_given_def using used_since_Map by blast

text \<open>The calls of \<open>Map\<close> that a handler makes are made at one instant.\<close>

abbreviation mapped_at :: "'w manager \<Rightarrow> time \<Rightarrow> 'w ipMapper \<Rightarrow> 'w ipMapper \<Rightarrow> bool" where
  "mapped_at mgr now \<equiv> mapper_run mgr (\<lambda>t. t = now)"

lemma mapped_at_Map: "mapped_at mgr now m0 m \<Longrightarrow> Map mgr now a m = (res, m') \<Longrightarrow> mapped_at mgr now m0 m'"
  by (rule mapper_run.step [of mgr _ m0 m now], assumption, rule refl, rule mapper_step.map)

lemma run_ttl: "mapper_run mgr T m0 m \<Longrightarrow> ttl m = ttl m0"
proof (induction rule: mapper_run.induct)
  case (step m now m')
  from step.hyps(3) have "ttl m' = ttl m"
  proof cases
    case (map a r)
    then show ?thesis by (rule Map_cases) (auto simp: mapFlight_def split: prod.splits option.splits)
  next
    case (clean ks err)
    then show ?thesis by (auto simp: Clean_def split: prod.splits dest!: teardown_frame)
  qed
  with step.IH show ?case by simp
qed simp

sublocale firewall_manager \<subseteq> remap: transformer "mapTransform mgr now t"
    "\<lambda>m. agree S m \<and> mapped_at mgr now m0 m" "fake_given now t" for now t S m0
proof unfold_locales
  fix m h a r m'
  assume m: "agree S m \<and> mapped_at mgr now m0 m" and t: "mapTransform mgr now t h a m = (r, m')"
  obtain res where map: "Map mgr now a m = (res, m')" using mapTransform_Map [OF t] by blast
  show "agree S m' \<and> mapped_at mgr now m0 m'" using m Map_agree [OF _ map] mapped_at_Map [OF _ map] by simp
  fix h1 a1 h2 a2 assume "fake_given now t h1 a1 h2 a2 m"
  then show "fake_given now t h1 a1 h2 a2 m'" by (rule fake_given_Map [OF _ map])
qed (rule mapTransform_given)

section \<open>What leaves the server\<close>

text \<open>No record of the answer or the additional section leads past the remapping of addresses.\<close>

definition clean :: "msg \<Rightarrow> bool" where
  "clean m \<longleftrightarrow> list_all filtered (Answer m @ Extra m)"

text \<open>The package's \<open>Truncate\<close> drops records and adds none.\<close>

definition only_drops :: "(msg \<Rightarrow> msg) \<Rightarrow> bool" where
  "only_drops trunc \<longleftrightarrow> (\<forall>m. Rcode (trunc m) = Rcode m \<and>
     set (Answer (trunc m)) \<subseteq> set (Answer m) \<and> set (Extra (trunc m)) \<subseteq> set (Extra m))"

text \<open>
  A reply that stems from the message \<open>m0\<close>: it is clean, and each of its A records is one of \<open>m0\<close>,
  with the address that the action asks for.
\<close>

definition safe_reply :: "time \<Rightarrow> action \<Rightarrow> msg \<Rightarrow> 'w ipMapper \<Rightarrow> msg \<Rightarrow> bool" where
  "safe_reply now act m0 mp reply \<longleftrightarrow> clean reply \<and>
     (\<forall>h b. A h b \<in> set (Answer reply @ Extra reply) \<longrightarrow>
       (\<exists>h0 a. A h0 a \<in> set (Answer m0 @ Extra m0) \<and>
          (if act = ActionBlackhole then h = h0 \<and> b = blackholeAddr
           else if act = ActionRemap then fake_given now (remapTTL (ttl mp)) h0 a h b mp
           else h = h0 \<and> b = a)))"

lemma stable_clean: "stable clean"
  by (auto simp: stable_def clean_def list_all_iff)

lemma resolveLambda_clean:
  "resolveLambda net tm r st = ((Some m, d, None), st') \<Longrightarrow> clean m \<and> Data m = []"
  using filterAnswer_filtered by (auto simp: resolveLambda_def clean_def split: prod.splits sum.splits)

lemma replies_clean: "replies (resolveLambda net tm r) clean st"
  by (auto simp: replies_def dest: resolveLambda_clean)

lemma joinFlight_clean: "Some m = joinFlight r x \<Longrightarrow> \<exists>m0. x = Some m0 \<and> (clean m0 \<longrightarrow> clean m) \<and> Data m = []"
  by (cases x) (auto simp: joinFlight_def clean_def)

lemma safe_reply_drops:
  assumes "safe_reply now act m0 mp m" and "set (Answer m') \<subseteq> set (Answer m)" and "set (Extra m') \<subseteq> set (Extra m)"
  shows "safe_reply now act m0 mp m'"
  using assms unfolding safe_reply_def clean_def list_all_iff set_append by blast

lemma truncateForUDP_drops:
  assumes "only_drops trunc" and "Data m = []"
  shows "Data (truncateForUDP len trunc udp r m) = [] \<and> Rcode (truncateForUDP len trunc udp r m) = Rcode m \<and>
    set (Answer (truncateForUDP len trunc udp r m)) \<subseteq> set (Answer m) \<and>
    set (Extra (truncateForUDP len trunc udp r m)) \<subseteq> set (Extra m)"
  using assms by (auto simp: truncateForUDP_def only_drops_def Let_def)

lemma remapLoop_blackhole: "remapLoop blackholeTransform rrs n f s = (x, s') \<Longrightarrow> s' = s"
proof (induction rrs arbitrary: n f x)
  case (Cons y rrs)
  then show ?case by (cases y) (auto simp: blackholeTransform_def split: prod.splits)
qed simp

text \<open>The reply before it is cut off for UDP.\<close>

context firewall_manager
begin

lemma remapped_safe:
  assumes "agree S mp" and "clean m" and "Data m = []" and "Rcode m = RcodeSuccess"
    and "(case transformerFor mgr now act mp of None \<Rightarrow> (m, mp) | Some tr \<Rightarrow> remapReply tr m mp) = (m', mp')"
  shows "agree S mp' \<and> mapped_at mgr now mp mp' \<and> Data m' = [] \<and> safe_reply now act m mp' m'"
proof -
  have f: "list_all filtered (Answer m @ Extra m)" using assms(2) by (simp only: clean_def)
  consider (bh) "act = ActionBlackhole" | (rm) "act = ActionRemap" | (pass) "act \<noteq> ActionBlackhole" "act \<noteq> ActionRemap"
    by blast
  then show ?thesis
  proof cases
    case bh
    then have r: "remapReply blackholeTransform m mp = (m', mp')" using assms(5) by (simp add: transformerFor_def)
    have "mp' = mp"
      using r unfolding remapReply_def remapAnswer_def
      by (auto simp: Let_def split: prod.splits if_splits dest!: remapLoop_blackhole)
    moreover from blackhole.remapReply_sent [OF r _ f]
    have "list_all (blackhole.sent (Answer m @ Extra m) mp') (Answer m' @ Extra m')" by simp
    then have "safe_reply now act m mp' m'"
      unfolding safe_reply_def clean_def blackhole.sent_def list_all_iff using bh by fastforce
    ultimately show ?thesis using assms(1) remapReply_fields [OF r assms(3)] by (simp add: mapper_run.start)
  next
    case rm
    then have r: "remapReply (mapTransform mgr now (remapTTL (ttl mp))) m mp = (m', mp')"
      using assms(5) by (simp add: transformerFor_def GetTTL_def action_defs)
    have "agree S mp \<and> mapped_at mgr now mp mp" using assms(1) by (simp add: mapper_run.start)
    note sent = remap.remapReply_sent [OF r this f]
    then have mp: "agree S mp'" "mapped_at mgr now mp mp'" by (simp_all add: remap.later_def)
    have "safe_reply now act m mp' m'"
      using sent rm unfolding safe_reply_def clean_def remap.sent_def list_all_iff run_ttl [OF mp(2)]
      by (fastforce simp: action_defs)
    with mp show ?thesis using remapReply_fields [OF r assms(3)] by simp
  next
    case pass
    then show ?thesis using assms by (auto simp: transformerFor_def safe_reply_def mapper_run.start)
  qed
qed

lemma answerReply_safe:
  assumes "answerReply E now udp r act resp mp = (reply, lab, mp')" and "eManager E = mgr" and "agree S mp"
    and "only_drops (eTruncate E)" and "\<And>m. resp = Some m \<Longrightarrow> clean m \<and> Data m = []"
  shows "agree S mp' \<and> mapped_at mgr now mp mp' \<and> Data reply = [] \<and> lab = rcodeLabel (Rcode reply) \<and>
    (Rcode reply = RcodeSuccess \<longrightarrow> (\<exists>m. resp = Some m \<and> safe_reply now act m mp' reply))"
proof (cases resp)
  case None
  with assms(1,3) show ?thesis
    by (auto simp: answerReply_def reuseAndWrite_def rcodeLabel_def rcode_defs mapper_run.start)
next
  case (Some m)
  note m = assms(5) [OF Some]
  show ?thesis
  proof (cases "Rcode m = RcodeSuccess")
    case False
    with assms(1,3) Some show ?thesis by (auto simp: answerReply_def mapper_run.start)
  next
    case True
    obtain m' mp1 where x: "(case transformerFor mgr now act mp of None \<Rightarrow> (m, mp) | Some tr \<Rightarrow> remapReply tr m mp) = (m', mp1)"
      by (rule prod.exhaust)
    with assms(1,2) Some True have reply: "reply = truncateForUDP (eLen E) (eTruncate E) udp r m'"
      and "lab = rcodeLabel (Rcode m')" "mp' = mp1" by (auto simp: answerReply_def)
    moreover note safe = remapped_safe [OF assms(3) _ _ True x]
    moreover from safe m have "Data m' = []" by simp
    note drops = truncateForUDP_drops [OF assms(4) this, of "eLen E" udp r]
    ultimately show ?thesis using Some m drops safe_reply_drops [of now act m mp1 m' reply] by auto
  qed
qed

end

section \<open>The handler\<close>

text \<open>The domain and the action of a query, and the message that the cache or the upstreams give for it.\<close>

definition domain_of :: "('c, 'n, 'q, 'h, 'w, 'b, 'f, 're) env \<Rightarrow> msg \<Rightarrow> bytes" where
  "domain_of E r = NormalizeDomain (eNames E) (hName (header (hd (Question r))))"

definition action_of :: "('c, 'n, 'q, 'h, 'w, 'b, 'f, 're) env \<Rightarrow> msg \<Rightarrow> ('c, 'w, 're, 'f) Server \<Rightarrow> action" where
  "action_of E r srv = Lookup (eVellum E) (sRouter srv) (domain_of E r)"

definition got ::
  "('c, 'n, 'q, 'h, 'w, 'b, 'f, 're) env \<Rightarrow> time \<Rightarrow> msg \<Rightarrow> ('c, 'w, 're, 'f) Server \<Rightarrow> 'n \<Rightarrow>
   (msg option \<times> bool) \<times> 'c Cache \<times> Resolver \<times> 'n \<times> Metrics option"
where
  "got E now r srv n =
     GetResponseLambda (eTTL E) now r (domain_of E r)
       (resolveLambda (eNet E) (sTimeout srv) r) (sCache srv) (sResolver srv, n, sMetrics srv)"

text \<open>A query that is answered without asking the cache.\<close>

definition suppressed :: "('c, 'n, 'q, 'h, 'w, 'b, 'f, 're) env \<Rightarrow> msg \<Rightarrow> ('c, 'w, 're, 'f) Server \<Rightarrow> bool" where
  "suppressed E r srv \<longleftrightarrow> action_of E r srv = ActionNXDomain \<or>
     rrType (hd (Question r)) = TypeAAAA \<or> isDDRName (domain_of E r)"

lemmas query_defs = domain_of_def action_of_def suppressed_def got_def

lemma handler_cases:
  assumes "DNSHandler E now took udp r srv n = (reply, srv', n')"
  obtains (malformed) "length (Question r) \<noteq> 1"
      and "reply = r\<lparr>Response := True, Rcode := RcodeFormatError, Data := []\<rparr>" and "n' = n"
      and "srv' = observeRequest LabelFormErr ActionNone ServedError took srv"
  | (negative) rc where "length (Question r) = 1" and "suppressed E r srv"
      and "rc = (if action_of E r srv = ActionNXDomain then RcodeNameError else RcodeSuccess)"
      and "reply = r\<lparr>Response := True, Rcode := rc, Answer := [], Extra := [],
          Ns := negativeAuthority (hName (header (hd (Question r)))), Data := []\<rparr>" and "n' = n"
      and "srv' = observeRequest (rcodeLabel rc) (actionString (action_of E r srv)) ServedSuppressed took srv"
  | (asked) resp hit c rs mt rcode mp where "length (Question r) = 1" and "\<not> suppressed E r srv"
      and "got E now r srv n = ((resp, hit), c, rs, n', mt)"
      and "answerReply E now udp r (action_of E r srv) resp (sMapper srv) = (reply, rcode, mp)"
      and "srv' = observeRequest rcode (actionString (action_of E r srv))
          (if hit then ServedCache else ServedUpstream) took (srv\<lparr>sCache := c, sResolver := rs, sMapper := mp, sMetrics := mt\<rparr>)"
proof (cases "length (Question r) = 1")
  case False
  with assms malformed show ?thesis by (auto simp: DNSHandler_def reuseAndWrite_def)
next
  case one: True
  show ?thesis
  proof (cases "suppressed E r srv")
    case True
    with assms one negative [OF one True refl] show ?thesis
      by (auto simp: DNSHandler_def reuseAndWrite_def query_defs rcodeLabel_def rcode_defs Let_def split: if_splits)
  next
    case False
    obtain resp hit c rs n1 mt where g: "got E now r srv n = ((resp, hit), c, rs, n1, mt)" by (metis prod.collapse)
    obtain reply1 rcode mp where a: "answerReply E now udp r (action_of E r srv) resp (sMapper srv) = (reply1, rcode, mp)"
      by (metis prod.collapse)
    from assms one False g a asked [OF one False]
    show ?thesis by (auto simp: DNSHandler_def query_defs Let_def)
  qed
qed

context firewall_manager
begin

lemma handler_facts:
  assumes "DNSHandler E now took udp r srv n = (reply, srv', n')" and "ttl_cache (eTTL E) items"
    and "eManager E = mgr" and "only_drops (eTruncate E)"
    and "agree S (sMapper srv)" and "cache_inv items clean now (sCache srv)"
  shows "agree S (sMapper srv') \<and> mapped_at mgr now (sMapper srv) (sMapper srv') \<and>
    cache_inv items clean now (sCache srv') \<and> Data reply = [] \<and>
    (length (Question r) = 1 \<and> Rcode reply = RcodeSuccess \<longrightarrow>
       Answer reply @ Extra reply = [] \<or>
       (\<exists>m hit st. got E now r srv n = ((Some m, hit), st) \<and>
          safe_reply now (action_of E r srv) m (sMapper srv') reply))"
  using assms(1)
proof (cases rule: handler_cases)
  case (asked resp hit c rs mt rcode mp)
  note got = ttl_cache.GetResponse_cases [OF assms(2,6) stable_clean replies_clean asked(3) [unfolded got_def]]
  have "clean m \<and> Data m = []" if m: "resp = Some m" for m
  proof (cases hit)
    case True
    with got m show ?thesis
      by (auto simp: served_def cacheable_def stable_clean [unfolded stable_def])
  next
    case False
    with got m show ?thesis
      by (auto split: if_splits dest!: joinFlight_clean dest: resolveLambda_clean)
  qed
  from answerReply_safe [OF asked(4) assms(3,5,4) this] got asked show ?thesis
    by (auto simp: observeRequest_def)
qed (use assms in \<open>auto simp: observeRequest_def rcode_defs mapper_run.start\<close>)

end

end
