(* ===== verification/Mapper_Properties.thy ===== *)
theory Mapper_Properties
  imports Mapper_Rules
begin

text \<open>
  The properties of the mapper with its pool, its table and a firewall: what holds after any
  sequence of calls of \<open>Map\<close> and \<open>Clean\<close> on a mapper that \<open>NewIPMapper\<close> built.
\<close>

section \<open>A mapper in a concrete run\<close>

text \<open>
  The mapper of the range \<open>10.30.0.0/24\<close> over an empty kernel set, a call of \<open>Map\<close> for the
  address \<open>1.1.1.1\<close> at the instant 5, and a cleaning round at the instant 200. The lifetime of a
  mapping is 100.
\<close>

definition demo_mgr :: "memState manager" where
  "demo_mgr = nftManager memConn"

definition demo0 :: "memState ipMapper" where
  "demo0 = \<lparr>table = newMappingTable, pool = newIPPool 0x0A1E0000 24, ttl = 100, fw = memEmpty,
     pending = []\<rparr>"

definition demo1 :: "memState ipMapper" where
  "demo1 = \<lparr>table = [0x01010101 \<mapsto> \<lparr>mfake = 0x0A1E0000, lastSeen = 5\<rparr>],
     pool = (newIPPool 0x0A1E0000 24)\<lparr>cursor := 0x0A1E0001\<rparr>, ttl = 100,
     fw = \<lparr>keys = [bytes4 0x0A1E0000], cells = [bytes4 0x0A1E0000 \<mapsto> bytes4 0x01010101],
           batch = [], faults = []\<rparr>,
     pending = []\<rparr>"

lemma mem_kset_memEmpty: "mem_kset memEmpty = Map.empty"
  by (simp add: fun_eq_iff mem_kset_def memEmpty_def)

lemma no_rules_memEmpty: "rules_of (mem_kset memEmpty) = {}"
  by (simp add: mem_kset_memEmpty rules_of_def)

lemma demo_new: "NewIPMapper demo_mgr 0 (Inr (V4 0x0A1E0000, 24)) 100 memEmpty = Inr demo0"
  by (simp add: NewIPMapper_def adopt_def demo_mgr_def nftManager_def nftList_def memConn_def
      memEmpty_def demo0_def Let_def)

lemma demo_map: "Map demo_mgr 5 (V4 0x01010101) demo0 = (Inr (V4 0x0A1E0000), demo1)"
  by (simp add: Map_def mapFlight_def tget_def demo0_def newMappingTable_def allocate_def
      newIPPool_def masked4_def mask_eq_exp_minus_1 cursorLoop.simps Let_def demo_mgr_def
      nftManager_def nftAdd_def memConn_def mem_flush_def mem_kset_memEmpty demo1_def)
    (simp add: memEmpty_def tset_def batch_keys_def)

lemma demo_run: "mapper_run demo_mgr (\<lambda>_. True) demo0 demo1"
  using mapper_run.step [OF mapper_run.start _ mapper_step.map [OF demo_map]] by simp

interpretation demo: firewall_manager demo_mgr "\<lambda>s. rules_of (mem_kset s)" "\<lambda>s. batch s = []"
  unfolding demo_mgr_def by (rule memConn.firewall_manager_axioms)

lemma demo1_rules: "rules_of (mem_kset (fw demo1)) = {rule 0x01010101 0x0A1E0000}"
  by (auto simp: rules_of_def mem_kset_def demo1_def rule_def split: if_splits)

section \<open>The table, the pool and the pending pairs\<close>

text \<open>
  C3. Whatever the firewall answers, after the constructor and any calls of \<open>Map\<close> and \<open>Clean\<close>
  no fake address has two owners: two real addresses of the table never share one, and none is
  shared with or among the pairs that wait for the deletion of their rule. All of them lie in
  the configured prefix, they are exactly the addresses that the pool has leased (none is lost),
  and there are at most as many as the prefix has addresses.
\<close>

theorem mapper_fakes_unique:
  assumes "bits \<le> 32" and "NewIPMapper mgr now (Inr (V4 net, bits)) l w = Inr m0"
    and "mapper_run mgr T m0 m"
  shows "inj_on (fake_of (table m)) (dom (table m)) \<and> distinct (map pfake (pending m)) \<and>
    ran (fake_of (table m)) \<inter> set (map pfake (pending m)) = {} \<and>
    ran (fake_of (table m)) \<union> set (map pfake (pending m)) = leased (pool m) \<and>
    leased (pool m) \<subseteq> prefix_range net bits \<and>
    fst (Stats m) + length (pending m) \<le> 2 ^ (32 - bits) - 1"
proof -
  have m0: "mapper_inv m0" using NewIPMapper_adopting [OF assms(2)] by (simp add: adopting_def)
  have "space (pool m0) = space (newIPPool net bits)"
    using assms(2) by (rule NewIPMapper_cases) (simp add: adoptLoop_adopting adopting_new)
  with mapper_run_inv [OF assms(3) m0]
  have inv: "mapper_inv m" and sp: "space (pool m) = space (newIPPool net bits)" by simp_all
  let ?f = "map pfake (pending m)"
  have c: "ran (fake_of (table m)) \<union> set ?f = leased (pool m)"
    "ran (fake_of (table m)) \<inter> set ?f = {}" "distinct ?f"
    "inj_on (fake_of (table m)) (dom (table m))" "finite (dom (table m))"
    using inv by (simp_all add: mapper_inv_def pending_fakes_def)
  have "Some ` ran (fake_of (table m)) = fake_of (table m) ` dom (table m)"
    unfolding dom_fake_of [symmetric] by (force simp: ran_def dom_def image_iff)
  then have "card (Some ` ran (fake_of (table m))) = card (dom (table m))"
    using card_image [OF c(4)] by simp
  then have t: "card (ran (fake_of (table m))) = card (dom (table m))" by (simp add: card_image)
  have "finite (ran (fake_of (table m)))" using c(5) by (intro finite_ran) simp
  then have "card (leased (pool m)) = card (dom (table m)) + length (pending m)"
    unfolding c(1) [symmetric] using c(2,3) t distinct_card [OF c(3)]
    by (subst card_Un_disjoint) simp_all
  moreover have "leased (pool m) \<subseteq> space (newIPPool net bits)"
    using leased_subset_space [of "pool m"] sp by simp
  ultimately show ?thesis
    using c newIPPool_space [OF assms(1)] card_newIPPool [OF assms(1), of net]
      card_mono [of "space (newIPPool net bits)" "leased (pool m)"]
    by (simp add: Stats_def tLen_def)
qed

lemma mapper_fakes_unique_witness:
  "fst (Stats demo1) = 1 \<and> ran (fake_of (table demo1)) \<subseteq> prefix_range 0x0A1E0000 24 \<and>
     leased (pool demo1) = {0x0A1E0000}"
proof -
  have f: "fake_of (table demo1) = [0x01010101 \<mapsto> 0x0A1E0000]" "pending demo1 = []"
    by (simp_all add: demo1_def fake_of_def fun_eq_iff)
  moreover have "fst (Stats demo1) = 1" by (simp add: Stats_def tLen_def demo1_def)
  ultimately show ?thesis
    using mapper_fakes_unique [OF _ demo_new demo_run] by auto
qed

section \<open>The mapper and the kernel\<close>





text \<open>
  C12. What a cleaning round does. The mappings that were not used for the lifetime leave the
  table, the others stay. If the firewall deletes their rules, together with those that waited
  from earlier rounds, none of these rules is in force any more, nothing waits, and every fake
  address outside the table is free again. If the deletion fails, all of them wait for the next
  round and no address is given back, so a fake address is never reused while its old rule may
  still be in force.
\<close>

theorem Clean_effect:
  assumes "firewall_manager mgr rules idle" and "idle (fw m)" and "mapper_inv m"
    and "key_order ks (table m)" and "Clean mgr now ks m = (err, m')"
  shows "fake_of (table m') =
      (\<lambda>r. if due (now - ttl m) (table m) r then None else fake_of (table m) r) \<and>
    (case err of
       None \<Rightarrow> pending m' = [] \<and> leased (pool m') = ran (fake_of (table m')) \<and>
         rules (fw m') \<inter> (pending_rules m \<union> due_rules now m) = {}
     | Some e \<Rightarrow> pool m' = pool m \<and> pending_rules m' = pending_rules m \<union> due_rules now m)"
proof -
  obtain ex t where ex: "expired now (ttl m) ks (table m) = (ex, t)" by force
  let ?items = "pending m @ ex"
  obtain failed err1 m1 where td: "teardown mgr ?items (m\<lparr>table := t\<rparr>) = ((failed, err1), m1)"
    by (cases "teardown mgr ?items (m\<lparr>table := t\<rparr>)") force
  have m': "m' = m1\<lparr>pending := failed\<rparr>" and err: "err = err1"
    using assms(5) ex td by (simp_all add: Clean_def)
  have t: "table m' = t" using teardown_frame [OF td] by (simp add: m')
  have fake: "fake_of t = (\<lambda>r. if due (now - ttl m) (table m) r then None else fake_of (table m) r)"
    using expired_fakes(1) [OF assms(4) ex] by (simp add: fun_eq_iff)
  have items: "rule_of_pair ` set ?items = pending_rules m \<union> due_rules now m"
    using expired_due_rules [OF assms(4) ex] by (simp add: image_Un pending_rules_def)
  have leased: "leased (pool m') = ran (fake_of (table m'))" if "pending m' = []"
    using Clean_inv [OF assms(3-5)] that by (simp add: mapper_inv_def pending_fakes_def)
  from td have "case err of
       None \<Rightarrow> pending m' = [] \<and> rules (fw m') \<inter> (pending_rules m \<union> due_rules now m) = {}
     | Some e \<Rightarrow> pool m' = pool m \<and> pending_rules m' = pending_rules m \<union> due_rules now m"
  proof (cases rule: teardown_cases)
    case none
    with items show ?thesis by (simp add: m' err)
  next
    case (kept e w)
    with items show ?thesis by (simp add: m' err pending_rules_def)
  next
    case (gone w)
    have "rules w \<inter> set (map rule_of_pair ?items) = {}"
      using firewall_manager.delete_ok [OF assms(1) _ rules_of_pairs_v4 gone(2)] assms(2) by simp
    then have "rules w \<inter> (pending_rules m \<union> due_rules now m) = {}"
      unfolding items [symmetric] by (simp add: image_Un)
    with gone show ?thesis by (simp add: m' err)
  qed
  with fake t leased show ?thesis by (simp split: option.splits)
qed

lemma Clean_effect_witness:
  "fst (Clean demo_mgr 200 [0x01010101] demo1) = None \<and>
   fake_of (table (snd (Clean demo_mgr 200 [0x01010101] demo1))) = Map.empty \<and>
   rule 0x01010101 0x0A1E0000 \<notin>
     rules_of (mem_kset (fw (snd (Clean demo_mgr 200 [0x01010101] demo1))))"
proof -
  obtain err m' where c: "Clean demo_mgr 200 [0x01010101] demo1 = (err, m')" by force
  have inv: "mapper_inv demo1"
    using mapper_run_inv [OF demo_run] NewIPMapper_adopting [OF demo_new] by (simp add: adopting_def)
  have ks: "key_order [0x01010101] (table demo1)" by (simp add: key_order_def demo1_def)
  have due: "due (200 - ttl demo1) (table demo1) r \<longleftrightarrow> r = 0x01010101"
    and f: "fake_of (table demo1) = [0x01010101 \<mapsto> 0x0A1E0000]" for r
    by (auto simp: due_def demo1_def fake_of_def fun_eq_iff)
  have "due_rules 200 demo1 = {rule 0x01010101 0x0A1E0000}"
    by (auto simp: due_rules_def due f rules_for_def split: if_splits)
  moreover have "err = None"
  proof -
    have "fst (Clean demo_mgr 200 [0x01010101] demo1) = None"
      by (simp add: Clean_def expired_def demo1_def teardown_def demo_mgr_def nftManager_def
          nftDelete_def rule_of_pair_rule rule_def demo_simps)
    with c show ?thesis by simp
  qed
  moreover have "batch (fw demo1) = []" by (simp add: demo1_def)
  ultimately show ?thesis
    using Clean_effect [OF demo.firewall_manager_axioms _ inv ks c] c by (auto simp: due f fun_eq_iff)
qed

section \<open>Restarts\<close>

text \<open>
  C27. The server restarts without disturbing its clients: a mapper that is built anew over the
  rules of an earlier one, with the same range and after a cleaning round that left nothing to
  delete, has every mapping again with the same fake address, and has not touched a rule. The earlier
  one must not have left rules in force at its own start that it could not adopt; so it is after a start
  over a kernel without rules, and again after each such restart: then the rules in force are exactly those
  of the new mapper's table, and the next restart keeps them, too.
\<close>

theorem restart_keeps_mappings:
  assumes "firewall_manager mgr rules idle" and "idle w"
    and "NewIPMapper mgr now0 (Inr (V4 net, bits)) l w = Inr m0"
    and "rules (fw m0) \<subseteq> rules_for (fake_of (table m0))" and "mapper_run mgr T m0 m"
    and "pending m = []"
    and "NewIPMapper mgr now (Inr (V4 net, bits)) l' (fw m) = Inr m'"
  shows "fake_of (table m') = fake_of (table m) \<and> rules (fw m') = rules (fw m) \<and>
    rules (fw m') = rules_for (fake_of (table m'))"
proof -
  let ?S = "rules (fw m0) - rules_for (fake_of (table m0))"
  have new: "firewall_manager.agree rules idle ?S m0"
    using firewall_manager.new_agree [OF assms(1-3)] by simp
  moreover have "?S = {}" using assms(4) by blast
  ultimately have "firewall_manager.agree rules idle {} m"
    using firewall_manager.run_agree [OF assms(1,5)] by metis
  then have inv: "mapper_inv m" and i: "idle (fw m)" and r: "rules (fw m) = rules_for (fake_of (table m))"
    using assms(6)
    by (auto simp: firewall_manager.agree_def [OF assms(1)] programmed_def no_orphans_def pending_rules_def)
  have "space (pool m0) = space (newIPPool net bits)"
    using assms(3) by (rule NewIPMapper_cases) (simp add: adoptLoop_adopting adopting_new)
  moreover have "mapper_inv m0" using NewIPMapper_adopting [OF assms(3)] by (simp add: adopting_def)
  ultimately have sp: "space (pool m) = space (newIPPool net bits)"
    using mapper_run_inv [OF assms(5)] by simp
  have "fake_of (table m') = fake_of (table m) \<and> rules (fw m') = rules (fw m)"
  proof (rule firewall_manager.restart [OF assms(1) i r _ _ assms(7)])
    show "inj_on (fake_of (table m)) (dom (fake_of (table m)))"
      using inv by (simp add: mapper_inv_def)
    show "\<forall>f \<in> ran (fake_of (table m)). inRange (newIPPool net bits) f"
      using fake_in_range [OF inv] sp by (auto simp: ran_def space_def)
  qed
  with r show ?thesis by simp
qed

lemma restart_keeps_mappings_witness:
  "\<exists>m'. NewIPMapper demo_mgr 7 (Inr (V4 0x0A1E0000, 24)) 100 (fw demo1) = Inr m' \<and>
     fake_of (table m') = [0x01010101 \<mapsto> 0x0A1E0000]"
proof -
  obtain m' where n: "NewIPMapper demo_mgr 7 (Inr (V4 0x0A1E0000, 24)) 100 (fw demo1) = Inr m'"
    by (simp add: NewIPMapper_def adopt_def demo_mgr_def nftManager_def nftList_def memConn_def Let_def)
  have "fake_of (table demo1) = [0x01010101 \<mapsto> 0x0A1E0000]" "pending demo1 = []"
    and "batch memEmpty = []"
    by (simp_all add: demo1_def fake_of_def fun_eq_iff memEmpty_def)
  moreover have "rules_of (mem_kset (fw demo0)) \<subseteq> rules_for (fake_of (table demo0))"
    by (simp add: demo0_def no_rules_memEmpty)
  ultimately show ?thesis
    using restart_keeps_mappings [OF demo.firewall_manager_axioms _ demo_new _ demo_run _ n] n by auto
qed

section \<open>Lifetimes\<close>

text \<open>
  An answer stays valid for the promised time: when \<open>Map\<close> answers at the instant \<open>t0\<close>, then
  after any calls of \<open>Map\<close> and \<open>Clean\<close> before \<open>t0 + ttl\<close> (more than the TTL that clients
  get, which is eight tenths of it), \<open>Map\<close> gives the same fake address for this real address.
\<close>

lemma mapping_survives:
  assumes "Map mgr t0 a m0 = (Inr b, m1)"
    and "mapper_run mgr (\<lambda>t. t0 \<le> t \<and> t < t0 + ttl m0) m1 m2"
  shows "fst (Map mgr t a m2) = Inr b"
proof -
  from Map_used [OF assms(1)] obtain r f
    where a: "a = V4 r" "b = V4 f" and u: "used_since t0 r f m1" and l: "ttl m1 = ttl m0" by auto
  from assms(2) l have "mapper_run mgr (\<lambda>t. t0 \<le> t \<and> t < t0 + ttl m1) m1 m2" by simp
  from used_since_run [OF this u] obtain e where "table m2 r = Some e" "mfake e = f"
    by (auto simp: used_since_def)
  then show ?thesis by (simp add: Map_def tget_def a)
qed

lemma mapping_survives_witness:
  "fst (Map demo_mgr 104 (V4 0x01010101) (snd (Clean demo_mgr 104 [0x01010101] demo1))) = Inr (V4 0x0A1E0000)"
proof -
  obtain err m2 where c: "Clean demo_mgr 104 [0x01010101] demo1 = (err, m2)" by force
  have "key_order [0x01010101] (table demo1)" by (simp add: key_order_def demo1_def)
  from mapper_step.clean [OF this c]
  have "mapper_run demo_mgr (\<lambda>t. 5 \<le> t \<and> t < 5 + ttl demo0) demo1 m2"
    by (intro mapper_run.step [OF mapper_run.start, where now = 104]) (simp_all add: demo0_def)
  from mapping_survives [OF demo_map this] c show ?thesis by simp
qed

end
