(* ===== verification/Handler_Properties.thy ===== *)
theory Handler_Properties
  imports Dns_Handler Mapper_Properties
begin

text \<open>
  The properties of the handler of DNS queries, and a server in which it runs: its firewall is the
  set in the kernel of the theory \<open>Nft_Manager\<close>, its matcher the ordered list of keys of the theory
  \<open>Matcher\<close>, its cache the list of the theory \<open>Dns_Cache\<close>.
\<close>

section \<open>A server\<close>

definition demo_env ::
  "((bytes \<times> msg \<times> time) list, nat, unit, unit, memState, (bytes \<times> u64) list, (bytes \<times> u64) list, bytes) env"
where
  "demo_env =
     \<lparr>eNames = demo_names, eRegexp = demo_regexp, eVellum = memVellum, eManager = demo_mgr, eNet = demo_net,
      eTTL = memCache, eNewTTL = (\<lambda>_ _. []), eLen = (\<lambda>m. length (Answer m)),
      eTruncate = (\<lambda>m. m\<lparr>Truncated := True, Answer := [], Ns := [], Extra := []\<rparr>)\<rparr>"

text \<open>The mapper is the one of the theory \<open>Mapper_Properties\<close> with a lifetime of 100 seconds.\<close>

definition demo_mapper :: "memState ipMapper" where
  "demo_mapper = demo0\<lparr>ttl := 100 * seconds\<rparr>"

definition demo_server ::
  "((bytes \<times> msg \<times> time) list, memState, bytes, (bytes \<times> u64) list) Server"
where
  "demo_server =
     \<lparr>sResolver = demo_resolver, sMapper = demo_mapper,
      sRouter = \<lparr>sources = [], rstore = demo_store, backend = ''fst'', rM = Some (FSTBox [(''com.example'', 3)])\<rparr>,
      sStore = demo_store, sCache = demo_cache, sTimeout = 0, sRebuildTimeout = 0,
      sWarm = True, sRebuildReady = False, sMetrics = Some NewMetrics\<rparr>"

text \<open>The mapper after a query for the domain, and the record that the client gets.\<close>

definition demo_mapped :: "memState ipMapper" where
  "demo_mapped = demo_mapper\<lparr>table := [0x5DB8D822 \<mapsto> \<lparr>mfake = 0x0A1E0000, lastSeen = 0\<rparr>],
     pool := (newIPPool 0x0A1E0000 24)\<lparr>cursor := 0x0A1E0001\<rparr>,
     fw := \<lparr>keys = [bytes4 0x0A1E0000], cells = [bytes4 0x0A1E0000 \<mapsto> bytes4 0x5DB8D822],
           batch = [], faults = []\<rparr>\<rparr>"

definition demo_fake :: rr where
  "demo_fake = A (demo_hdr\<lparr>hTTL := 80\<rparr>) (V4 0x0A1E0000)"

lemma demo_Map: "Map demo_mgr 0 (V4 0x5DB8D822) demo_mapper = (Inr (V4 0x0A1E0000), demo_mapped)"
  by (simp add: Map_def mapFlight_def tget_def demo_mapper_def demo0_def newMappingTable_def allocate_def
      newIPPool_def masked4_def mask_eq_exp_minus_1 cursorLoop.simps Let_def demo_mgr_def
      nftManager_def nftAdd_def memConn_def mem_flush_def mem_kset_memEmpty demo_mapped_def)
    (simp add: memEmpty_def tset_def batch_keys_def)

lemma demo_domain: "domain_of demo_env demo_query = ''example.com''"
proof -
  have "plain ''example.com''" by (simp add: plain_def plainByte_def)
  moreover have "map lowerByte ''example.com'' = ''example.com''" by code_simp
  ultimately have "NormalizeDomain demo_names ''example.com.'' = ''example.com''"
    using NormalizeDomain_spelling [of "''example.com''" "''example.com''" "[]" "[]" "[]" "[]" "''.''" demo_names]
    by simp
  then show ?thesis by (simp add: domain_of_def demo_env_def demo_query_def demo_hdr_def)
qed

lemma demo_action: "action_of demo_env demo_query demo_server = ActionRemap"
proof -
  have "ReverseLabels ''example.com'' = ''com.example''"
    using ReverseLabels_dotted [of "[''example'', ''com'']"] by (simp add: label_def)
  moreover have "fstAction 3 = ActionRemap" by code_simp
  ultimately show ?thesis
    by (simp add: action_of_def demo_domain) (simp add: demo_env_def demo_server_def Lookup_def fstLookup_def
        Let_def)
qed


lemma demo_unsuppressed: "\<not> suppressed demo_env demo_query demo_server"
  unfolding suppressed_def demo_action demo_domain
  by (simp add: action_defs demo_query_def TypeAAAA_def isDDRName_def suffix_to_prefix)

lemma demo_got:
  "got demo_env 0 demo_query demo_server 0 = ((Some (demo_reply\<lparr>ID := 7, Answer := [A (demo_hdr\<lparr>hTTL := 200\<rparr>) (V4 0x5DB8D822)]\<rparr>), True),
     demo_cache, demo_resolver, 0, Some NewMetrics)"
  unfolding got_def demo_domain
  by (simp add: demo_env_def demo_server_def GetResponseLambda_def getByKey_def memCache_def demo_cache_def
      keyOf_def Let_def seconds_def cloneWithTTL_def demo_reply_def demo_query_def)

lemma demo_answered:
  "answerReply demo_env 0 False demo_query ActionRemap
     (Some (demo_reply\<lparr>ID := 7, Answer := [A (demo_hdr\<lparr>hTTL := 200\<rparr>) (V4 0x5DB8D822)]\<rparr>)) demo_mapper =
     (demo_reply\<lparr>ID := 7, Answer := [demo_fake]\<rparr>, LabelNoError, demo_mapped)"
proof -
  have "remapTTL (ttl demo_mapper) = 80" by (simp add: remapTTL_def demo_mapper_def seconds_def)
  then show ?thesis
    by (simp add: answerReply_def demo_env_def demo_reply_def demo_query_def transformerFor_def GetTTL_def
        remapReply_def remapAnswer_def mapTransform_def demo_Map rcode_defs rcodeLabel_def truncateForUDP_def
        action_defs demo_fake_def Let_def)
qed

lemma demo_handled:
  "\<exists>srv'. DNSHandler demo_env 0 0 False demo_query demo_server 0 = (demo_reply\<lparr>ID := 7, Answer := [demo_fake]\<rparr>, srv', 0) \<and>
     sMapper srv' = demo_mapped"
proof -
  obtain reply srv' n' where h: "DNSHandler demo_env 0 0 False demo_query demo_server 0 = (reply, srv', n')"
    by (metis prod.collapse)
  then show ?thesis
  proof (cases rule: handler_cases)
    case (asked resp hit c rs mt rcode mp)
    have "sMapper demo_server = demo_mapper" by (simp add: demo_server_def)
    with asked(3,4) demo_got demo_answered have "reply = demo_reply\<lparr>ID := 7, Answer := [demo_fake]\<rparr>" "n' = 0" "mp = demo_mapped"
      by (auto simp: demo_action)
    with h asked(5) show ?thesis by (auto simp: observeRequest_def)
  qed (simp_all add: demo_query_def demo_unsuppressed [unfolded demo_query_def])
qed


lemma demo_agree: "firewall_manager.agree (\<lambda>s. rules_of (mem_kset s)) (\<lambda>s. batch s = []) {} (sMapper demo_server)"
proof -
  have "mapper_inv demo0"
    using NewIPMapper_adopting [OF demo_new] by (simp add: adopting_inv)
  then have "mapper_inv demo_mapper" by (simp add: demo_mapper_def mapper_inv_def pending_fakes_def)
  then show ?thesis
    by (simp add: demo.agree_def demo_server_def rule_defs demo_mapper_def demo0_def newMappingTable_def
        rules_for_def fake_of_def no_rules_memEmpty) (simp add: memEmpty_def)
qed

lemma demo_cache_clean: "cache_inv map_of clean 0 (sCache demo_server)"
  by (simp add: cache_inv_def demo_server_def demo_cache_def seconds_def cacheable_def demo_reply_def demo_query_def
      rcode_defs clean_def)

lemma demo_drops: "only_drops (eTruncate demo_env)"
  by (simp add: only_drops_def demo_env_def)

lemma demo_env_parts [simp]:
  "eManager demo_env = demo_mgr" "eTTL demo_env = memCache"
  by (simp_all add: demo_env_def)

section \<open>Real addresses stay inside\<close>

lemma safe_remap:
  assumes "safe_reply now ActionRemap m mp reply" and "A h b \<in> set (Answer reply @ Extra reply)"
  shows "\<exists>h0 real f. A h0 (V4 real) \<in> set (Answer m @ Extra m) \<and> b = V4 f \<and> used_since now real f mp \<and>
    hTTL h = remapTTL (ttl mp)"
proof -
  have "ActionRemap \<noteq> ActionBlackhole" by (simp add: action_defs)
  with assms obtain h0 a where "A h0 a \<in> set (Answer m @ Extra m)" and "fake_given now (remapTTL (ttl mp)) h0 a h b mp"
    unfolding safe_reply_def by (simp only: if_False if_True simp_thms) blast
  then show ?thesis unfolding fake_given_def by fastforce
qed

lemma used_since_fake: "used_since t0 r f m \<Longrightarrow> fake_of (table m) r = Some f"
  by (auto simp: used_since_def fake_of_def)

text \<open>
  C2. No reply leads a client past the remapping. A successful reply to a query for a remapped
  domain has no AAAA record and no parameter with an address or a path to another resolver in its
  answer and additional sections, and it is packed anew from its fields. Each A record has a fake
  address for the address of a record that the cache or an upstream gave for the query, the mapping is in the
  table, and its rule is in force in the kernel. It holds whatever the upstreams answer, for a hit
  and for a miss, and when the firewall refuses some rules.
\<close>

theorem no_real_address:
  assumes "firewall_manager (eManager E) rules idle" and "ttl_cache (eTTL E) items" and "only_drops (eTruncate E)"
    and "firewall_manager.agree rules idle S (sMapper srv)" and "cache_inv items clean now (sCache srv)"
    and "DNSHandler E now took udp r srv n = (reply, srv', n')"
    and "length (Question r) = 1" and "Rcode reply = RcodeSuccess" and "action_of E r srv = ActionRemap"
  shows "clean reply \<and> Data reply = [] \<and>
    (\<forall>h b. A h b \<in> set (Answer reply @ Extra reply) \<longrightarrow>
      (\<exists>m hit st h0 real f. got E now r srv n = ((Some m, hit), st) \<and>
         A h0 (V4 real) \<in> set (Answer m @ Extra m) \<and> b = V4 f \<and>
         fake_of (table (sMapper srv')) real = Some f \<and> rule real f \<in> rules (fw (sMapper srv'))))"
proof -
  note facts = firewall_manager.handler_facts [OF assms(1,6,2) refl assms(3,4,5)]
  then have agree: "firewall_manager.agree rules idle S (sMapper srv')" and data: "Data reply = []" by simp_all
  from agree have prog: "rules_for (fake_of (table (sMapper srv'))) \<subseteq> rules (fw (sMapper srv'))"
    by (simp add: firewall_manager.agree_def [OF assms(1)] programmed_def)
  show ?thesis
  proof (cases "Answer reply @ Extra reply = []")
    case True
    then show ?thesis using data by (simp add: clean_def)
  next
    case False
    with facts assms(7,8) obtain m hit st where g: "got E now r srv n = ((Some m, hit), st)"
      and safe: "safe_reply now ActionRemap m (sMapper srv') reply"
      unfolding assms(9) by blast
    have "\<exists>h0 real f. A h0 (V4 real) \<in> set (Answer m @ Extra m) \<and> b = V4 f \<and>
         fake_of (table (sMapper srv')) real = Some f \<and> rule real f \<in> rules (fw (sMapper srv'))"
      if b: "A h b \<in> set (Answer reply @ Extra reply)" for h b
    proof -
      from safe_remap [OF safe b] obtain h0 real f where a: "A h0 (V4 real) \<in> set (Answer m @ Extra m)" "b = V4 f"
        and f: "fake_of (table (sMapper srv')) real = Some f"
        using used_since_fake by blast
      with prog have "rule real f \<in> rules (fw (sMapper srv'))" using mem_rules_for by blast
      with a f show ?thesis by blast
    qed
    with g safe data show ?thesis unfolding safe_reply_def by blast
  qed
qed

lemma no_real_address_witness:
  "\<exists>reply srv' n'. DNSHandler demo_env 0 0 False demo_query demo_server 0 = (reply, srv', n') \<and> Answer reply = [demo_fake] \<and>
     (\<exists>real. rule real 0x0A1E0000 \<in> rules_of (mem_kset (fw (sMapper srv'))))"
proof -
  obtain srv' where h: "DNSHandler demo_env 0 0 False demo_query demo_server 0 = (demo_reply\<lparr>ID := 7, Answer := [demo_fake]\<rparr>, srv', 0)"
    using demo_handled by blast
  have "firewall_manager (eManager demo_env) (\<lambda>s. rules_of (mem_kset s)) (\<lambda>s. batch s = [])"
    and "ttl_cache (eTTL demo_env) map_of" and "length (Question demo_query) = 1"
    and "Rcode (demo_reply\<lparr>ID := 7, Answer := [demo_fake]\<rparr>) = RcodeSuccess"
    by (simp_all add: demo.firewall_manager_axioms memCache.ttl_cache_axioms demo_query_def demo_reply_def rcode_defs)
  from no_real_address [OF this(1,2) demo_drops demo_agree demo_cache_clean h this(3,4) demo_action] h
  show ?thesis by (auto simp: demo_fake_def)
qed

section \<open>Queries that are not asked\<close>

text \<open>
  C22. A query for AAAA records, for the name by which a client discovers an encrypted resolver, or
  for a domain whose action is NXDOMAIN asks nobody: network, cache, mapper and matcher are as they
  were. The reply has no answer and a SOA record of the queried name by which a client may keep it
  for an hour; its code is a name error for NXDOMAIN, whatever the type, and success otherwise. A
  request without exactly one question gets a format error, and equally asks nobody.
\<close>

theorem query_suppressed:
  assumes "DNSHandler E now took udp r srv n = (reply, srv', n')"
    and "length (Question r) = 1 \<longrightarrow> suppressed E r srv"
  shows "n' = n \<and> sCache srv' = sCache srv \<and> sMapper srv' = sMapper srv \<and> sResolver srv' = sResolver srv \<and>
    sRouter srv' = sRouter srv \<and> Response reply \<and> Data reply = [] \<and>
    (if length (Question r) = 1 then
       Rcode reply = (if action_of E r srv = ActionNXDomain then RcodeNameError else RcodeSuccess) \<and>
       Answer reply = [] \<and> Extra reply = [] \<and>
       (\<exists>h s. Ns reply = [SOA h s] \<and> hName h = hName (header (hd (Question r))) \<and> hTTL h = 3600 \<and> soaMin s = 3600)
     else Rcode reply = RcodeFormatError)"
  using assms(1)
  by (cases rule: handler_cases)
    (use assms(2) in \<open>auto simp: observeRequest_def negativeAuthority_def soaNegTTL_def\<close>)

lemma query_suppressed_witness:
  "Rcode (fst (DNSHandler demo_env 0 0 True (demo_query\<lparr>Question := [AAAA demo_hdr NoAddr]\<rparr>) demo_server 0)) = RcodeSuccess \<and>
   Answer (fst (DNSHandler demo_env 0 0 True (demo_query\<lparr>Question := [AAAA demo_hdr NoAddr]\<rparr>) demo_server 0)) = []"
proof -
  let ?r = "demo_query\<lparr>Question := [AAAA demo_hdr NoAddr]\<rparr>"
  obtain reply srv' n' where h: "DNSHandler demo_env 0 0 True ?r demo_server 0 = (reply, srv', n')"
    by (metis prod.collapse)
  have "domain_of demo_env ?r = domain_of demo_env demo_query" by (simp add: domain_of_def demo_query_def)
  then have "action_of demo_env ?r demo_server = ActionRemap" using demo_action by (simp add: action_of_def)
  moreover have "suppressed demo_env ?r demo_server" by (simp add: suppressed_def TypeAAAA_def)
  ultimately show ?thesis using query_suppressed [OF h] h by (simp add: action_defs)
qed

section \<open>A reply none of whose addresses could be mapped\<close>

abbreviation other_records :: "rr list \<Rightarrow> rr list" where
  "other_records rrs \<equiv> filter (\<lambda>x. addressOf x = None) rrs"

text \<open>
  What becomes of each record of a section, in their order: a record that is not an A record stays, and an A
  record is given to the transformer, which fails for it, leaves it out, or gives another in its place.
\<close>

fun fate :: "'s Transformer \<Rightarrow> rr \<Rightarrow> 's \<Rightarrow> (error + rr option) \<times> 's" where
  "fate tr (A h a) s = apfst (map_sum id (map_option (\<lambda>(h', a'). A h' a'))) (tr h a s)"
| "fate tr x s = (Inr (Some x), s)"

fun fates :: "'s Transformer \<Rightarrow> rr list \<Rightarrow> 's \<Rightarrow> (rr \<times> (error + rr option)) list \<times> 's" where
  "fates tr [] s = ([], s)"
| "fates tr (x # xs) s =
     (case fate tr x s of (y, s) \<Rightarrow> case fates tr xs s of (ys, s) \<Rightarrow> ((x, y) # ys, s))"

text \<open>What is left of a section, and whether there was an A record and all of them failed.\<close>

definition left_over :: "(rr \<times> (error + rr option)) list \<Rightarrow> rr list" where
  "left_over ys = List.map_filter (\<lambda>(x, y). case y of Inl err \<Rightarrow> None | Inr z \<Rightarrow> z) ys"

definition all_failed :: "(rr \<times> (error + rr option)) list \<Rightarrow> bool" where
  "all_failed ys \<longleftrightarrow> (\<exists>(x, y) \<in> set ys. addressOf x \<noteq> None) \<and>
     (\<forall>(x, y) \<in> set ys. addressOf x \<noteq> None \<longrightarrow> (\<exists>err. y = Inl err))"

abbreviation isA :: "rr \<times> (error + rr option) \<Rightarrow> bool" where
  "isA p \<equiv> addressOf (fst p) \<noteq> None"

abbreviation failedA :: "rr \<times> (error + rr option) \<Rightarrow> bool" where
  "failedA p \<equiv> isA p \<and> (\<exists>err. snd p = Inl err)"

lemma left_over_simps [simp]:
  "left_over [] = []" "left_over ((x, Inl err) # ys) = left_over ys" "left_over ((x, Inr None) # ys) = left_over ys"
  "left_over ((x, Inr (Some z)) # ys) = z # left_over ys"
  by (simp_all add: left_over_def map_filter_simps)

lemma remapLoop_fates:
  "remapLoop tr rrs n f s = (case fates tr rrs s of
     (ys, s') \<Rightarrow> ((left_over ys, n + length (filter isA ys), f + length (filter failedA ys)), s'))"
proof (induction rrs arbitrary: n f s)
  case (Cons x rrs)
  show ?case
  proof (cases x)
    case (A h a)
    then show ?thesis by (auto simp: Cons.IH split: prod.splits sum.splits option.splits)
  qed (simp_all add: Cons.IH split: prod.splits)
qed simp

lemma fates_records: "fates tr rrs s = (ys, s') \<Longrightarrow> map fst ys = rrs"
  by (induction rrs arbitrary: s ys) (auto split: prod.splits)

lemma left_over_A:
  "other_records (left_over ((A h a, map_sum id (map_option (\<lambda>(h', a'). A h' a')) r) # ys)) = other_records (left_over ys)"
proof (cases r)
  case (Inr z)
  then show ?thesis by (cases z) auto
qed simp

lemma fates_others: "fates tr rrs s = (ys, s') \<Longrightarrow> other_records (left_over ys) = other_records rrs"
proof (induction rrs arbitrary: s ys)
  case (Cons x rrs)
  obtain y s1 where y: "fate tr x s = (y, s1)" by (rule prod.exhaust)
  obtain zs s2 where zs: "fates tr rrs s1 = (zs, s2)" by (rule prod.exhaust)
  from Cons.prems y zs have "ys = (x, y) # zs" "s2 = s'" by simp_all
  with Cons.IH zs y show ?case
    by (cases x) (auto simp: left_over_A map_prod_def apfst_def split: prod.splits)
qed simp

lemma all_failed_count:
  "all_failed ys \<longleftrightarrow> 0 < length (filter isA ys) \<and> length (filter failedA ys) = length (filter isA ys)"
proof -
  have le: "length (filter failedA ys) = length (filter isA ys) \<longleftrightarrow> (\<forall>p \<in> set ys. isA p \<longrightarrow> failedA p)"
  proof (induction ys)
    case (Cons p ys)
    have "length (filter failedA ys) \<le> length (filter isA ys)" by (induction ys) auto
    with Cons show ?case by auto
  qed simp
  show ?thesis unfolding le by (simp add: all_failed_def filter_empty_conv case_prod_beta)
qed

text \<open>
  C23. A reply is never silently emptied. The A records of its answer and its additional section are given to the
  transformer one after the other. If there are some and it fails for each of them, the client gets a server failure without
  any record. Otherwise the reply keeps its code and its authority section, and
  exactly the A records that failed, or that the transformer leaves out, are missing: every other one is
  replaced by what the transformer gives for it, and the records that are not A records stay, all in their order.
\<close>

theorem remap_failure:
  assumes "remapReply tr resp s = (resp', s')"
    and "fates tr (Answer resp) s = (ans, s1)" and "fates tr (Extra resp) s1 = (ext, s2)"
  shows "s' = s2 \<and> map fst ans = Answer resp \<and> map fst ext = Extra resp \<and>
    resp' = (if all_failed (ans @ ext)
      then resp\<lparr>Rcode := RcodeServerFailure, Answer := [], Ns := [], Extra := [], Data := []\<rparr>
      else resp\<lparr>Answer := left_over ans, Extra := left_over ext\<rparr>) \<and>
    other_records (left_over ans) = other_records (Answer resp) \<and>
    other_records (left_over ext) = other_records (Extra resp)"
  using assms(1) fates_records [OF assms(2)] fates_records [OF assms(3)] fates_others [OF assms(2)] fates_others [OF assms(3)]
  by (auto simp: remapReply_def remapAnswer_def remapLoop_fates assms(2,3) all_failed_count Let_def)

text \<open>One address is mapped and the other is not IPv4: the client gets the first.\<close>

lemma remap_failure_witness:
  "\<exists>h. Answer (fst (remapReply (mapTransform demo_mgr 5 80)
      (demo_reply\<lparr>Answer := [A demo_hdr NoAddr, A demo_hdr (V4 0x01010101)]\<rparr>) demo0)) = [A h (V4 0x0A1E0000)]"
proof -
  let ?m = "demo_reply\<lparr>Answer := [A demo_hdr NoAddr, A demo_hdr (V4 0x01010101)]\<rparr>"
  let ?tr = "mapTransform demo_mgr 5 80"
  obtain m s' where r: "remapReply ?tr ?m demo0 = (m, s')" by (rule prod.exhaust)
  have "?tr demo_hdr NoAddr demo0 = (Inl errNotIPv4, demo0)" by (simp add: mapTransform_def Map_def)
  moreover have "?tr demo_hdr (V4 0x01010101) demo0 = (Inr (Some (demo_hdr\<lparr>hTTL := 80\<rparr>, V4 0x0A1E0000)), demo1)"
    using demo_map by (simp add: mapTransform_def)
  ultimately have f: "fates ?tr (Answer ?m) demo0 =
      ([(A demo_hdr NoAddr, Inl errNotIPv4),
        (A demo_hdr (V4 0x01010101), Inr (Some (A (demo_hdr\<lparr>hTTL := 80\<rparr>) (V4 0x0A1E0000))))], demo1)"
    by simp
  have e: "fates ?tr (Extra ?m) demo1 = ([], demo1)" by (simp add: demo_reply_def demo_query_def)
  from remap_failure [OF r f e] r show ?thesis by (auto simp: all_failed_def)
qed

section \<open>What is counted\<close>

lemma rcodeLabel_simps:
  "rcodeLabel RcodeServerFailure = LabelServFail" "rcodeLabel RcodeFormatError = LabelFormErr"
  by (simp_all add: rcodeLabel_def rcode_defs)

lemma answerReply_label:
  "answerReply E now udp r act resp mp = (reply, rcode, mp') \<Longrightarrow> only_drops (eTruncate E) \<Longrightarrow>
     rcode = rcodeLabel (Rcode reply)"
  by (auto simp: answerReply_def reuseAndWrite_def rcodeLabel_simps truncateForUDP_def only_drops_def Let_def
      split: option.splits if_splits prod.splits)

lemma GetResponse_state:
  "GetResponseLambda pkg now req name lambda c s = ((resp, hit), c', s') \<Longrightarrow> if hit then s' = s else \<exists>x. lambda s = (x, s')"
  by (auto simp: GetResponseLambda_def Let_def split: prod.splits option.splits if_splits)

lemma got_requests:
  assumes "got E now r srv n = ((resp, hit), c, rs, n', mt)"
  shows "same_requests (sMetrics srv) mt \<and> (hit \<longrightarrow> mt = sMetrics srv)"
proof -
  note state = GetResponse_state [OF assms [unfolded got_def]]
  show ?thesis
  proof (cases hit)
    case False
    with state obtain x where "resolveLambda (eNet E) (sTimeout srv) r (sResolver srv, n, sMetrics srv) = (x, rs, n', mt)"
      by auto
    then have "\<exists>res. Resolve (eNet E) (WithTimeout (eNet E) (sTimeout srv) Background n) r (sResolver srv) (n, sMetrics srv) = (res, rs, n', mt)"
      by (auto simp: resolveLambda_def split: prod.splits sum.splits)
    with False Resolve_requests show ?thesis by fastforce
  qed (use state in auto)
qed

text \<open>
  C38. The metrics tell the truth: each request is counted once, under the code of the reply that is
  sent and the action of its domain, and its duration is observed once, under the place where the
  reply came from. The counts of the rebuilds do not change, and those of the upstreams do so only
  for a request that was not answered from the cache.
\<close>

theorem request_counted:
  assumes "DNSHandler E now took udp r srv n = (reply, srv', n')" and "only_drops (eTruncate E)"
    and "sMetrics srv = Some m"
  shows "let l = (rcodeLabel (Rcode reply), if length (Question r) = 1 then actionString (action_of E r srv) else ActionNone);
      k = (if length (Question r) \<noteq> 1 then ServedError else if suppressed E r srv then ServedSuppressed
           else if snd (fst (got E now r srv n)) then ServedCache else ServedUpstream)
    in \<exists>m'. sMetrics srv' = Some m' \<and>
      responses m' = (responses m)(l := responses m l + 1) \<and>
      requestDuration m' = (requestDuration m)(k := requestDuration m k @ [took]) \<and>
      rebuilds m' = rebuilds m \<and> rebuildDuration m' = rebuildDuration m \<and>
      (k \<noteq> ServedUpstream \<longrightarrow> upstreamQueries m' = upstreamQueries m \<and> upstreamDuration m' = upstreamDuration m)"
  using assms(1)
proof (cases rule: handler_cases)
  case malformed
  then show ?thesis
    by (simp add: Let_def observeRequest_def ObserveRequest_def inc_def observe_def assms(3) rcodeLabel_simps)
next
  case negative
  then show ?thesis
    by (simp add: Let_def observeRequest_def ObserveRequest_def inc_def observe_def assms(3))
next
  case (asked resp hit c rs mt rcode mp)
  from got_requests [OF asked(3)] assms(3) obtain m1 where mt: "mt = Some m1" and parts: "request_part m1 = request_part m"
    and hit: "hit \<Longrightarrow> m1 = m"
    by (cases mt) (auto simp: same_requests_def)
  have srv': "sMetrics srv' = Some (ObserveRequest (rcodeLabel (Rcode reply)) (actionString (action_of E r srv))
      (if hit then ServedCache else ServedUpstream) took m1)"
    by (simp add: asked(5) observeRequest_def mt answerReply_label [OF asked(4) assms(2)])
  show ?thesis
    using asked(1-3) parts hit
    by (simp add: Let_def srv' ObserveRequest_def inc_def observe_def request_part_def)
qed

lemma request_counted_witness:
  "\<exists>srv'. snd (DNSHandler demo_env 0 7 False (demo_query\<lparr>Question := []\<rparr>) demo_server 0) = (srv', 0) \<and>
     map_option (\<lambda>m. (responses m (LabelFormErr, ActionNone), requestDuration m ServedError)) (sMetrics srv') = Some (1, [7])"
proof -
  let ?r = "demo_query\<lparr>Question := []\<rparr>"
  obtain reply srv' n' where h: "DNSHandler demo_env 0 7 False ?r demo_server 0 = (reply, srv', n')"
    by (metis prod.collapse)
  then have "Rcode reply = RcodeFormatError" "n' = 0" by (simp_all add: DNSHandler_def reuseAndWrite_def) auto
  moreover have "sMetrics demo_server = Some NewMetrics" by (simp add: demo_server_def)
  ultimately show ?thesis using request_counted [OF h demo_drops] h
    by (fastforce simp: NewMetrics_def rcodeLabel_simps)
qed

end
