(* ===== verification/Service.thy ===== *)
theory Service
  imports Handler_Properties
begin

text \<open>
  The running server: queries, rounds of the mapping cleaner and rebuilds of the router, in any
  order. The loops of \<open>MappingCleaner\<close> and \<open>PolicyRebuilder\<close> in \<open>src/server/server.go\<close> wait for a
  ticker, a signal or the end of the context, so each of their rounds is a step that may happen at
  any time. Queries run concurrently in the code; the mapper, the cache and the pool each hold a
  mutex during an operation, and the steps take a query as one unit.
\<close>

section \<open>Steps\<close>

type_synonym ('c, 'n, 'w, 're, 'f) state = "('c, 'w, 're, 'f) Server \<times> 'n \<times> fs"

inductive server_step ::
  "('c, 'n, 'q, 'h, 'w, 'b, 'f, 're) env \<Rightarrow> time \<Rightarrow> ('c, 'n, 'w, 're, 'f) state \<Rightarrow> ('c, 'n, 'w, 're, 'f) state \<Rightarrow> bool"
  for E now
where
  query: "DNSHandler E now took udp r srv n = (reply, srv', n') \<Longrightarrow> server_step E now (srv, n, s) (srv', n', s)"
| tick: "key_order ks (table (sMapper srv)) \<Longrightarrow> server_step E now (srv, n, s) (cleanTick E now ks srv, n, s)"
| first: "firstRebuild E took W srv s = (srv', s') \<Longrightarrow> server_step E now (srv, n, s) (srv', n, s')"
| reload: "rebuild E took W srv s = (srv', s') \<Longrightarrow> server_step E now (srv, n, s) (srv', n, s')"

text \<open>A run between two instants; time does not go back.\<close>

inductive server_run ::
  "('c, 'n, 'q, 'h, 'w, 'b, 'f, 're) env \<Rightarrow> time \<Rightarrow> ('c, 'n, 'w, 're, 'f) state \<Rightarrow> time \<Rightarrow> ('c, 'n, 'w, 're, 'f) state \<Rightarrow> bool"
  for E t0 x
where
  start: "server_run E t0 x t0 x"
| step: "server_run E t0 x t y \<Longrightarrow> t \<le> now \<Longrightarrow> server_step E now y z \<Longrightarrow> server_run E t0 x now z"

inductive_cases server_stepE: "server_step E now x y"

lemma server_run_time: "server_run E t0 x t y \<Longrightarrow> t0 \<le> t"
  by (induction rule: server_run.induct) auto

section \<open>What every step keeps\<close>

lemma rebuild_frame:
  "rebuild E took W srv s = (srv', s') \<Longrightarrow> sMapper srv' = sMapper srv \<and> sCache srv' = sCache srv \<and>
     (serverReady srv \<longrightarrow> serverReady srv')"
  by (auto simp: rebuild_def serverReady_def Ready_def Rebuild_def Let_def split: prod.splits sum.splits if_splits)

lemma firstRebuild_frame:
  "firstRebuild E took W srv s = (srv', s') \<Longrightarrow> sMapper srv' = sMapper srv \<and> sCache srv' = sCache srv \<and>
     (serverReady srv \<longrightarrow> serverReady srv')"
  using rebuild_frame by (fastforce simp: firstRebuild_def serverReady_def split: prod.splits)

lemma handler_router: "DNSHandler E now took udp r srv n = (reply, srv', n') \<Longrightarrow> sRouter srv' = sRouter srv"
  by (erule handler_cases) (simp_all add: observeRequest_def)

lemma mapper_run_trans: "mapper_run mgr T m1 m2 \<Longrightarrow> mapper_run mgr T m0 m1 \<Longrightarrow> mapper_run mgr T m0 m2"
  by (induction rule: mapper_run.induct) (auto intro: mapper_run.step)

lemma mapper_run_weaken: "mapper_run mgr T m0 m \<Longrightarrow> (\<And>t. T t \<Longrightarrow> U t) \<Longrightarrow> mapper_run mgr U m0 m"
  by (induction rule: mapper_run.induct) (auto intro: mapper_run.intros)

context firewall_manager
begin

text \<open>The invariant of the server: that of the mapper with the kernel, and that of the cache.\<close>

definition server_inv :: "('c \<Rightarrow> bytes \<rightharpoonup> msg \<times> time) \<Rightarrow> fwMapping set \<Rightarrow> time \<Rightarrow> ('c, 'w, 're, 'f) Server \<Rightarrow> bool" where
  "server_inv items S now srv \<longleftrightarrow> agree S (sMapper srv) \<and> cache_inv items clean now (sCache srv)"

lemma server_step_inv:
  assumes "server_step E now (srv, n, s) (srv', n', s')" and "server_inv items S now srv"
    and "eManager E = mgr" and "ttl_cache (eTTL E) items" and "only_drops (eTruncate E)"
  shows "server_inv items S now srv' \<and> mapped_at mgr now (sMapper srv) (sMapper srv') \<and>
    (serverReady srv \<longrightarrow> serverReady srv')"
  using assms(1)
proof cases
  case (query took udp r reply)
  with handler_facts [OF query(2) assms(4,3,5)] assms(2) handler_router [OF query(2)] show ?thesis
    by (auto simp: server_inv_def serverReady_def)
next
  case (tick ks)
  obtain err mp where c: "Clean mgr now ks (sMapper srv) = (err, mp)" by (rule prod.exhaust)
  have "mapped_at mgr now (sMapper srv) mp"
    by (rule mapper_run.step [OF mapper_run.start, of _ now]) (rule refl, rule mapper_step.clean [OF tick(4) c])
  with tick c assms(2,3) Clean_agree [OF _ tick(4) c] show ?thesis
    by (auto simp: cleanTick_def server_inv_def serverReady_def)
next
  case (first took W)
  with firstRebuild_frame [OF first(2)] assms(2) show ?thesis by (simp add: server_inv_def mapper_run.start)
next
  case (reload took W)
  with rebuild_frame [OF reload(2)] assms(2) show ?thesis by (simp add: server_inv_def mapper_run.start)
qed

lemma server_run_inv:
  assumes "server_run E t0 x t y" and "server_inv items S t0 (fst x)"
    and "eManager E = mgr" and "ttl_cache (eTTL E) items" and "only_drops (eTruncate E)"
  shows "server_inv items S t (fst y) \<and>
    mapper_run mgr (\<lambda>u. t0 \<le> u \<and> u \<le> t) (sMapper (fst x)) (sMapper (fst y)) \<and>
    (serverReady (fst x) \<longrightarrow> serverReady (fst y))"
  using assms(1)
proof (induction rule: server_run.induct)
  case start
  with assms(2) show ?case by (simp add: mapper_run.start)
next
  case (step t y now z)
  obtain srv n s srv' n' s' where y: "y = (srv, n, s)" and z: "z = (srv', n', s')" by (metis prod.collapse)
  have "server_inv items S now srv"
    using step.IH step.hyps(2) by (auto simp: y server_inv_def intro: cache_inv_later)
  note st = server_step_inv [OF step.hyps(3) [unfolded y z] this assms(3-5)]
  have "t0 \<le> now" using server_run_time [OF step.hyps(1)] step.hyps(2) by simp
  then have "mapper_run mgr (\<lambda>u. t0 \<le> u \<and> u \<le> now) (sMapper srv) (sMapper srv')"
    using st by (auto intro: mapper_run_weaken)
  moreover have "mapper_run mgr (\<lambda>u. t0 \<le> u \<and> u \<le> now) (sMapper (fst x)) (sMapper srv)"
    using step.IH step.hyps(2) by (auto simp: y intro: mapper_run_weaken)
  ultimately show ?case using st step.IH mapper_run_trans by (auto simp: y z)
qed

end

section \<open>A fake address is good for as long as the reply says\<close>

lemma remapTTL_strict: "0 < d \<Longrightarrow> d < 2 ^ 32 * seconds \<Longrightarrow> uint (remapTTL d) * seconds < d"
proof -
  assume d: "0 < d" "d < 2 ^ 32 * seconds"
  have "uint (remapTTL d) = 4 * d div (5 * seconds)"
    using d by (simp add: remapTTL_def uint_word_of_int seconds_def)
  moreover have "4 * d div (5 * seconds) * seconds < d" using d(1) by (simp add: seconds_def)
  ultimately show ?thesis by simp
qed

text \<open>
  C1. The promise of the whole server: a client that got a fake address and keeps it for as long as
  the record's duration says finds the rule of that address in force all the time, and it is the
  rule for the same real address. It holds whatever other queries are answered, mappings expired,
  and matchers rebuilt in the meantime, because the duration is four fifths of the lifetime of a
  mapping.
\<close>

theorem fake_outlives_reply:
  assumes "firewall_manager (eManager E) rules idle" and "ttl_cache (eTTL E) items" and "only_drops (eTruncate E)"
    and "firewall_manager.server_inv rules idle items S now srv"
    and "0 < ttl (sMapper srv)" and "ttl (sMapper srv) < 2 ^ 32 * seconds"
    and "DNSHandler E now took udp r srv n = (reply, srv', n')"
    and "length (Question r) = 1" and "Rcode reply = RcodeSuccess" and "action_of E r srv = ActionRemap"
    and "A h b \<in> set (Answer reply @ Extra reply)"
    and "server_run E now (srv', n', s) t (later, n2, s2)" and "t \<le> now + uint (hTTL h) * seconds"
  shows "\<exists>real f. b = V4 f \<and> fake_of (table (sMapper srv')) real = Some f \<and>
    fake_of (table (sMapper later)) real = Some f \<and> rule real f \<in> rules (fw (sMapper later))"
proof -
  note sinv = firewall_manager.server_inv_def [OF assms(1)]
  have "firewall_manager.agree rules idle S (sMapper srv)" and "cache_inv items clean now (sCache srv)"
    using assms(4) by (simp_all add: sinv)
  note facts = firewall_manager.handler_facts [OF assms(1,7,2) refl assms(3) this]
  have run: "mapped_at (eManager E) now (sMapper srv) (sMapper srv')" using facts by blast
  have "Answer reply @ Extra reply \<noteq> []" using assms(11) by auto
  then obtain m where "safe_reply now ActionRemap m (sMapper srv') reply"
    using facts assms(8,9) unfolding assms(10) by blast
  from safe_remap [OF this assms(11)] obtain real f where f: "b = V4 f"
    and used: "used_since now real f (sMapper srv')" and h: "hTTL h = remapTTL (ttl (sMapper srv))"
    unfolding run_ttl [OF run] by blast
  have "firewall_manager.server_inv rules idle items S now (fst (srv', n', s))" using facts by (simp add: sinv)
  from firewall_manager.server_run_inv [OF assms(1,12) this refl assms(2,3)]
  have agree: "firewall_manager.agree rules idle S (sMapper later)"
    and lrun: "mapper_run (eManager E) (\<lambda>u. now \<le> u \<and> u \<le> t) (sMapper srv') (sMapper later)"
    by (simp_all add: sinv)
  have "t < now + ttl (sMapper srv')"
    using remapTTL_strict [OF assms(5,6)] assms(13) h run_ttl [OF run] by simp
  then have "mapper_run (eManager E) (\<lambda>u. now \<le> u \<and> u < now + ttl (sMapper srv')) (sMapper srv') (sMapper later)"
    by (intro mapper_run_weaken [OF lrun]) simp
  from used_since_run [OF this used] have "fake_of (table (sMapper later)) real = Some f"
    using used_since_fake by blast
  moreover from this have "rule real f \<in> rules (fw (sMapper later))"
    using agree mem_rules_for by (auto simp: firewall_manager.agree_def [OF assms(1)] programmed_def)
  ultimately show ?thesis using f used_since_fake [OF used] by blast
qed

lemma fake_outlives_reply_witness:
  "\<exists>reply srv'. DNSHandler demo_env 0 0 False demo_query demo_server 0 = (reply, srv', 0) \<and>
     (\<forall>s later n2 s2. server_run demo_env 0 (srv', 0, s) (79 * seconds) (later, n2, s2) \<longrightarrow>
        (\<exists>real. rule real 0x0A1E0000 \<in> rules_of (mem_kset (fw (sMapper later)))))"
proof -
  obtain srv' where h: "DNSHandler demo_env 0 0 False demo_query demo_server 0 = (demo_reply\<lparr>ID := 7, Answer := [demo_fake]\<rparr>, srv', 0)"
    using demo_handled by blast
  have fm: "firewall_manager (eManager demo_env) (\<lambda>s. rules_of (mem_kset s)) (\<lambda>s. batch s = [])"
    and tc: "ttl_cache (eTTL demo_env) map_of" and q: "length (Question demo_query) = 1"
    and rc: "Rcode (demo_reply\<lparr>ID := 7, Answer := [demo_fake]\<rparr>) = RcodeSuccess"
    by (simp_all add: demo.firewall_manager_axioms memCache.ttl_cache_axioms demo_query_def demo_reply_def rcode_defs)
  have inv: "demo.server_inv map_of {} 0 demo_server"
    using demo_agree demo_cache_clean by (simp add: demo.server_inv_def)
  have l: "0 < ttl (sMapper demo_server)" "ttl (sMapper demo_server) < 2 ^ 32 * seconds"
    by (simp_all add: demo_server_def demo_mapper_def seconds_def)
  have "A (demo_hdr\<lparr>hTTL := 80\<rparr>) (V4 0x0A1E0000) \<in> set (Answer (demo_reply\<lparr>ID := 7, Answer := [demo_fake]\<rparr>) @
      Extra (demo_reply\<lparr>ID := 7, Answer := [demo_fake]\<rparr>))" by (simp add: demo_fake_def)
  note out = fake_outlives_reply [OF fm tc demo_drops inv l h q rc demo_action this]
  have "\<exists>real. rule real 0x0A1E0000 \<in> rules_of (mem_kset (fw (sMapper later)))"
    if "server_run demo_env 0 (srv', 0, s) (79 * seconds) (later, n2, s2)" for s later n2 s2
    using out [OF that] by (auto simp: seconds_def)
  with h show ?thesis by blast
qed

section \<open>The invariant of the service\<close>

lemma LoadCached_ready: "LoadCached vp r s = ((k, r'), s') \<Longrightarrow> 0 < k \<Longrightarrow> Ready r'"
  by (auto simp: LoadCached_def Ready_def Let_def split: if_splits prod.splits sum.splits)

lemma NewServer_parts:
  assumes "NewServer E now W cfg w m s = (Inr srv, s')"
  shows "NewIPMapper (eManager E) now (ParsePrefix (FakeCIDR cfg)) (fwTTL (FirewallCfg cfg)) w = Inr (sMapper srv) \<and>
    sCache srv = NewCache (eNewTTL E (nat (Capacity (CacheCfg cfg))) (TTL (CacheCfg cfg))) (MinTTL (CacheCfg cfg)) (MaxTTL (CacheCfg cfg)) \<and>
    (sWarm srv \<longrightarrow> serverReady srv)"
  using assms
  by (auto simp: NewServer_def Let_def serverReady_def dest: LoadCached_ready split: sum.splits prod.splits)

lemma service_keeps:
  assumes "firewall_manager (eManager E) rules idle" and "ttl_cache (eTTL E) items" and "only_drops (eTruncate E)"
    and "\<forall>k d. items (eNewTTL E k d) = Map.empty" and "0 < MinTTL (CacheCfg cfg)" and "MinTTL (CacheCfg cfg) \<le> MaxTTL (CacheCfg cfg)"
    and "idle w" and "NewServer E t0 W cfg w mt s = (Inr srv0, s0)"
    and "server_run E t0 (srv0, n0, s0) t (srv, n, s')"
  shows "inj_on (fake_of (table (sMapper srv))) (dom (table (sMapper srv))) \<and>
    rules_for (fake_of (table (sMapper srv))) \<subseteq> rules (fw (sMapper srv)) \<and>
    rules (fw (sMapper srv)) \<subseteq> rules_for (fake_of (table (sMapper srv))) \<union> pending_rules (sMapper srv) \<union> rules w \<and>
    (\<forall>k m e. items (cCache (sCache srv)) k = Some (m, e) \<longrightarrow> cacheable m \<and> clean m \<and> e \<le> t + maxTTL (sCache srv)) \<and>
    (sWarm srv0 \<longrightarrow> serverReady srv)"
proof -
  note parts = NewServer_parts [OF assms(8)]
  let ?S = "rules (fw (sMapper srv0)) - rules_for (fake_of (table (sMapper srv0)))"
  have new: "firewall_manager.agree rules idle ?S (sMapper srv0)" and sub: "rules (fw (sMapper srv0)) \<subseteq> rules w"
    using firewall_manager.new_agree [OF assms(1,7)] parts by blast+
  have "cache_inv items clean t0 (sCache srv0)"
    using parts assms(4-6) by (simp add: cache_inv_def NewCache_def)
  with new have "firewall_manager.server_inv rules idle items ?S t0 (fst (srv0, n0, s0))"
    by (simp add: firewall_manager.server_inv_def [OF assms(1)])
  note inv = firewall_manager.server_run_inv [OF assms(1,9) this refl assms(2,3)]
  then have agree: "firewall_manager.agree rules idle ?S (sMapper srv)" and c: "cache_inv items clean t (sCache srv)"
    by (simp_all add: firewall_manager.server_inv_def [OF assms(1)])
  from agree have "mapper_inv (sMapper srv)"
    and "rules_for (fake_of (table (sMapper srv))) \<subseteq> rules (fw (sMapper srv))"
    and "rules (fw (sMapper srv)) \<subseteq> rules_for (fake_of (table (sMapper srv))) \<union> pending_rules (sMapper srv) \<union> ?S"
    by (simp_all add: firewall_manager.agree_def [OF assms(1)] programmed_def no_orphans_def)
  with sub c inv parts show ?thesis by (auto simp: mapper_inv_def cache_inv_def)
qed


text \<open>The default configuration with another place for the state, and without matchers.\<close>

definition demo_cfg :: AntizapretConfig where
  "demo_cfg = AntizapretDefault\<lparr>StatePath := ''/var/azg'', Policy := (Policy AntizapretDefault)\<lparr>Matchers := []\<rparr>\<rparr>"

lemma demo_NewIPMapper: "\<exists>mp. NewIPMapper demo_mgr 0 (Inr (V4 0x0A1E0000, 15)) l memEmpty = Inr mp"
  by (simp add: NewIPMapper_def adopt_def demo_mgr_def nftManager_def nftList_def memConn_def memEmpty_def Let_def)

lemma demo_NewServer: "\<exists>srv s. NewServer demo_env 0 demo_world demo_cfg memEmpty None demo_fs = (Inr srv, s)"
proof -
  have "\<exists>rs. NewResolver demo_net (Upstreams demo_cfg) None = Inr rs"
    by (simp add: Enabled_def NewResolver_def newUpstream_def NewClassicUpstream_def demo_net_def demo_cfg_def
        AntizapretDefault_def)
  moreover have "\<exists>st s. New ''/var/azg'' demo_fs = (Inr st, s)"
    by (simp add: New_def mkdirAll_def sysCall_def demo_fs_def Let_def)
  moreover obtain mp where "NewIPMapper demo_mgr 0 (Inr (V4 0x0A1E0000, 15)) (fwTTL (FirewallCfg AntizapretDefault)) memEmpty = Inr mp"
    using demo_NewIPMapper by blast
  ultimately show ?thesis
    by (auto simp: NewServer_def Let_def demo_cfg_def NewRouter_def demo_env_def default_prefix split: prod.splits)
qed


end
