(* ===== verification/Nft_Init.thy ===== *)
theory Nft_Init
  imports Nft_Manager
begin

text \<open>
  The start of the nftables backend, \<open>NewNftManager\<close> and the functions it calls in
  \<open>src/server/firewall/nft/nft.go\<close>: the chain, the map from fake to real addresses, and the one
  rule that looks a packet's destination up in the map and translates it.

  The package \<open>nftables\<close> is the record \<open>nftPkg\<close> over a state \<^typ>\<open>'k\<close>, as far as the start uses it;
  \<open>connElements\<close> are the operations on the elements of a set, which the theory \<open>Nft_Manager\<close> uses.
  The locale \<open>nft_setup\<close> has what the package documents of them. What the kernel does with a rule
  is the small machine of the section on packets, as the manual of nftables describes it.
\<close>

section \<open>The objects of the package\<close>

record nftTable =
  tabName :: bytes

datatype chainType = ChainTypeFilter | ChainTypeRoute | ChainTypeNAT
datatype chainHook = ChainHookPrerouting | ChainHookInput | ChainHookForward | ChainHookOutput | ChainHookPostrouting

definition ChainPriorityFilter :: int where "ChainPriorityFilter = 0"

text \<open>A chain without a hook and a priority is one that packets reach only by a jump.\<close>

record nftChain =
  chainName :: bytes
  chainTable :: nftTable
  chainType :: "chainType option"
  Hooknum :: "chainHook option"
  Priority :: "int option"

datatype dataType = TypeIPAddr | OtherType

record nftSet =
  setTable :: nftTable
  setName :: bytes
  setID :: u32
  IsMap :: bool
  KeyType :: dataType
  DataType :: dataType
  Comment :: bytes

datatype payloadOp = PayloadLoad | PayloadWrite
datatype payloadBase = PayloadBaseLLHeader | PayloadBaseNetworkHeader | PayloadBaseTransportHeader
datatype natType = NATTypeSourceNAT | NATTypeDestNAT

record exprPayload =
  OperationType :: payloadOp
  DestRegister :: nat
  Base :: payloadBase
  Offset :: nat
  Len :: nat

record exprLookup =
  SourceRegister :: nat
  lookupDest :: nat
  IsDestRegSet :: bool
  lookupID :: u32
  lookupName :: bytes

record exprNAT =
  natKind :: natType
  Family :: nat
  RegAddrMin :: nat
  RegAddrMax :: nat

text \<open>The other kinds of expressions are not used by the program; they stand for themselves.\<close>

datatype expr = Counter | Payload exprPayload | Lookup exprLookup | NAT exprNAT | OtherExpr bytes

record nftRule =
  ruleTable :: nftTable
  ruleChain :: nftChain
  UserData :: bytes
  Exprs :: "expr list"

record 'k nftPkg =
  nftConnect :: "'k \<Rightarrow> error option \<times> 'k"
  ListTable :: "bytes \<Rightarrow> 'k \<Rightarrow> (error + nftTable) \<times> 'k"
  ListChain :: "nftTable \<Rightarrow> bytes \<Rightarrow> 'k \<Rightarrow> (error + nftChain) \<times> 'k"
  AddChain :: "nftChain \<Rightarrow> 'k \<Rightarrow> nftChain \<times> 'k"
  GetRules :: "nftTable \<Rightarrow> nftChain \<Rightarrow> 'k \<Rightarrow> (error + nftRule list) \<times> 'k"
  AddRule :: "nftRule \<Rightarrow> 'k \<Rightarrow> 'k"
  GetSetByName :: "nftTable \<Rightarrow> bytes \<Rightarrow> 'k \<Rightarrow> (error + nftSet) \<times> 'k"
  AddSet :: "nftSet \<Rightarrow> 'k \<Rightarrow> (error + nftSet) \<times> 'k"
  connFlush :: "'k \<Rightarrow> error option \<times> 'k"
  connElements :: "nftSet \<Rightarrow> 'k nftConn"

section \<open>Operations\<close>

definition internalNFTMark :: bytes where
  "internalNFTMark = ''antizapret-go''"

definition AF_INET :: nat where "AF_INET = 2"

definition initializeChain :: "'k nftPkg \<Rightarrow> bytes \<Rightarrow> nftTable \<Rightarrow> 'k \<Rightarrow> (error + nftChain) \<times> 'k" where
  "initializeChain pkg name t k =
     (case ListChain pkg t name k of
        (Inr chain, k) \<Rightarrow> (Inr chain, k)
      | (Inl errTemp, k) \<Rightarrow>
          (case AddChain pkg \<lparr>chainName = name, chainTable = t, chainType = Some ChainTypeNAT,
                  Hooknum = Some ChainHookPrerouting, Priority = Some ChainPriorityFilter\<rparr> k of
             (chain, k) \<Rightarrow>
               (case connFlush pkg k of
                  (Some err, k) \<Rightarrow> (Inl err, k)
                | (None, k) \<Rightarrow> (Inr chain, k))))"

definition initializeSet :: "'k nftPkg \<Rightarrow> bytes \<Rightarrow> nftTable \<Rightarrow> 'k \<Rightarrow> (error + nftSet) \<times> 'k" where
  "initializeSet pkg name t k =
     (case GetSetByName pkg t name k of
        (Inr st, k) \<Rightarrow> (Inr st, k)
      | (Inl _, k) \<Rightarrow>
          (case AddSet pkg \<lparr>setTable = t, setName = name, setID = 0, IsMap = True, KeyType = TypeIPAddr,
                  DataType = TypeIPAddr, Comment = internalNFTMark\<rparr> k of
             (Inl err, k) \<Rightarrow> (Inl err, k)
           | (Inr st, k) \<Rightarrow>
               (case connFlush pkg k of
                  (Some err, k) \<Rightarrow> (Inl err, k)
                | (None, k) \<Rightarrow> (Inr st, k))))"

definition dnatExprs :: "nftSet \<Rightarrow> expr list" where
  "dnatExprs st =
     [Counter,
      Payload \<lparr>OperationType = PayloadLoad, DestRegister = 1, Base = PayloadBaseNetworkHeader, Offset = 16, Len = 4\<rparr>,
      Lookup \<lparr>SourceRegister = 1, lookupDest = 1, IsDestRegSet = True, lookupID = setID st, lookupName = setName st\<rparr>,
      NAT \<lparr>natKind = NATTypeDestNAT, Family = AF_INET, RegAddrMin = 1, RegAddrMax = 1\<rparr>]"

definition initializeRule :: "'k nftPkg \<Rightarrow> nftSet \<Rightarrow> nftTable \<Rightarrow> nftChain \<Rightarrow> 'k \<Rightarrow> error option \<times> 'k" where
  "initializeRule pkg st t c k =
     (case GetRules pkg t c k of
        (res, k) \<Rightarrow>
          (let r = (case res of Inl _ \<Rightarrow> [] | Inr r \<Rightarrow> r);
               exists = list_ex (\<lambda>rule. UserData rule = internalNFTMark) r
           in if exists then (None, k)
              else connFlush pkg
                (AddRule pkg \<lparr>ruleTable = t, ruleChain = c, UserData = internalNFTMark, Exprs = dnatExprs st\<rparr> k)))"

text \<open>The manager is the connection with the set, of which the result is the set.\<close>

definition NewNftManager :: "'k nftPkg \<Rightarrow> bytes \<Rightarrow> bytes \<Rightarrow> 'k \<Rightarrow> (error + nftSet) \<times> 'k" where
  "NewNftManager pkg chName stName k =
     (case nftConnect pkg k of
        (Some err, k) \<Rightarrow> (Inl (Wrap ''failed to create nftables connection'' err), k)
      | (None, k) \<Rightarrow>
     (case ListTable pkg ''nat'' k of
        (Inl err, k) \<Rightarrow> (Inl (Wrap ''failed to list table'' err), k)
      | (Inr t, k) \<Rightarrow>
     (case initializeChain pkg chName t k of
        (Inl err, k) \<Rightarrow> (Inl (Wrap ''failed to initialize chain'' err), k)
      | (Inr c, k) \<Rightarrow>
     (case initializeSet pkg stName t k of
        (Inl err, k) \<Rightarrow> (Inl (Wrap ''failed to initialize set'' err), k)
      | (Inr st, k) \<Rightarrow>
     (case initializeRule pkg st t c k of
        (Some err, k) \<Rightarrow> (Inl (Wrap ''failed to initialize rule'' err), k)
      | (None, k) \<Rightarrow> (Inr st, k))))))"

section \<open>What the package promises\<close>

text \<open>The part of the kernel's ruleset that the start reads and changes.\<close>

record ruleset =
  rsChains :: "nftChain list"
  rsSets :: "nftSet list"
  rsRules :: "bytes \<times> bytes \<Rightarrow> nftRule list"

datatype setupOp = OpChain nftChain | OpSet nftSet | OpRule nftRule

definition hasChain :: "bytes \<Rightarrow> bytes \<Rightarrow> ruleset \<Rightarrow> bool" where
  "hasChain t n R \<longleftrightarrow> list_ex (\<lambda>c. tabName (chainTable c) = t \<and> chainName c = n) (rsChains R)"

definition hasSet :: "bytes \<Rightarrow> bytes \<Rightarrow> ruleset \<Rightarrow> bool" where
  "hasSet t n R \<longleftrightarrow> list_ex (\<lambda>s. tabName (setTable s) = t \<and> setName s = n) (rsSets R)"

text \<open>Adding a chain or a set that exists changes nothing; a rule is appended to its chain.\<close>

fun applySetup :: "setupOp \<Rightarrow> ruleset \<Rightarrow> ruleset" where
  "applySetup (OpChain c) R =
     (if hasChain (tabName (chainTable c)) (chainName c) R then R else R\<lparr>rsChains := rsChains R @ [c]\<rparr>)"
| "applySetup (OpSet s) R =
     (if hasSet (tabName (setTable s)) (setName s) R then R else R\<lparr>rsSets := rsSets R @ [s]\<rparr>)"
| "applySetup (OpRule r) R =
     (let key = (tabName (ruleTable r), chainName (ruleChain r))
      in R\<lparr>rsRules := (rsRules R)(key := rsRules R key @ [r])\<rparr>)"

locale nft_setup =
  fixes pkg :: "'k nftPkg"
    and rs :: "'k \<Rightarrow> ruleset"
    and setupQueue :: "'k \<Rightarrow> setupOp list"
  assumes connect_frame: "nftConnect pkg k = (cr, k') \<Longrightarrow> rs k' = rs k \<and> (cr = None \<longrightarrow> setupQueue k' = [])"
    and table_frame: "ListTable pkg n k = (tr, k') \<Longrightarrow> rs k' = rs k \<and> setupQueue k' = setupQueue k"
    and table_named: "ListTable pkg n k = (Inr t, k') \<Longrightarrow> tabName t = n"
    and chain_frame: "ListChain pkg t n k = (hr, k') \<Longrightarrow> rs k' = rs k \<and> setupQueue k' = setupQueue k"
    and chain_listed: "ListChain pkg t n k = (Inr c, k') \<Longrightarrow>
      chainName c = n \<and> tabName (chainTable c) = tabName t \<and> c \<in> set (rsChains (rs k))"
    and chain_queues: "AddChain pkg c k = (c', k') \<Longrightarrow>
      c' = c \<and> rs k' = rs k \<and> setupQueue k' = setupQueue k @ [OpChain c]"
    and rules_frame: "GetRules pkg t c k = (rr, k') \<Longrightarrow> rs k' = rs k \<and> setupQueue k' = setupQueue k"
    and rules_exact: "GetRules pkg t c k = (Inr l, k') \<Longrightarrow> l = rsRules (rs k) (tabName t, chainName c)"
    and rule_queues: "rs (AddRule pkg r k) = rs k \<and> setupQueue (AddRule pkg r k) = setupQueue k @ [OpRule r]"
    and set_frame: "GetSetByName pkg t n k = (sr, k') \<Longrightarrow> rs k' = rs k \<and> setupQueue k' = setupQueue k"
    and set_listed: "GetSetByName pkg t n k = (Inr s, k') \<Longrightarrow>
      setName s = n \<and> tabName (setTable s) = tabName t \<and> s \<in> set (rsSets (rs k))"
    and set_queues: "AddSet pkg s k = (Inr s', k') \<Longrightarrow>
      (\<exists>i. s' = s\<lparr>setID := i\<rparr>) \<and> rs k' = rs k \<and> setupQueue k' = setupQueue k @ [OpSet s']"
    and set_refused: "AddSet pkg s k = (Inl e, k') \<Longrightarrow> rs k' = rs k"
    and setup_flush_empties: "connFlush pkg k = (fr, k') \<Longrightarrow> setupQueue k' = []"
    and setup_flush_applies: "connFlush pkg k = (None, k') \<Longrightarrow> rs k' = fold applySetup (setupQueue k) (rs k)"
    and setup_flush_atomic: "connFlush pkg k = (Some e, k') \<Longrightarrow> rs k' = rs k"

text \<open>Nothing that is there fails to be found: the second locale adds that the lookups answer.\<close>

locale nft_answers = nft_setup pkg rs setupQueue
  for pkg :: "'k nftPkg" and rs :: "'k \<Rightarrow> ruleset" and setupQueue :: "'k \<Rightarrow> setupOp list" +
  assumes chain_found: "hasChain (tabName t) n (rs k) \<Longrightarrow> \<exists>c k'. ListChain pkg t n k = (Inr c, k')"
    and set_found: "hasSet (tabName t) n (rs k) \<Longrightarrow> \<exists>s k'. GetSetByName pkg t n k = (Inr s, k')"
    and rules_answer: "\<exists>l k'. GetRules pkg t c k = (Inr l, k')"

section \<open>What the start does to the ruleset\<close>

abbreviation marked :: "nftRule \<Rightarrow> bool" where
  "marked r \<equiv> UserData r = internalNFTMark"

definition dnatRule :: "nftTable \<Rightarrow> nftChain \<Rightarrow> nftSet \<Rightarrow> nftRule" where
  "dnatRule t c st = \<lparr>ruleTable = t, ruleChain = c, UserData = internalNFTMark, Exprs = dnatExprs st\<rparr>"

lemma marked_dnatRule [simp]: "marked (dnatRule t c st)"
  by (simp add: dnatRule_def)

lemma hasChain_in: "c \<in> set (rsChains R) \<Longrightarrow> hasChain (tabName (chainTable c)) (chainName c) R"
  by (auto simp: hasChain_def list_ex_iff)

lemma hasSet_in: "s \<in> set (rsSets R) \<Longrightarrow> hasSet (tabName (setTable s)) (setName s) R"
  by (auto simp: hasSet_def list_ex_iff)

lemma has_applied:
  "hasChain (tabName (chainTable c)) (chainName c) (applySetup (OpChain c) R)"
  "hasSet (tabName (setTable s)) (setName s) (applySetup (OpSet s) R)"
  by (simp_all add: hasChain_def hasSet_def)

lemma hasChain_set [simp]: "hasChain t n (applySetup (OpSet s) R) = hasChain t n R"
  by (simp add: hasChain_def)

lemma rules_kept [simp]:
  "rsRules (applySetup (OpChain c) R) = rsRules R" "rsRules (applySetup (OpSet s) R) = rsRules R"
  by simp_all

context nft_setup
begin

lemma initializeChain_spec:
  assumes "initializeChain pkg n t k = (Inr c, k')" and "setupQueue k = []"
  shows "setupQueue k' = [] \<and> chainName c = n \<and> tabName (chainTable c) = tabName t \<and>
    rs k' = applySetup (OpChain c) (rs k)"
proof -
  obtain lr k1 where l: "ListChain pkg t n k = (lr, k1)" by (rule prod.exhaust)
  note frame = chain_frame [OF l]
  show ?thesis
  proof (cases lr)
    case (Inr d)
    with assms(1) l have "c = d" "k' = k1" by (simp_all add: initializeChain_def)
    with Inr l chain_listed [of t n k d k1] frame assms(2) hasChain_in [of d "rs k"] show ?thesis by auto
  next
    case (Inl e)
    let ?c = "\<lparr>chainName = n, chainTable = t, chainType = Some ChainTypeNAT,
      Hooknum = Some ChainHookPrerouting, Priority = Some ChainPriorityFilter\<rparr>"
    obtain c1 k2 where a: "AddChain pkg ?c k1 = (c1, k2)" by (rule prod.exhaust)
    with assms(1) l Inl have f: "connFlush pkg k2 = (None, k')" "c = c1"
      by (auto simp: initializeChain_def split: prod.splits option.splits)
    with chain_queues [OF a] frame assms(2) setup_flush_empties [OF f(1)] setup_flush_applies [OF f(1)]
    show ?thesis by auto
  qed
qed

lemma initializeSet_spec:
  assumes "initializeSet pkg n t k = (Inr st, k')" and "setupQueue k = []"
  shows "setupQueue k' = [] \<and> setName st = n \<and> tabName (setTable st) = tabName t \<and>
    rs k' = applySetup (OpSet st) (rs k)"
proof -
  obtain gr k1 where g: "GetSetByName pkg t n k = (gr, k1)" by (rule prod.exhaust)
  note frame = set_frame [OF g]
  show ?thesis
  proof (cases gr)
    case (Inr s)
    with assms(1) g have "st = s" "k' = k1" by (simp_all add: initializeSet_def)
    with Inr g set_listed [of t n k s k1] frame assms(2) hasSet_in [of s "rs k"] show ?thesis by auto
  next
    case (Inl e)
    let ?s = "\<lparr>setTable = t, setName = n, setID = 0, IsMap = True, KeyType = TypeIPAddr,
      DataType = TypeIPAddr, Comment = internalNFTMark\<rparr>"
    from assms(1) g Inl obtain k2 where a: "AddSet pkg ?s k1 = (Inr st, k2)" and f: "connFlush pkg k2 = (None, k')"
      by (auto simp: initializeSet_def split: prod.splits option.splits sum.splits)
    with set_queues [OF a] frame assms(2) setup_flush_empties [OF f] setup_flush_applies [OF f]
    show ?thesis by auto
  qed
qed

lemma initializeRule_spec:
  assumes "initializeRule pkg st t c k = (None, k')" and "setupQueue k = []"
  shows "setupQueue k' = [] \<and>
    (rs k' = rs k \<and> (\<exists>r \<in> set (rsRules (rs k) (tabName t, chainName c)). marked r) \<or>
     rs k' = applySetup (OpRule (dnatRule t c st)) (rs k) \<and>
       (list_ex marked (rsRules (rs k) (tabName t, chainName c)) \<longrightarrow> (\<exists>e k1. GetRules pkg t c k = (Inl e, k1))))"
proof -
  obtain gr k1 where g: "GetRules pkg t c k = (gr, k1)" by (rule prod.exhaust)
  note frame = rules_frame [OF g]
  show ?thesis
  proof (cases "list_ex marked (case gr of Inl _ \<Rightarrow> [] | Inr r \<Rightarrow> r)")
    case True
    then obtain l where l: "gr = Inr l" "list_ex marked l" by (cases gr) auto
    with g have "l = rsRules (rs k) (tabName t, chainName c)" by (simp add: rules_exact)
    moreover have "k' = k1" using assms(1) g l by (simp add: initializeRule_def Let_def)
    ultimately show ?thesis using frame assms(2) l(2) by (auto simp: list_ex_iff)
  next
    case False
    with assms(1) g have f: "connFlush pkg (AddRule pkg (dnatRule t c st) k1) = (None, k')"
      by (simp add: initializeRule_def Let_def dnatRule_def)
    have "gr \<noteq> Inr (rsRules (rs k) (tabName t, chainName c)) \<Longrightarrow> \<exists>e. gr = Inl e"
      using g rules_exact by (cases gr) auto
    with False have "list_ex marked (rsRules (rs k) (tabName t, chainName c)) \<longrightarrow> (\<exists>e k1. GetRules pkg t c k = (Inl e, k1))"
      using g by (cases "gr = Inr (rsRules (rs k) (tabName t, chainName c))") auto
    moreover have "rs k' = applySetup (OpRule (dnatRule t c st)) (rs k)"
      using setup_flush_applies [OF f] rule_queues [of "dnatRule t c st" k1] frame assms(2) by simp
    ultimately show ?thesis using setup_flush_empties [OF f] by simp
  qed
qed

lemma NewNftManager_spec:
  assumes "NewNftManager pkg ch sn k = (Inr st, k')"
  obtains t c k1 where "tabName t = ''nat''" and "chainName c = ch" and "tabName (chainTable c) = ''nat''"
    and "setName st = sn" and "tabName (setTable st) = ''nat''" and "setupQueue k' = []"
    and "rs k1 = applySetup (OpSet st) (applySetup (OpChain c) (rs k))"
    and "rs k' = rs k1 \<and> (\<exists>r \<in> set (rsRules (rs k) (''nat'', ch)). marked r) \<or>
      rs k' = applySetup (OpRule (dnatRule t c st)) (rs k1) \<and>
        (list_ex marked (rsRules (rs k) (''nat'', ch)) \<longrightarrow> (\<exists>e k2. GetRules pkg t c k1 = (Inl e, k2)))"
proof -
  from assms obtain k0 where k0: "nftConnect pkg k = (None, k0)"
    by (auto simp: NewNftManager_def split: prod.splits option.splits)
  from assms k0 obtain t kt where t: "ListTable pkg ''nat'' k0 = (Inr t, kt)"
    by (auto simp: NewNftManager_def split: prod.splits sum.splits)
  from assms k0 t obtain c kc where c: "initializeChain pkg ch t kt = (Inr c, kc)"
    by (auto simp: NewNftManager_def split: prod.splits sum.splits)
  from assms k0 t c obtain ks where st: "initializeSet pkg sn t kc = (Inr st, ks)"
    and r: "initializeRule pkg st t c ks = (None, k')"
    by (auto simp: NewNftManager_def split: prod.splits sum.splits option.splits)
  have q: "setupQueue kt = []" "rs kt = rs k" "tabName t = ''nat''"
    using connect_frame [OF k0] table_frame [OF t] table_named [OF t] by simp_all
  note cs = initializeChain_spec [OF c q(1)]
  then have ss: "setupQueue ks = [] \<and> setName st = sn \<and> tabName (setTable st) = tabName t \<and>
      rs ks = applySetup (OpSet st) (rs kc)"
    using initializeSet_spec [OF st] by simp
  then have "setupQueue ks = []" by simp
  note rl = initializeRule_spec [OF r this]
  have "rsRules (rs ks) (tabName t, chainName c) = rsRules (rs k) (''nat'', ch)"
    using cs ss q by (simp only: rules_kept)
  with cs ss q rl show thesis by (intro that [of t c ks]) auto
qed

end

section \<open>What the kernel does with a packet\<close>

text \<open>
  A packet is the bytes from its network header on. An expression changes the registers, ends the
  rule without effect, or ends the chain with a verdict. \<open>E\<close> has the elements of the named sets, \<open>ext\<close> says
  what the other expressions do.
\<close>

datatype verdict = TranslateTo bytes | OtherVerdict bytes

datatype step = Continue "nat \<Rightarrow> bytes" | Break | Verdict verdict

type_synonym ext = "bytes \<Rightarrow> bytes \<Rightarrow> (nat \<Rightarrow> bytes) \<Rightarrow> step"

fun runExpr :: "ext \<Rightarrow> (bytes \<Rightarrow> kernelSet) \<Rightarrow> bytes \<Rightarrow> expr \<Rightarrow> (nat \<Rightarrow> bytes) \<Rightarrow> step" where
  "runExpr ext E pkt Counter reg = Continue reg"
| "runExpr ext E pkt (Payload p) reg =
     (if OperationType p = PayloadLoad \<and> Base p = PayloadBaseNetworkHeader \<and> Offset p + Len p \<le> length pkt
      then Continue (reg(DestRegister p := take (Len p) (drop (Offset p) pkt))) else Break)"
| "runExpr ext E pkt (Lookup l) reg =
     (case E (lookupName l) (reg (SourceRegister l)) of
        None \<Rightarrow> Break
      | Some v \<Rightarrow> Continue (if IsDestRegSet l then reg(lookupDest l := v) else reg))"
| "runExpr ext E pkt (NAT n) reg =
     (if natKind n = NATTypeDestNAT then Verdict (TranslateTo (reg (RegAddrMin n))) else Verdict (OtherVerdict []))"
| "runExpr ext E pkt (OtherExpr b) reg = ext b pkt reg"

fun runRule :: "ext \<Rightarrow> (bytes \<Rightarrow> kernelSet) \<Rightarrow> bytes \<Rightarrow> expr list \<Rightarrow> (nat \<Rightarrow> bytes) \<Rightarrow> verdict option" where
  "runRule ext E pkt [] reg = None"
| "runRule ext E pkt (x # xs) reg =
     (case runExpr ext E pkt x reg of
        Continue reg \<Rightarrow> runRule ext E pkt xs reg
      | Break \<Rightarrow> None
      | Verdict v \<Rightarrow> Some v)"

fun runChain :: "ext \<Rightarrow> (bytes \<Rightarrow> kernelSet) \<Rightarrow> bytes \<Rightarrow> nftRule list \<Rightarrow> verdict option" where
  "runChain ext E pkt [] = None"
| "runChain ext E pkt (r # rl) =
     (case runRule ext E pkt (Exprs r) (\<lambda>_. []) of None \<Rightarrow> runChain ext E pkt rl | Some v \<Rightarrow> Some v)"

definition destination :: "bytes \<Rightarrow> bytes" where
  "destination pkt = take 4 (drop 16 pkt)"

lemma runRule_dnat:
  "20 \<le> length pkt \<Longrightarrow> runRule ext E pkt (dnatExprs st) reg = map_option TranslateTo (E (setName st) (destination pkt))"
  by (simp add: dnatExprs_def destination_def split: option.split)

text \<open>A rule that was made for the map of the given name.\<close>

definition made_for :: "bytes \<Rightarrow> nftRule \<Rightarrow> bool" where
  "made_for sn r \<longleftrightarrow> (\<exists>st. setName st = sn \<and> Exprs r = dnatExprs st)"

lemma made_for_dnatRule [simp]: "made_for (setName st) (dnatRule t c st)"
  by (auto simp: made_for_def dnatRule_def)

lemma runChain_translates:
  assumes "20 \<le> length pkt" and "\<forall>r \<in> set rl. marked r \<longrightarrow> made_for sn r"
    and "\<forall>r \<in> set rl. \<not> marked r \<longrightarrow> runRule ext E pkt (Exprs r) (\<lambda>_. []) = None"
    and "\<exists>r \<in> set rl. marked r"
  shows "runChain ext E pkt rl = map_option TranslateTo (E sn (destination pkt))"
proof -
  have all: "runRule ext E pkt (Exprs r) (\<lambda>_. []) =
      (if marked r then map_option TranslateTo (E sn (destination pkt)) else None)" if "r \<in> set rl" for r
    using assms(2,3) that runRule_dnat [OF assms(1)] by (auto simp: made_for_def)
  have "runChain ext E pkt l = (if \<exists>r \<in> set l. marked r then map_option TranslateTo (E sn (destination pkt)) else None)"
    if "set l \<subseteq> set rl" for l
    using that all by (induction l) (auto split: option.split)
  from this [of rl] assms(4) show ?thesis by simp
qed

section \<open>A kernel in memory\<close>

text \<open>
  Lookups answer what is there, an operation waits in a queue, and the number of a new set is
  that of its place in the queue.
\<close>

record nftMem =
  memRules :: ruleset
  memQueue :: "setupOp list"
  memElems :: memState

definition find_first :: "('a \<Rightarrow> bool) \<Rightarrow> 'a list \<Rightarrow> error + 'a" where
  "find_first P xs = (case find P xs of None \<Rightarrow> Inl (Err ''not found'') | Some x \<Rightarrow> Inr x)"

definition lift_elems :: "('a \<times> memState) \<Rightarrow> nftMem \<Rightarrow> 'a \<times> nftMem" where
  "lift_elems x k = (fst x, k\<lparr>memElems := snd x\<rparr>)"

definition memNft :: "nftMem nftPkg" where
  "memNft =
     \<lparr>nftConnect = (\<lambda>k. (None, k\<lparr>memQueue := []\<rparr>)),
      ListTable = (\<lambda>n k. (Inr \<lparr>tabName = n\<rparr>, k)),
      ListChain = (\<lambda>t n k. (find_first (\<lambda>c. tabName (chainTable c) = tabName t \<and> chainName c = n) (rsChains (memRules k)), k)),
      AddChain = (\<lambda>c k. (c, k\<lparr>memQueue := memQueue k @ [OpChain c]\<rparr>)),
      GetRules = (\<lambda>t c k. (Inr (rsRules (memRules k) (tabName t, chainName c)), k)),
      AddRule = (\<lambda>r k. k\<lparr>memQueue := memQueue k @ [OpRule r]\<rparr>),
      GetSetByName = (\<lambda>t n k. (find_first (\<lambda>s. tabName (setTable s) = tabName t \<and> setName s = n) (rsSets (memRules k)), k)),
      AddSet = (\<lambda>s k. let s = s\<lparr>setID := word_of_nat (length (memQueue k) + 1)\<rparr>
                     in (Inr s, k\<lparr>memQueue := memQueue k @ [OpSet s]\<rparr>)),
      connFlush = (\<lambda>k. (None, k\<lparr>memRules := fold applySetup (memQueue k) (memRules k), memQueue := []\<rparr>)),
      connElements = (\<lambda>st. \<lparr>SetAddElements = (\<lambda>es k. lift_elems (SetAddElements memConn es (memElems k)) k),
         SetDeleteElements = (\<lambda>es k. lift_elems (SetDeleteElements memConn es (memElems k)) k),
         Flush = (\<lambda>k. lift_elems (Flush memConn (memElems k)) k),
         GetSetElements = (\<lambda>k. lift_elems (GetSetElements memConn (memElems k)) k),
         CloseLasting = (\<lambda>k. lift_elems (CloseLasting memConn (memElems k)) k)\<rparr>)\<rparr>"

lemma find_first_Inr: "find_first P xs = Inr x \<Longrightarrow> P x \<and> x \<in> set xs"
  by (auto simp: find_first_def find_Some_iff split: option.splits)

lemma find_first_ex: "list_ex P xs \<Longrightarrow> \<exists>x. find_first P xs = Inr x"
  by (auto simp: find_first_def find_None_iff list_ex_iff split: option.splits)

interpretation memNft: nft_setup memNft memRules memQueue
proof unfold_locales
  show "\<And>t n k c k'. ListChain memNft t n k = (Inr c, k') \<Longrightarrow>
      chainName c = n \<and> tabName (chainTable c) = tabName t \<and> c \<in> set (rsChains (memRules k))"
    by (auto simp: memNft_def dest: find_first_Inr)
  show "\<And>t n k s k'. GetSetByName memNft t n k = (Inr s, k') \<Longrightarrow>
      setName s = n \<and> tabName (setTable s) = tabName t \<and> s \<in> set (rsSets (memRules k))"
    by (auto simp: memNft_def dest: find_first_Inr)
qed (auto simp: memNft_def Let_def split: if_splits)

interpretation memNft: nft_answers memNft memRules memQueue
proof unfold_locales
  show "\<And>t n k. hasChain (tabName t) n (memRules k) \<Longrightarrow> \<exists>c k'. ListChain memNft t n k = (Inr c, k')"
    using find_first_ex by (fastforce simp: memNft_def hasChain_def)
  show "\<And>t n k. hasSet (tabName t) n (memRules k) \<Longrightarrow> \<exists>s k'. GetSetByName memNft t n k = (Inr s, k')"
    using find_first_ex by (fastforce simp: memNft_def hasSet_def)
qed (auto simp: memNft_def)

section \<open>The properties of the start\<close>

text \<open>
  C20. After the start of the nftables backend the kernel translates: an IPv4 packet that reaches the
  chain is sent to a real address exactly if its destination is the fake address of a mapping in
  the set, and it is the real address of that mapping; any other packet passes. It holds on a
  first start and on a restart over the ruleset of an earlier one, whatever calls of the package fail
  on the way, as long as the rules of the chain that bear the program's mark were made for this set and
  the others leave the packet alone.
\<close>

theorem nft_translates:
  assumes "nft_setup pkg rs queue" and "NewNftManager pkg ch sn k = (Inr st, k')" and "20 \<le> length pkt"
    and "\<forall>r \<in> set (rsRules (rs k) (''nat'', ch)). if marked r then made_for sn r
         else runRule ext E pkt (Exprs r) (\<lambda>_. []) = None"
  shows "runChain ext E pkt (rsRules (rs k') (''nat'', ch)) = map_option TranslateTo (E sn (destination pkt)) \<and>
    (\<forall>f r. destination pkt = bytes4 f \<longrightarrow>
       (\<lparr>Fake = V4 f, Real = V4 r\<rparr> \<in> rules_of (E sn) \<longleftrightarrow>
        runChain ext E pkt (rsRules (rs k') (''nat'', ch)) = Some (TranslateTo (bytes4 r))))"
proof -
  from nft_setup.NewNftManager_spec [OF assms(1,2)] obtain t c k1
    where names: "tabName t = ''nat''" "chainName c = ch" "setName st = sn"
      and k1: "rs k1 = applySetup (OpSet st) (applySetup (OpChain c) (rs k))"
      and k': "rs k' = rs k1 \<and> (\<exists>r \<in> set (rsRules (rs k) (''nat'', ch)). marked r) \<or>
        rs k' = applySetup (OpRule (dnatRule t c st)) (rs k1)"
    by metis
  let ?old = "rsRules (rs k) (''nat'', ch)" and ?new = "rsRules (rs k') (''nat'', ch)"
  have old: "rsRules (rs k1) = rsRules (rs k)" by (simp only: k1 rules_kept)
  have "made_for sn (dnatRule t c st)" using made_for_dnatRule [of st t c] names(3) by simp
  moreover have "?new = ?old \<and> (\<exists>r \<in> set ?old. marked r) \<or> ?new = ?old @ [dnatRule t c st]"
    using k' old names by (auto simp: dnatRule_def Let_def)
  ultimately have "runChain ext E pkt ?new = map_option TranslateTo (E sn (destination pkt))"
    using assms(4) by (intro runChain_translates [OF assms(3)]) (fastforce split: if_splits)+
  then show ?thesis by (simp add: rules_of_iff)
qed

definition demo_kernel :: nftMem where
  "demo_kernel = \<lparr>memRules = \<lparr>rsChains = [], rsSets = [], rsRules = (\<lambda>_. [])\<rparr>, memQueue = [], memElems = memEmpty\<rparr>"

definition demo_packet :: bytes where
  "demo_packet = replicate 16 (CHR 0x45) @ bytes4 0x0A1E0001"

lemma demo_start: "\<exists>st k'. NewNftManager memNft ''CH'' ''SET'' demo_kernel = (Inr st, k')"
  by (simp add: NewNftManager_def initializeChain_def initializeSet_def initializeRule_def memNft_def demo_kernel_def
      find_first_def Let_def)

lemma nft_translates_witness:
  "\<exists>st k'. NewNftManager memNft ''CH'' ''SET'' demo_kernel = (Inr st, k') \<and>
     runChain (\<lambda>b p reg. Break) (\<lambda>s. mem_kset demo_set) demo_packet (rsRules (memRules k') (''nat'', ''CH'')) =
       Some (TranslateTo (bytes4 0x0A1E0002))"
proof -
  obtain st k' where s: "NewNftManager memNft ''CH'' ''SET'' demo_kernel = (Inr st, k')" using demo_start by blast
  have l: "20 \<le> length demo_packet" by (simp add: demo_packet_def)
  have "\<forall>r \<in> set (rsRules (memRules demo_kernel) (''nat'', ''CH'')). if marked r then made_for ''SET'' r
      else runRule (\<lambda>b p reg. Break) (\<lambda>s. mem_kset demo_set) demo_packet (Exprs r) (\<lambda>_. []) = None"
    by (simp add: demo_kernel_def)
  note out = nft_translates [OF memNft.nft_setup_axioms s l this]
  have "destination demo_packet = bytes4 0x0A1E0001" by (simp add: destination_def demo_packet_def)
  moreover have "mem_kset demo_set (bytes4 0x0A1E0001) = Some (bytes4 0x0A1E0002)"
    by (simp add: mem_kset_def demo_set_def)
  ultimately show ?thesis using out s by simp
qed

text \<open>
  A restart changes nothing in the kernel: when the program starts again with the same names over
  the ruleset that its last start left, and the package finds the chain, the set and the
  rules, the ruleset stays as it is; in particular the rule is not doubled.
\<close>

lemma nft_restart:
  assumes "nft_answers pkg rs queue" and "NewNftManager pkg ch sn k = (Inr st, k1)"
    and "rs k2 = rs k1" and "NewNftManager pkg ch sn k2 = (Inr st', k3)"
  shows "rs k3 = rs k1"
proof -
  have laws: "nft_setup pkg rs queue" using assms(1) by (simp add: nft_answers_def)
  from nft_setup.NewNftManager_spec [OF laws assms(2)] obtain t c ka
    where names: "tabName t = ''nat''" "chainName c = ch" "tabName (chainTable c) = ''nat''" "setName st = sn"
      "tabName (setTable st) = ''nat''"
      and ka: "rs ka = applySetup (OpSet st) (applySetup (OpChain c) (rs k))"
      and k1: "rs k1 = rs ka \<and> (\<exists>r \<in> set (rsRules (rs k) (''nat'', ch)). marked r) \<or>
        rs k1 = applySetup (OpRule (dnatRule t c st)) (rs ka)"
    by metis
  have old: "rsRules (rs ka) = rsRules (rs k)" by (simp only: ka rules_kept)
  have has: "hasChain ''nat'' ch (rs ka) \<and> hasSet ''nat'' sn (rs ka)"
    using has_applied(1) [of c "rs k"] has_applied(2) [of st "applySetup (OpChain c) (rs k)"] names
    by (simp only: ka hasChain_set)
  have has1: "hasChain ''nat'' ch (rs k1) \<and> hasSet ''nat'' sn (rs k1) \<and> list_ex marked (rsRules (rs k1) (''nat'', ch))"
    using k1
  proof
    assume "rs k1 = rs ka \<and> (\<exists>r \<in> set (rsRules (rs k) (''nat'', ch)). marked r)"
    then show ?thesis using has old by (auto simp: list_ex_iff)
  next
    assume "rs k1 = applySetup (OpRule (dnatRule t c st)) (rs ka)"
    then show ?thesis using has names by (auto simp: hasChain_def hasSet_def dnatRule_def Let_def)
  qed
  from nft_setup.NewNftManager_spec [OF laws assms(4)] obtain t' c' kb
    where names': "tabName t' = ''nat''" "chainName c' = ch" "tabName (chainTable c') = ''nat''" "setName st' = sn"
      "tabName (setTable st') = ''nat''"
      and kb: "rs kb = applySetup (OpSet st') (applySetup (OpChain c') (rs k2))"
      and k3: "rs k3 = rs kb \<or>
        rs k3 = applySetup (OpRule (dnatRule t' c' st')) (rs kb) \<and>
        (list_ex marked (rsRules (rs k2) (''nat'', ch)) \<longrightarrow> (\<exists>e k4. GetRules pkg t' c' kb = (Inl e, k4)))"
    by metis
  have "rs kb = rs k1" using kb has1 names' assms(3) by simp
  moreover have "\<not> (\<exists>e k4. GetRules pkg t' c' kb = (Inl e, k4))"
    using nft_answers.rules_answer [OF assms(1), of t' c' kb] by auto
  ultimately show ?thesis using k3 has1 assms(3) by auto
qed

lemma nft_restart_witness:
  "\<exists>st k1 st' k3. NewNftManager memNft ''CH'' ''SET'' demo_kernel = (Inr st, k1) \<and>
     NewNftManager memNft ''CH'' ''SET'' k1 = (Inr st', k3) \<and> memRules k3 = memRules k1"
proof -
  obtain st k1 where s: "NewNftManager memNft ''CH'' ''SET'' demo_kernel = (Inr st, k1)" using demo_start by blast
  have "\<exists>st' k3. NewNftManager memNft ''CH'' ''SET'' k1 = (Inr st', k3)"
  proof -
    obtain e k3 where "NewNftManager memNft ''CH'' ''SET'' k1 = (e, k3)" by (rule prod.exhaust)
    moreover have "\<exists>x. e = Inr x"
      using calculation
      by (auto simp: NewNftManager_def initializeChain_def initializeSet_def initializeRule_def memNft_def Let_def
          split: prod.splits sum.splits if_splits)
    ultimately show ?thesis by blast
  qed
  with s nft_restart [OF memNft.nft_answers_axioms s refl] show ?thesis by blast
qed

text \<open>
  The program knows its rule by the mark alone. Where the chain has a rule of an earlier start with another
  set, a start with a new set leaves it as it is, and no packet is translated by the new set: its
  fake addresses lead nowhere, whatever is in it.
\<close>

lemma nft_stale_rule:
  assumes "nft_answers pkg rs queue" and "NewNftManager pkg ch sn k = (Inr st, k')" and "20 \<le> length pkt"
    and "rsRules (rs k) (''nat'', ch) = [dnatRule t c old]"
  shows "runChain ext E pkt (rsRules (rs k') (''nat'', ch)) = map_option TranslateTo (E (setName old) (destination pkt))"
proof -
  have laws: "nft_setup pkg rs queue" using assms(1) by (simp add: nft_answers_def)
  from nft_setup.NewNftManager_spec [OF laws assms(2)] obtain t' c' k1
    where k1: "rs k1 = applySetup (OpSet st) (applySetup (OpChain c') (rs k))"
      and k': "rs k' = rs k1 \<or> (list_ex marked (rsRules (rs k) (''nat'', ch)) \<longrightarrow> (\<exists>e k2. GetRules pkg t' c' k1 = (Inl e, k2)))"
    by metis
  have "\<not> (\<exists>e k2. GetRules pkg t' c' k1 = (Inl e, k2))"
    using nft_answers.rules_answer [OF assms(1), of t' c' k1] by auto
  then have "rs k' = rs k1" using k' assms(4) by simp
  then have "rsRules (rs k') = rsRules (rs k)" by (simp only: k1 rules_kept)
  then show ?thesis using runRule_dnat [OF assms(3)] by (simp add: assms(4) dnatRule_def split: option.split)
qed

end
