(* ===== verification/Program.thy ===== *)
theory Program
  imports Service Nft_Init
begin

text \<open>
  The program, \<open>src/cmd/antizapret-go.go\<close>, with \<open>src/log/log.go\<close> and the backends on systems other
  than Linux: the choice of the firewall backend, the start, the listeners, and the phases until the exit
  as a step relation over the server. \<open>host\<close> has what the program asks of its surroundings: the
  packages of the backends, the YAML reader, the formats of the validator, the number of processors, and
  \<open>UnmarshalText\<close> of the log level. The DNS listeners are those of the package \<open>dns\<close>.
\<close>

section \<open>The firewall backend\<close>

datatype platform = Linux | OtherOS

text \<open>The constructors in the files for Linux and in those for other systems, whose manager does nothing.\<close>

definition nftNew :: "platform \<Rightarrow> 'w nftPkg \<Rightarrow> bytes \<Rightarrow> bytes \<Rightarrow> 'w \<Rightarrow> (error + 'w manager) \<times> 'w" where
  "nftNew p pkg chName stName w =
     (case p of
        Linux \<Rightarrow> apfst (map_sum id (\<lambda>st. nftManager (connElements pkg st))) (NewNftManager pkg chName stName w)
      | OtherOS \<Rightarrow> (Inr noop, w))"

definition iptNew :: "platform \<Rightarrow> 'w iptPkg \<Rightarrow> bytes \<Rightarrow> bytes \<Rightarrow> 'w \<Rightarrow> (error + 'w manager) \<times> 'w" where
  "iptNew p pkg chName fakeCIDR w =
     (case p of Linux \<Rightarrow> NewIptManager pkg chName fakeCIDR w | OtherOS \<Rightarrow> (Inr noop, w))"

record ('y, 'w) host =
  hPlatform :: platform
  hNft :: "'w nftPkg"
  hIpt :: "'w iptPkg"
  hYaml :: "'y yamlPkg"
  hFormats :: formats
  hNumCPU :: nat
  hSetLevel :: "bytes \<Rightarrow> error option"

definition newFirewall :: "('y, 'w) host \<Rightarrow> cfgFirewall \<Rightarrow> bytes \<Rightarrow> 'w \<Rightarrow> (error + 'w manager) \<times> 'w" where
  "newFirewall H c fakeCIDR w =
     (if Backend c = BackendIPTables then iptNew (hPlatform H) (hIpt H) (fwChain c) fakeCIDR w
      else if Backend c = BackendNFT \<or> Backend c = [] then nftNew (hPlatform H) (hNft H) (fwChain c) (fwSet c) w
      else if Backend c = BackendNoop then (Inr noop, w)
      else (Inl (Err ''unknown firewall backend''), w))"

text \<open>
  The validation asks for the name of the set if the backend is \<open>nft\<close>, and not if it is empty, which means the same:
  then the name of the set may be empty, too.
\<close>

lemma empty_backend_no_set:
  "validFirewall \<lparr>Backend = [], fwSet = [], fwChain = ''C'', fwTTL = 1\<rparr> \<and>
   newFirewall H \<lparr>Backend = [], fwSet = [], fwChain = ''C'', fwTTL = 1\<rparr> cidr w = nftNew (hPlatform H) (hNft H) ''C'' [] w"
  by (simp add: validFirewall_def omitempty_def newFirewall_def BackendNFT_def BackendIPTables_def)

section \<open>The listeners\<close>

definition intString :: "int \<Rightarrow> bytes" where
  "intString i = (if i < 0 then ''-'' @ decimal (nat (- i)) else decimal (nat i))"

definition bindAddr :: "Bind \<Rightarrow> bytes" where
  "bindAddr u = Address u @ '':'' @ intString (Port u)"

definition wildcard :: "Bind \<Rightarrow> bool" where
  "wildcard u \<longleftrightarrow> Address u = [] \<or> Address u = ''0.0.0.0'' \<or> Address u = ''::''"

definition listenersPerBinding :: "nat \<Rightarrow> AntizapretConfig \<Rightarrow> nat" where
  "listenersPerBinding ncpu cfg = (if Processes cfg \<le> 0 then ncpu else nat (Processes cfg))"

definition listeners :: "nat \<Rightarrow> AntizapretConfig \<Rightarrow> (bytes \<times> bytes) list" where
  "listeners ncpu cfg =
     concat (map (\<lambda>u. replicate (listenersPerBinding ncpu cfg) (bindAddr u, Protocol u)) (Bindings cfg))"

section \<open>The start\<close>

record flags =
  flagConfig :: bytes
  flagHelp :: bool
  flagDefaultConfig :: bool

datatype message = PrintDefault | PrintUsage | LogWarn bytes error | LogFatal bytes error

text \<open>The process ends with a code, or it has a configuration, a server, and the environment with
  the backend that was chosen. \<open>log.Fatalw\<close> ends the process with code 1.\<close>

datatype 'r started = ExitCode int | Running AntizapretConfig 'r

definition ReadConfig :: "('y, 'w) host \<Rightarrow> world \<Rightarrow> bytes \<Rightarrow> bytes \<Rightarrow> AntizapretConfig \<Rightarrow> error + AntizapretConfig" where
  "ReadConfig H W configFilename defaultText global =
     readConfig (hYaml H) (hFormats H) W configFilename defaultText global"

definition SetSeverity :: "('y, 'w) host \<Rightarrow> bytes \<Rightarrow> error option" where
  "SetSeverity H severity = hSetLevel H severity"

definition startMain ::
  "('c, 'n, 'q, 'h, 'w, 'b, 'f, 're) env \<Rightarrow> ('y, 'w) host \<Rightarrow> time \<Rightarrow> world \<Rightarrow> bytes \<Rightarrow> AntizapretConfig \<Rightarrow>
   flags \<Rightarrow> 'w \<Rightarrow> fs \<Rightarrow>
   (('c, 'n, 'q, 'h, 'w, 'b, 'f, 're) env \<times> ('c, 'w, 're, 'f) Server) started \<times> message list \<times> fs"
where
  "startMain E H now W defaultText global fl w s =
     (if flagDefaultConfig fl then (ExitCode 0, [PrintDefault], s)
      else if flagHelp fl then (ExitCode 1, [PrintUsage], s)
      else
     (case ReadConfig H W (flagConfig fl) defaultText global of
        Inl err \<Rightarrow> (ExitCode 1, [LogFatal ''Error reading config'' err], s)
      | Inr cfg \<Rightarrow>
     (let warn = (case SetSeverity H (LoggingSeverity cfg) of
                    None \<Rightarrow> [] | Some err \<Rightarrow> [LogWarn ''invalid logging_severity, using default'' err])
      in case newFirewall H (FirewallCfg cfg) (FakeCIDR cfg) w of
        (Inl err, w) \<Rightarrow> (ExitCode 1, warn @ [LogFatal ''Error creating firewall backend'' err], s)
      | (Inr mgr, w) \<Rightarrow>
     (let m = (if MetricsAddress cfg \<noteq> [] then Some NewMetrics else None);
          E = E\<lparr>eManager := mgr\<rparr>
      in case NewServer E now W cfg w m s of
        (Inl err, s) \<Rightarrow> (ExitCode 1, warn @ [LogFatal ''Error creating server'' err], s)
      | (Inr srv, s) \<Rightarrow> (Running cfg (E, srv), warn, s)))))"

text \<open>\<open>log.Sync\<close> at the end: whether the failure is printed. A terminal that cannot be synced is none.\<close>

definition ENOTTY :: error where "ENOTTY = Err ''inappropriate ioctl for device''"

definition logSync :: "error option \<Rightarrow> bool" where
  "logSync res = (case res of None \<Rightarrow> False | Some err \<Rightarrow> \<not> errors_is err ENOTTY)"

section \<open>The end\<close>

definition shutdownTimeout :: duration where "shutdownTimeout = 5 * seconds"

text \<open>
  \<open>shutdownServers\<close>, given how long the \<open>Shutdown\<close> of each listener takes, if it ever returns: whether all of
  them have stopped, and how long it waits.
\<close>

definition shutdownServers :: "duration option list \<Rightarrow> bool \<times> duration" where
  "shutdownServers ds =
     (if list_all (\<lambda>d. \<exists>t. d = Some t \<and> t \<le> shutdownTimeout) ds then (True, Max (insert 0 (set (map the ds))))
      else (False, shutdownTimeout))"

section \<open>The phases\<close>

datatype phase = Waiting | Serving | Stopping | Exited

record ('c, 'n, 'w, 're, 'f) program =
  pServer :: "('c, 'w, 're, 'f) Server"
  pNet :: 'n
  pFs :: fs
  pLooping :: bool
  pCancelled :: bool
  pPhase :: phase
  pListeners :: "(bytes \<times> bytes) list"

definition launch :: "('c, 'w, 're, 'f) Server \<Rightarrow> 'n \<Rightarrow> fs \<Rightarrow> ('c, 'n, 'w, 're, 'f) program" where
  "launch srv n s =
     \<lparr>pServer = srv, pNet = n, pFs = s, pLooping = False, pCancelled = False, pPhase = Waiting, pListeners = []\<rparr>"

text \<open>
  The steps of \<open>main\<close> and of the goroutines that it starts. \<open>serve\<close> is the return of \<open>WaitReady\<close> and
  the start of the listeners; \<open>cancel\<close> is a signal, or a listener that fails; the queries in flight
  when the context ends may still be answered until the process exits.
\<close>

inductive prog_step ::
  "('c, 'n, 'q, 'h, 'w, 'b, 'f, 're) env \<Rightarrow> AntizapretConfig \<Rightarrow> nat \<Rightarrow> time \<Rightarrow>
   ('c, 'n, 'w, 're, 'f) program \<Rightarrow> ('c, 'n, 'w, 're, 'f) program \<Rightarrow> bool"
  for E cfg ncpu now
where
  query: "pPhase p = Serving \<or> pPhase p = Stopping \<Longrightarrow>
    DNSHandler E now took udp r (pServer p) (pNet p) = (reply, srv, n) \<Longrightarrow>
    prog_step E cfg ncpu now p (p\<lparr>pServer := srv, pNet := n\<rparr>)"
| tick: "pPhase p \<noteq> Exited \<Longrightarrow> key_order ks (table (sMapper (pServer p))) \<Longrightarrow>
    prog_step E cfg ncpu now p (p\<lparr>pServer := cleanTick E now ks (pServer p)\<rparr>)"
| first: "pPhase p \<noteq> Exited \<Longrightarrow> \<not> pLooping p \<Longrightarrow> firstRebuild E took W (pServer p) (pFs p) = (srv, s) \<Longrightarrow>
    prog_step E cfg ncpu now p (p\<lparr>pServer := srv, pFs := s, pLooping := True\<rparr>)"
| reload: "pPhase p \<noteq> Exited \<Longrightarrow> pLooping p \<Longrightarrow> rebuild E took W (pServer p) (pFs p) = (srv, s) \<Longrightarrow>
    prog_step E cfg ncpu now p (p\<lparr>pServer := srv, pFs := s\<rparr>)"
| cancel: "prog_step E cfg ncpu now p (p\<lparr>pCancelled := True\<rparr>)"
| serve: "pPhase p = Waiting \<Longrightarrow> WaitReady (pServer p) \<or> pCancelled p \<Longrightarrow>
    prog_step E cfg ncpu now p (p\<lparr>pPhase := Serving, pListeners := listeners ncpu cfg\<rparr>)"
| stop: "pPhase p = Serving \<Longrightarrow> pCancelled p \<Longrightarrow> prog_step E cfg ncpu now p (p\<lparr>pPhase := Stopping\<rparr>)"
| exit: "pPhase p = Stopping \<Longrightarrow> Close E (pServer p) = (err, srv) \<Longrightarrow>
    prog_step E cfg ncpu now p (p\<lparr>pServer := srv, pPhase := Exited\<rparr>)"

inductive prog_run ::
  "('c, 'n, 'q, 'h, 'w, 'b, 'f, 're) env \<Rightarrow> AntizapretConfig \<Rightarrow> nat \<Rightarrow> time \<Rightarrow>
   ('c, 'n, 'w, 're, 'f) program \<Rightarrow> time \<Rightarrow> ('c, 'n, 'w, 're, 'f) program \<Rightarrow> bool"
  for E cfg ncpu t0 p
where
  start: "prog_run E cfg ncpu t0 p t0 p"
| step: "prog_run E cfg ncpu t0 p t q \<Longrightarrow> t \<le> now \<Longrightarrow> prog_step E cfg ncpu now q r \<Longrightarrow> prog_run E cfg ncpu t0 p now r"

inductive_cases prog_stepE: "prog_step E cfg ncpu now p q"

section \<open>The program refines the server\<close>

abbreviation served_state :: "('c, 'n, 'w, 're, 'f) program \<Rightarrow> ('c, 'n, 'w, 're, 'f) state" where
  "served_state p \<equiv> (pServer p, pNet p, pFs p)"

lemma prog_step_server:
  "prog_step E cfg ncpu now p q \<Longrightarrow> pPhase q \<noteq> Exited \<Longrightarrow>
     served_state q = served_state p \<or> server_step E now (served_state p) (served_state q)"
  by (erule prog_stepE) (auto intro: server_step.intros)

lemma exited_stays: "prog_step E cfg ncpu now p q \<Longrightarrow> pPhase p = Exited \<Longrightarrow> pPhase q = Exited"
  by (erule prog_stepE) auto

lemma prog_run_time: "prog_run E cfg ncpu t0 p t q \<Longrightarrow> t0 \<le> t"
  by (induction rule: prog_run.induct) auto

lemma prog_run_server:
  assumes "prog_run E cfg ncpu t0 p t q" and "pPhase q \<noteq> Exited"
  shows "\<exists>t' \<le> t. server_run E t0 (served_state p) t' (served_state q)"
  using assms
proof (induction rule: prog_run.induct)
  case (step t q now r)
  have "pPhase q \<noteq> Exited" using step.hyps(3) step.prems exited_stays by blast
  with step.IH obtain t' where t': "t' \<le> t" "server_run E t0 (served_state p) t' (served_state q)" by blast
  show ?case
  proof (cases "served_state r = served_state q")
    case True
    show ?thesis unfolding True by (intro exI [of _ t'] conjI order_trans [OF t'(1) step.hyps(2)] t'(2))
  next
    case False
    with prog_step_server [OF step.hyps(3) step.prems] have "server_step E now (served_state q) (served_state r)" by blast
    note server_run.step [OF t'(2) order_trans [OF t'(1) step.hyps(2)] this]
    then show ?thesis by blast
  qed
qed (blast intro: server_run.start)

section \<open>No query before the matcher\<close>

lemma handler_ready:
  "DNSHandler E now took udp r srv n = (reply, srv', n') \<Longrightarrow> sWarm srv' = sWarm srv \<and> sRebuildReady srv' = sRebuildReady srv"
  by (erule handler_cases) (simp_all add: observeRequest_def)

lemma rebuild_ready:
  "rebuild E took W srv s = (srv', s') \<Longrightarrow> sWarm srv' = sWarm srv \<and> sRebuildReady srv' = sRebuildReady srv"
  unfolding rebuild_def by (simp split: prod.splits) auto

lemma firstRebuild_ready:
  "firstRebuild E took W srv s = (srv', s') \<Longrightarrow> sWarm srv' = sWarm srv \<and> sRebuildReady srv'"
  using rebuild_ready unfolding firstRebuild_def by (fastforce split: prod.splits)

lemma cleanTick_ready [simp]:
  "sWarm (cleanTick E now ks srv) = sWarm srv" "sRebuildReady (cleanTick E now ks srv) = sRebuildReady srv"
  by (simp_all add: cleanTick_def split: prod.split)

definition phase_inv :: "nat \<Rightarrow> AntizapretConfig \<Rightarrow> ('c, 'n, 'w, 're, 'f) program \<Rightarrow> bool" where
  "phase_inv ncpu cfg p \<longleftrightarrow> (pPhase p \<noteq> Exited \<longrightarrow> pLooping p = sRebuildReady (pServer p)) \<and>
     pListeners p = (if pPhase p = Waiting then [] else listeners ncpu cfg) \<and>
     (pPhase p = Serving \<or> pPhase p = Stopping \<longrightarrow> pCancelled p \<or> WaitReady (pServer p)) \<and>
     (pPhase p = Stopping \<or> pPhase p = Exited \<longrightarrow> pCancelled p)"

lemma phase_inv_step:
  assumes "prog_step E cfg ncpu now p q" and "phase_inv ncpu cfg p"
  shows "phase_inv ncpu cfg q"
  using assms(1)
proof cases
  case (query took udp r reply srv n)
  with assms(2) handler_ready [OF query(3)] show ?thesis by (auto simp: phase_inv_def WaitReady_def)
next
  case (first took W srv s)
  with assms(2) firstRebuild_ready [OF first(4)] show ?thesis by (auto simp: phase_inv_def WaitReady_def)
next
  case (reload took W srv s)
  with assms(2) rebuild_ready [OF reload(4)] show ?thesis by (auto simp: phase_inv_def WaitReady_def)
qed (use assms(2) in \<open>auto simp: phase_inv_def WaitReady_def\<close>)

lemma phase_inv_run: "prog_run E cfg ncpu t0 p t q \<Longrightarrow> phase_inv ncpu cfg p \<Longrightarrow> phase_inv ncpu cfg q"
  by (induction rule: prog_run.induct) (auto intro: phase_inv_step)

lemma sWarm_run: "prog_run E cfg ncpu t0 p t q \<Longrightarrow> sWarm (pServer q) = sWarm (pServer p)"
proof (induction rule: prog_run.induct)
  case (step t q now r)
  from step.hyps(3) have "sWarm (pServer r) = sWarm (pServer q)"
    by (cases) (auto simp: Close_def dest: handler_ready rebuild_ready firstRebuild_ready split: prod.splits)
  with step.IH show ?case by simp
qed simp

lemma startMain_parts:
  assumes "startMain E H now W txt g fl w s = (Running cfg (E1, srv), msgs, s')"
  obtains mgr w1 s1 where "readConfig (hYaml H) (hFormats H) W (flagConfig fl) txt g = Inr cfg"
    and "newFirewall H (FirewallCfg cfg) (FakeCIDR cfg) w = (Inr mgr, w1)" and "E1 = E\<lparr>eManager := mgr\<rparr>"
    and "NewServer E1 now W cfg w1 (if MetricsAddress cfg \<noteq> [] then Some NewMetrics else None) s = (Inr srv, s')"
  using assms
  by (auto simp: startMain_def ReadConfig_def Let_def split: if_splits sum.splits prod.splits)

lemma NewServer_notReady: "NewServer E now W cfg w m s = (Inr srv, s') \<Longrightarrow> \<not> sRebuildReady srv"
  by (auto simp: NewServer_def Let_def split: sum.splits prod.splits)

lemma count_replicate: "count_list (replicate n x) y = (if x = y then n else 0)"
  by (induction n) auto

lemma listeners_count:
  "count_list (listeners ncpu cfg) x =
     listenersPerBinding ncpu cfg * count_list (map (\<lambda>u. (bindAddr u, Protocol u)) (Bindings cfg)) x"
proof -
  have "count_list (concat (map (\<lambda>u. replicate n (g u)) us)) x = n * count_list (map g us) x"
    for n and g :: "Bind \<Rightarrow> bytes \<times> bytes" and us
    by (induction us) (auto simp: count_list_append count_replicate)
  then show ?thesis by (simp add: listeners_def)
qed

text \<open>
  C7. The program, from its command line to its exit. Once it runs, its configuration is a valid one, and whatever
  queries, signals, ticks, reloads and failing listeners come: the mappings are distinct and each
  has its rule in force; no record that leads past the remapping is cached; no listener is started
  before a matcher is loaded or the first rebuild has ended, unless the program is to end, and then each
  binding gets its number of listeners, with its address and protocol, and there are no others; this number is one at least
  on a machine with a processor; and a server that found a matcher at its start never loses it. It rests on the contract of the backend that the
  configuration chooses, of the cache and of the package for messages, and on no property of the configuration.
\<close>

theorem program_safe:
  assumes "startMain E H t0 W txt g fl w s = (Running cfg (E1, srv0), msgs, s0)"
    and "\<forall>mgr w1. newFirewall H (FirewallCfg cfg) (FakeCIDR cfg) w = (Inr mgr, w1) \<longrightarrow> firewall_manager mgr rules idle \<and> idle w1"
    and "ttl_cache (eTTL E) items" and "only_drops (eTruncate E)" and "\<forall>k d. items (eNewTTL E k d) = Map.empty"
    and "prog_run E1 cfg (hNumCPU H) t0 (launch srv0 n0 s0) t p" and "pPhase p \<noteq> Exited"
  shows "validConfig (hFormats H) cfg \<and>
    inj_on (fake_of (table (sMapper (pServer p)))) (dom (table (sMapper (pServer p)))) \<and>
    rules_for (fake_of (table (sMapper (pServer p)))) \<subseteq> rules (fw (sMapper (pServer p))) \<and>
    (\<forall>k m e. items (cCache (sCache (pServer p))) k = Some (m, e) \<longrightarrow> cacheable m \<and> clean m) \<and>
    (pListeners p \<noteq> [] \<longrightarrow> (pCancelled p \<or> serverReady (pServer p) \<or> sRebuildReady (pServer p)) \<and>
       (\<forall>x. count_list (pListeners p) x = listenersPerBinding (hNumCPU H) cfg *
          count_list (map (\<lambda>u. (bindAddr u, Protocol u)) (Bindings cfg)) x)) \<and>
    (0 < hNumCPU H \<longrightarrow> 0 < listenersPerBinding (hNumCPU H) cfg \<and> Bindings cfg \<noteq> []) \<and>
    (sWarm srv0 \<longrightarrow> serverReady (pServer p))"
proof -
  from startMain_parts [OF assms(1)] obtain mgr w1
    where cfg: "readConfig (hYaml H) (hFormats H) W (flagConfig fl) txt g = Inr cfg"
      and "newFirewall H (FirewallCfg cfg) (FakeCIDR cfg) w = (Inr mgr, w1)" and E1: "E1 = E\<lparr>eManager := mgr\<rparr>"
      and new: "NewServer E1 t0 W cfg w1 (if MetricsAddress cfg \<noteq> [] then Some NewMetrics else None) s = (Inr srv0, s0)"
    by metis
  with assms(2) have fm: "firewall_manager (eManager E1) rules idle" and "idle w1" by simp_all
  have valid: "validConfig (hFormats H) cfg" by (rule readConfig_valid [OF cfg])
  then have ttls: "0 < MinTTL (CacheCfg cfg)" "MinTTL (CacheCfg cfg) \<le> MaxTTL (CacheCfg cfg)"
    by (simp_all add: validConfig_def validCache_def)
  have parts: "ttl_cache (eTTL E1) items" "only_drops (eTruncate E1)" "\<forall>k d. items (eNewTTL E1 k d) = Map.empty"
    using assms(3-5) by (simp_all add: E1)
  from prog_run_server [OF assms(6,7)] obtain t' where "server_run E1 t0 (srv0, n0, s0) t' (served_state p)"
    by (auto simp: launch_def)
  note keeps = service_keeps [OF fm parts ttls \<open>idle w1\<close> new this]
  have "phase_inv (hNumCPU H) cfg (launch srv0 n0 s0)"
    using NewServer_notReady [OF new] by (simp add: phase_inv_def launch_def)
  from phase_inv_run [OF assms(6) this] have inv: "phase_inv (hNumCPU H) cfg p" .
  have "sWarm (pServer p) = sWarm srv0" using sWarm_run [OF assms(6)] by (simp add: launch_def)
  then have "pListeners p \<noteq> [] \<longrightarrow> (pCancelled p \<or> serverReady (pServer p) \<or> sRebuildReady (pServer p)) \<and>
       (\<forall>x. count_list (pListeners p) x = listenersPerBinding (hNumCPU H) cfg *
          count_list (map (\<lambda>u. (bindAddr u, Protocol u)) (Bindings cfg)) x)"
    using inv keeps assms(7) by (cases "pPhase p") (auto simp: phase_inv_def WaitReady_def listeners_count)
  moreover have "0 < hNumCPU H \<longrightarrow> 0 < listenersPerBinding (hNumCPU H) cfg \<and> Bindings cfg \<noteq> []"
    using valid by (auto simp: validConfig_def listenersPerBinding_def)
  ultimately show ?thesis using keeps valid by blast
qed

text \<open>A host on which the set and the chain are there already, with the state of the theory \<open>Nft_Manager\<close>.\<close>

definition demo_nft :: "memState nftPkg" where
  "demo_nft =
     \<lparr>nftConnect = (\<lambda>k. (None, k)), ListTable = (\<lambda>n k. (Inr \<lparr>tabName = n\<rparr>, k)),
      ListChain = (\<lambda>t n k. (Inr \<lparr>chainName = n, chainTable = t, chainType = None, Hooknum = None, Priority = None\<rparr>, k)),
      AddChain = Pair,
      GetRules = (\<lambda>t c k. (Inr [\<lparr>ruleTable = t, ruleChain = c, UserData = internalNFTMark, Exprs = []\<rparr>], k)),
      AddRule = (\<lambda>r k. k),
      GetSetByName = (\<lambda>t n k. (Inr \<lparr>setTable = t, setName = n, setID = 0, IsMap = True, KeyType = TypeIPAddr,
        DataType = TypeIPAddr, Comment = internalNFTMark\<rparr>, k)),
      AddSet = (\<lambda>st k. (Inr st, k)), connFlush = (\<lambda>k. (None, k)), connElements = (\<lambda>st. memConn)\<rparr>"

definition demo_host :: "(unit, memState) host" where
  "demo_host =
     \<lparr>hPlatform = Linux, hNft = demo_nft, hIpt = \<lparr>ipInit = Pair None, ipChainExists = (\<lambda>t c. Pair (Inr True)),
        ipNewChain = (\<lambda>t c. Pair None), ipAppendUnique = (\<lambda>t c r. Pair None), ipDeleteIfExists = (\<lambda>t c r. Pair None),
        ipList = (\<lambda>t c. Pair (Inr [])), ipV6 = (\<lambda>a z. [])\<rparr>,
      hYaml = demo_yaml\<lparr>populate := (\<lambda>y c. Inr demo_cfg)\<rparr>, hFormats = demo_formats, hNumCPU = 2, hSetLevel = (\<lambda>l. None)\<rparr>"

definition demo_flags :: flags where
  "demo_flags = \<lparr>flagConfig = [], flagHelp = False, flagDefaultConfig = False\<rparr>"

lemma demo_cfg_valid: "validConfig demo_formats demo_cfg"
  using default_valid by (simp add: demo_cfg_def validConfig_def validPolicy_def)

lemma demo_cfg_parts:
  "FirewallCfg demo_cfg = \<lparr>Backend = BackendNFT, fwSet = ''ANTIZAPRET_SET'', fwChain = ''ANTIZAPRET_CHAIN'', fwTTL = 300 * seconds\<rparr>"
  "MetricsAddress demo_cfg = []" "length (Bindings demo_cfg) = 1" "Processes demo_cfg = 0"
  by (simp_all add: demo_cfg_def AntizapretDefault_def BackendNFT_def)

lemma demo_newFirewall: "newFirewall demo_host (FirewallCfg demo_cfg) cidr w = (Inr demo_mgr, w)"
  by (simp add: newFirewall_def demo_host_def demo_cfg_parts nftNew_def NewNftManager_def initializeChain_def
      initializeSet_def initializeRule_def demo_nft_def demo_mgr_def BackendNFT_def BackendIPTables_def)

lemma demo_env_self: "demo_env\<lparr>eManager := demo_mgr\<rparr> = demo_env"
  by (simp add: demo_env_def)

lemma demo_startMain:
  "\<exists>srv s. startMain demo_env demo_host 0 demo_world [] AntizapretDefault demo_flags memEmpty demo_fs =
     (Running demo_cfg (demo_env, srv), [], s)"
proof -
  have "readConfig (hYaml demo_host) (hFormats demo_host) demo_world [] [] AntizapretDefault = Inr demo_cfg"
    by (simp add: readConfig_def demo_host_def demo_yaml_def demo_cfg_valid)
  moreover have "hSetLevel demo_host l = None" for l by (simp add: demo_host_def)
  moreover obtain srv s where "NewServer demo_env 0 demo_world demo_cfg memEmpty None demo_fs = (Inr srv, s)"
    using demo_NewServer by blast
  ultimately show ?thesis
    by (simp add: startMain_def ReadConfig_def SetSeverity_def demo_flags_def demo_newFirewall demo_cfg_parts(2) demo_env_self Let_def)
qed

lemma program_safe_witness:
  "\<exists>srv s p. startMain demo_env demo_host 0 demo_world [] AntizapretDefault demo_flags memEmpty demo_fs =
       (Running demo_cfg (demo_env, srv), [], s) \<and>
     prog_run demo_env demo_cfg (hNumCPU demo_host) 0 (launch srv 0 s) 7 p \<and>
     count_list (pListeners p) (bindAddr (hd (Bindings demo_cfg)), Protocol (hd (Bindings demo_cfg))) = 2 \<and>
     rules_for (fake_of (table (sMapper (pServer p)))) \<subseteq> rules_of (mem_kset (fw (sMapper (pServer p))))"
proof -
  obtain srv s where main: "startMain demo_env demo_host 0 demo_world [] AntizapretDefault demo_flags memEmpty demo_fs =
      (Running demo_cfg (demo_env, srv), [], s)" using demo_startMain by blast
  let ?p0 = "launch srv (0 :: nat) s"
  let ?p1 = "?p0\<lparr>pCancelled := True\<rparr>"
  let ?p2 = "?p1\<lparr>pPhase := Serving, pListeners := listeners (hNumCPU demo_host) demo_cfg\<rparr>"
  have "prog_run demo_env demo_cfg (hNumCPU demo_host) 0 ?p0 3 ?p1"
    by (rule prog_run.step [OF prog_run.start _ prog_step.cancel]) simp
  then have run: "prog_run demo_env demo_cfg (hNumCPU demo_host) 0 ?p0 7 ?p2"
    by (rule prog_run.step [OF _ _ prog_step.serve]) (simp_all add: launch_def)
  have contract: "\<forall>mgr w1. newFirewall demo_host (FirewallCfg demo_cfg) (FakeCIDR demo_cfg) memEmpty = (Inr mgr, w1) \<longrightarrow>
      firewall_manager mgr (\<lambda>s. rules_of (mem_kset s)) (\<lambda>s. batch s = []) \<and> batch w1 = []"
    by (simp add: demo_newFirewall demo.firewall_manager_axioms) (simp add: memEmpty_def)
  have tc: "ttl_cache (eTTL demo_env) map_of" "\<forall>k d. map_of (eNewTTL demo_env k d) = Map.empty"
    by (simp_all add: memCache.ttl_cache_axioms) (simp add: demo_env_def)
  have cpu: "hNumCPU demo_host = 2" by (simp add: demo_host_def)
  have "pPhase ?p2 \<noteq> Exited" by simp
  note out = program_safe [OF main contract tc(1) demo_drops tc(2) run this]
  have "rules_for (fake_of (table (sMapper (pServer ?p2)))) \<subseteq> rules_of (mem_kset (fw (sMapper (pServer ?p2))))"
    by (rule conjunct1 [OF conjunct2 [OF conjunct2 [OF out]]])
  moreover have "count_list (pListeners ?p2) (bindAddr (hd (Bindings demo_cfg)), Protocol (hd (Bindings demo_cfg))) = 2"
  proof -
    obtain u where u: "Bindings demo_cfg = [u]" using demo_cfg_parts(3) by (auto simp: length_Suc_conv)
    have two: "listenersPerBinding (hNumCPU demo_host) demo_cfg = 2"
      by (simp add: demo_cfg_parts listenersPerBinding_def cpu)
    then have "pListeners ?p2 \<noteq> []" by (simp add: listeners_def u)
    with out two show ?thesis by (simp add: u)
  qed
  ultimately show ?thesis using main run by blast
qed

section \<open>The addresses of the listeners\<close>

text \<open>\<open>net.SplitHostPort\<close>, through which every listener's address goes.\<close>

definition tooManyColons :: error where "tooManyColons = Err ''too many colons in address''"

definition SplitHostPort :: "bytes \<Rightarrow> error + bytes \<times> bytes" where
  "SplitHostPort s =
     (case cutLast (CHR '':'') s of
        None \<Rightarrow> Inl (Err ''missing port in address'')
      | Some (before, port) \<Rightarrow>
          if prefix ''['' s then
            (if before \<noteq> [] \<and> last before = CHR '']'' \<and> CHR '']'' \<notin> set (butlast before) \<and> CHR '']'' \<notin> set port
                \<and> CHR ''['' \<notin> set (tl s)
             then Inr (tl (butlast before), port) else Inl (Err ''malformed address''))
          else if CHR '':'' \<in> set before then Inl tooManyColons
          else if CHR ''['' \<in> set s \<or> CHR '']'' \<in> set s then Inl (Err ''unexpected bracket in address'')
          else Inr (before, port))"

lemma intString_chars: "c \<in> set (intString i) \<Longrightarrow> c \<noteq> CHR '':'' \<and> c \<noteq> CHR ''['' \<and> c \<noteq> CHR '']''"
  using decimal_digits [of c] by (auto simp: intString_def split: if_splits)

lemma bindAddr_cut: "cutLast (CHR '':'') (bindAddr u) = Some (Address u, intString (Port u))"
proof -
  have "CHR '':'' \<notin> set (intString (Port u))" using intString_chars by blast
  from cutLast_app [OF this] show ?thesis by (simp add: bindAddr_def)
qed

lemma bindAddr_bracket: "prefix ''['' (bindAddr u) \<longleftrightarrow> prefix ''['' (Address u)"
  by (cases "Address u") (simp_all add: bindAddr_def)

lemma bindAddr_split:
  "SplitHostPort (bindAddr u) = Inr (Address u, intString (Port u)) \<longleftrightarrow>
     set (Address u) \<inter> {CHR '':'', CHR ''['', CHR '']''} = {}"
proof (cases "prefix ''['' (Address u)")
  case True
  then have "CHR ''['' \<in> set (Address u)" by (auto simp: prefix_def)
  moreover have "tl (butlast (Address u)) \<noteq> Address u"
  proof
    assume "tl (butlast (Address u)) = Address u"
    then have "length (tl (butlast (Address u))) = length (Address u)" by simp
    with True show False by (auto simp: prefix_def)
  qed
  ultimately show ?thesis using True by (auto simp: SplitHostPort_def bindAddr_cut bindAddr_bracket)
next
  case False
  have "CHR ''['' \<in> set (bindAddr u) \<longleftrightarrow> CHR ''['' \<in> set (Address u)"
    "CHR '']'' \<in> set (bindAddr u) \<longleftrightarrow> CHR '']'' \<in> set (Address u)"
    using intString_chars by (auto simp: bindAddr_def)
  with False show ?thesis by (auto simp: SplitHostPort_def bindAddr_cut bindAddr_bracket)
qed

lemma bindAddr_colons:
  "CHR '':'' \<in> set (Address u) \<Longrightarrow> \<not> prefix ''['' (Address u) \<Longrightarrow> SplitHostPort (bindAddr u) = Inl tooManyColons"
  by (simp add: SplitHostPort_def bindAddr_cut bindAddr_bracket)

text \<open>
  C40. The address text of a listener is split back into the address and the port of its binding exactly if the
  address has no colon and no bracket. And the configuration does not see to that: in a valid configuration, the
  address of a binding may be replaced by any text that the format \<open>ip\<close> accepts, and if that has a
  colon and does not start with a bracket, like all IPv6 addresses, the configuration is valid still, and among
  the listeners of the program is one whose text \<open>net.SplitHostPort\<close> refuses for its colons.
\<close>

theorem bind_address:
  assumes "validConfig v cfg" and "Bindings cfg = bs @ u # us"
    and "isIP v a" and "CHR '':'' \<in> set a" and "\<not> prefix ''['' a" and "0 < ncpu"
  shows "(\<forall>b. SplitHostPort (bindAddr b) = Inr (Address b, intString (Port b)) \<longleftrightarrow>
       set (Address b) \<inter> {CHR '':'', CHR ''['', CHR '']''} = {}) \<and>
    validConfig v (cfg\<lparr>Bindings := bs @ u\<lparr>Address := a\<rparr> # us\<rparr>) \<and>
    (\<exists>x \<in> set (listeners ncpu (cfg\<lparr>Bindings := bs @ u\<lparr>Address := a\<rparr> # us\<rparr>)).
       SplitHostPort (fst x) = Inl tooManyColons)"
proof -
  let ?u = "u\<lparr>Address := a\<rparr>"
  have "validBind v u" using assms(1,2) by (simp add: validConfig_def)
  then have "validBind v ?u" using assms(3) by (simp add: validBind_def omitempty_def)
  then have "validConfig v (cfg\<lparr>Bindings := bs @ ?u # us\<rparr>)" using assms(1,2) by (simp add: validConfig_def)
  moreover have "0 < listenersPerBinding ncpu (cfg\<lparr>Bindings := bs @ ?u # us\<rparr>)"
    using assms(6) by (simp add: listenersPerBinding_def)
  then have "(bindAddr ?u, Protocol ?u) \<in> set (listeners ncpu (cfg\<lparr>Bindings := bs @ ?u # us\<rparr>))"
    by (simp add: listeners_def)
  moreover have "SplitHostPort (bindAddr ?u) = Inl tooManyColons" using assms(4,5) by (simp add: bindAddr_colons)
  ultimately show ?thesis using bindAddr_split by (metis fst_conv)
qed

lemma bind_address_witness:
  "wildcard ((hd (Bindings demo_cfg))\<lparr>Address := ''::''\<rparr>) \<and>
   validConfig (demo_formats\<lparr>isIP := \<lambda>s. isIP demo_formats s \<or> s = ''::''\<rparr>)
     (demo_cfg\<lparr>Bindings := [(hd (Bindings demo_cfg))\<lparr>Address := ''::''\<rparr>]\<rparr>) \<and>
   (\<exists>x \<in> set (listeners 2 (demo_cfg\<lparr>Bindings := [(hd (Bindings demo_cfg))\<lparr>Address := ''::''\<rparr>]\<rparr>)).
      SplitHostPort (fst x) = Inl tooManyColons)"
proof -
  let ?v = "demo_formats\<lparr>isIP := \<lambda>s. isIP demo_formats s \<or> s = ''::''\<rparr>"
  have "Bindings demo_cfg = [] @ hd (Bindings demo_cfg) # []"
    using demo_cfg_parts(3) by (cases "Bindings demo_cfg") simp_all
  moreover have "validBind demo_formats b \<Longrightarrow> validBind ?v b" for b
    by (auto simp: validBind_def omitempty_def)
  then have "validConfig ?v demo_cfg"
    using demo_cfg_valid by (auto simp: validConfig_def validUpstream_def validPolicy_def validMatcher_def list_all_iff)
  moreover have "isIP ?v ''::''" by simp
  ultimately show ?thesis
    using bind_address [of ?v demo_cfg "[]" "hd (Bindings demo_cfg)" "[]" "''::''" 2] by (simp add: wildcard_def)
qed

section \<open>Readiness\<close>

lemma server_run_ready: "server_run E t0 x t y \<Longrightarrow> serverReady (fst x) \<Longrightarrow> serverReady (fst y)"
proof (induction rule: server_run.induct)
  case (step t y now z)
  from step.hyps(3) have "serverReady (fst y) \<Longrightarrow> serverReady (fst z)"
    by cases (auto simp: serverReady_def cleanTick_def split: prod.splits
        dest: handler_router rebuild_frame [unfolded serverReady_def] firstRebuild_frame [unfolded serverReady_def])
  with step show ?case by simp
qed

text \<open>
  What the program says of its state is true: the path for readiness answers 200 exactly while a
  matcher is loaded, and 503 otherwise, the gauge says the same, and neither falls back for as
  long as the server runs; the other gauges are the numbers of mappings, of addresses, and of cached replies.
\<close>

lemma ready_reported:
  assumes "server_run E t0 (srv, n, s) t (srv', n', s')"
  shows "httpStatus (metricsHandler ex ver (serverReady srv') ''/readyz'') = (if rM (sRouter srv') = None then 503 else 200) \<and>
    (httpStatus (metricsHandler ex ver (serverReady srv) ''/readyz'') = 200 \<longrightarrow>
       httpStatus (metricsHandler ex ver (serverReady srv') ''/readyz'') = 200) \<and>
    map_of (RegisterState (stateSource E srv')) ''antizapret_ready'' = Some (if rM (sRouter srv') = None then 0 else 1) \<and>
    map_of (RegisterState (stateSource E srv')) ''antizapret_mapper_active_mappings'' = Some (ActiveMappings srv') \<and>
    map_of (RegisterState (stateSource E srv')) ''antizapret_mapper_pool_capacity'' = Some (PoolCapacity srv') \<and>
    map_of (RegisterState (stateSource E srv')) ''antizapret_dns_cache_size'' = Some (CacheSize (eTTL E) srv')"
proof -
  have "serverReady srv \<longrightarrow> serverReady srv'" using server_run_ready [OF assms] by simp
  then have "rM (sRouter srv') = None \<longrightarrow> rM (sRouter srv) = None" unfolding serverReady_def Ready_def by blast
  then show ?thesis
    by (simp add: metricsHandler_def RegisterState_def registerGauge_def stateSource_def namespace_def
        serverReady_def Ready_def)
qed

lemma ready_reported_witness:
  "httpStatus (metricsHandler \<lparr>httpStatus = 200, httpBody = []\<rparr> [] (serverReady demo_server) ''/readyz'') = 200"
  using ready_reported [OF server_run.start [of demo_env 0 "(demo_server, 0, demo_fs)"], of "\<lparr>httpStatus = 200, httpBody = []\<rparr>" "[]"]
  by (simp add: demo_server_def)

section \<open>The loops\<close>

text \<open>A whole call of \<open>PolicyRebuilder\<close> with an accepted interval is a run of the server.\<close>

lemma rebuilderLoop_run:
  "rebuilderLoop E evs srv s = (srv', s') \<Longrightarrow> server_run E t0 x t (srv, n, s) \<Longrightarrow> server_run E t0 x t (srv', n, s')"
proof (induction E evs srv s rule: rebuilderLoop.induct)
  case (3 E took W evs srv s)
  obtain srv1 s1 where r: "rebuild E took W srv s = (srv1, s1)" by (rule prod.exhaust)
  from server_run.step [OF 3(3) order_refl server_step.reload [OF r]] 3 r show ?case by simp
next
  case (4 E took W evs srv s)
  obtain srv1 s1 where r: "rebuild E took W srv s = (srv1, s1)" by (rule prod.exhaust)
  from server_run.step [OF 4(3) order_refl server_step.reload [OF r]] 4 r show ?case by simp
qed auto

lemma PolicyRebuilder_run:
  assumes "0 < interval" and "PolicyRebuilder E interval took W evs srv s = (res, s')"
  shows "\<exists>srv'. res = Inr srv' \<and> server_run E t0 (srv, n, s) t0 (srv', n, s') \<and> sRebuildReady srv'"
proof -
  obtain srv1 s1 where f: "firstRebuild E took W srv s = (srv1, s1)" by (rule prod.exhaust)
  obtain srv2 s2 where l: "rebuilderLoop E evs srv1 s1 = (srv2, s2)" by (rule prod.exhaust)
  have ready: "rebuilderLoop E evs srv s = (srv', s') \<Longrightarrow> sRebuildReady srv' = sRebuildReady srv" for srv s srv' s'
    by (induction E evs srv s rule: rebuilderLoop.induct) (auto split: prod.splits dest: rebuild_ready)
  have "server_run E t0 (srv, n, s) t0 (srv1, n, s1)"
    by (rule server_run.step [OF server_run.start order_refl server_step.first [OF f]])
  from rebuilderLoop_run [OF l this] show ?thesis
    using assms f l ready [OF l] firstRebuild_ready [OF f] by (auto simp: PolicyRebuilder_def NewTicker_def)
qed

end
