(* ===== verification/Mapper_Concurrent.thy ===== *)
theory Mapper_Concurrent
  imports Mapper_Properties
begin

text \<open>
  The mapper under concurrency: \<open>src/server/mapper/ipmap.go\<close> with one step for each part that a lock
  makes atomic, in any order. \<open>Map\<close> is called by all queries at once; the calls for one address that miss
  the table share a flight of \<open>singleflight\<close>, and the flights of different addresses, and the
  one cleaning round that holds \<open>cleanMu\<close>, interleave at every step: the table, the pool and the backend
  each lock for one operation only. The operations of the table, the pool and the backend are
  those of the sequential model; one operation of the backend is one step, as its contract speaks of
  whole operations.
\<close>

section \<open>States and steps\<close>

text \<open>
  Where a flight is: before its own lookup, after it, with an address but no rule, with a rule but
  no mapping, with an address to give back, and with the result that all its callers get.
\<close>

datatype flight = Began | Missed | Leased u32 | Ruled u32 | Refused u32 error | Landed "error + u32"

text \<open>Where the cleaning round is: not running, before \<open>Delete\<close>, and in the loop that releases.\<close>

datatype cleaning = Idle | Deleting "pair list" | Releasing "pair list"

text \<open>
  \<open>answers\<close> is a history: what calls of \<open>Map\<close> return, for which address, and the instant at which it was
  settled, by a hit of the table or by the flight for all who wait for it. No step depends on it.
\<close>

record 'w cstate =
  cMapper :: "'w ipMapper"
  flights :: "u32 \<rightharpoonup> flight"
  cleaner :: cleaning
  answers :: "(time \<times> u32 \<times> (error + u32)) list"

text \<open>
  The steps at one instant. A call of \<open>Map\<close> that finds the mapping is the step \<open>hit\<close>; another takes off,
  if its address has no flight, or waits for the flight that there is.
\<close>

inductive c_step :: "'w manager \<Rightarrow> time \<Rightarrow> 'w cstate \<Rightarrow> 'w cstate \<Rightarrow> bool" for mgr now where
  hit: "tget now r (table (cMapper s)) = (Some f, t) \<Longrightarrow>
    c_step mgr now s (s\<lparr>cMapper := (cMapper s)\<lparr>table := t\<rparr>, answers := (now, r, Inr f) # answers s\<rparr>)"
| take_off: "flights s r = None \<Longrightarrow> c_step mgr now s (s\<lparr>flights := (flights s)(r \<mapsto> Began)\<rparr>)"
| look_hit: "flights s r = Some Began \<Longrightarrow> tget now r (table (cMapper s)) = (Some f, t) \<Longrightarrow>
    c_step mgr now s (s\<lparr>cMapper := (cMapper s)\<lparr>table := t\<rparr>, flights := (flights s)(r \<mapsto> Landed (Inr f)),
      answers := (now, r, Inr f) # answers s\<rparr>)"
| look_miss: "flights s r = Some Began \<Longrightarrow> tget now r (table (cMapper s)) = (None, t) \<Longrightarrow>
    c_step mgr now s (s\<lparr>flights := (flights s)(r \<mapsto> Missed)\<rparr>)"
| full: "flights s r = Some Missed \<Longrightarrow> allocate (pool (cMapper s)) = (None, p) \<Longrightarrow>
    c_step mgr now s (s\<lparr>cMapper := (cMapper s)\<lparr>pool := p\<rparr>, flights := (flights s)(r \<mapsto> Landed (Inl errNoFreeIPs)),
      answers := (now, r, Inl errNoFreeIPs) # answers s\<rparr>)"
| lease: "flights s r = Some Missed \<Longrightarrow> allocate (pool (cMapper s)) = (Some f, p) \<Longrightarrow>
    c_step mgr now s (s\<lparr>cMapper := (cMapper s)\<lparr>pool := p\<rparr>, flights := (flights s)(r \<mapsto> Leased f)\<rparr>)"
| add_ok: "flights s r = Some (Leased f) \<Longrightarrow>
    mAdd mgr \<lparr>Fake = Uint32ToAddr f, Real = V4 r\<rparr> (fw (cMapper s)) = (None, w) \<Longrightarrow>
    c_step mgr now s (s\<lparr>cMapper := (cMapper s)\<lparr>fw := w\<rparr>, flights := (flights s)(r \<mapsto> Ruled f)\<rparr>)"
| add_err: "flights s r = Some (Leased f) \<Longrightarrow>
    mAdd mgr \<lparr>Fake = Uint32ToAddr f, Real = V4 r\<rparr> (fw (cMapper s)) = (Some e, w) \<Longrightarrow>
    c_step mgr now s (s\<lparr>cMapper := (cMapper s)\<lparr>fw := w\<rparr>, flights := (flights s)(r \<mapsto> Refused f e)\<rparr>)"
| give_back: "flights s r = Some (Refused f e) \<Longrightarrow>
    c_step mgr now s (s\<lparr>cMapper := (cMapper s)\<lparr>pool := release f (pool (cMapper s))\<rparr>,
      flights := (flights s)(r \<mapsto> Landed (Inl e)), answers := (now, r, Inl e) # answers s\<rparr>)"
| enter: "flights s r = Some (Ruled f) \<Longrightarrow>
    c_step mgr now s (s\<lparr>cMapper := (cMapper s)\<lparr>table := tset now r f (table (cMapper s))\<rparr>,
      flights := (flights s)(r \<mapsto> Landed (Inr f)), answers := (now, r, Inr f) # answers s\<rparr>)"
| land: "flights s r = Some (Landed res) \<Longrightarrow> c_step mgr now s (s\<lparr>flights := (flights s)(r := None)\<rparr>)"
| expire: "cleaner s = Idle \<Longrightarrow> key_order ks (table (cMapper s)) \<Longrightarrow>
    expired now (ttl (cMapper s)) ks (table (cMapper s)) = (ex, t) \<Longrightarrow>
    c_step mgr now s (s\<lparr>cMapper := (cMapper s)\<lparr>table := t\<rparr>, cleaner := Deleting (pending (cMapper s) @ ex)\<rparr>)"
| nothing: "cleaner s = Deleting [] \<Longrightarrow>
    c_step mgr now s (s\<lparr>cMapper := (cMapper s)\<lparr>pending := []\<rparr>, cleaner := Idle\<rparr>)"
| delete_err: "cleaner s = Deleting items \<Longrightarrow> items \<noteq> [] \<Longrightarrow>
    mDelete mgr (map rule_of_pair items) (fw (cMapper s)) = (Some e, w) \<Longrightarrow>
    c_step mgr now s (s\<lparr>cMapper := (cMapper s)\<lparr>fw := w, pending := items\<rparr>, cleaner := Idle\<rparr>)"
| delete_ok: "cleaner s = Deleting items \<Longrightarrow> items \<noteq> [] \<Longrightarrow>
    mDelete mgr (map rule_of_pair items) (fw (cMapper s)) = (None, w) \<Longrightarrow>
    c_step mgr now s (s\<lparr>cMapper := (cMapper s)\<lparr>fw := w\<rparr>, cleaner := Releasing items\<rparr>)"
| release: "cleaner s = Releasing (p # ps) \<Longrightarrow>
    c_step mgr now s (s\<lparr>cMapper := (cMapper s)\<lparr>pool := release (pfake p) (pool (cMapper s))\<rparr>, cleaner := Releasing ps\<rparr>)"
| finished: "cleaner s = Releasing [] \<Longrightarrow>
    c_step mgr now s (s\<lparr>cMapper := (cMapper s)\<lparr>pending := []\<rparr>, cleaner := Idle\<rparr>)"

inductive c_run :: "'w manager \<Rightarrow> time \<Rightarrow> 'w cstate \<Rightarrow> time \<Rightarrow> 'w cstate \<Rightarrow> bool" for mgr t0 s0 where
  start: "c_run mgr t0 s0 t0 s0"
| step: "c_run mgr t0 s0 t s \<Longrightarrow> t \<le> now \<Longrightarrow> c_step mgr now s s' \<Longrightarrow> c_run mgr t0 s0 now s'"

definition calm_start :: "'w ipMapper \<Rightarrow> 'w cstate" where
  "calm_start m = \<lparr>cMapper = m, flights = Map.empty, cleaner = Idle, answers = []\<rparr>"

section \<open>The view of the sequential mapper\<close>

text \<open>
  What a flight holds counts like a mapping, and what the round has still to release like a pair that
  is to be deleted: so seen, the state is one of the sequential mapper.
\<close>

fun holding :: "flight \<Rightarrow> u32 option" where
  "holding (Leased f) = Some f"
| "holding (Ruled f) = Some f"
| "holding (Refused f e) = Some f"
| "holding _ = None"

definition held :: "(u32 \<rightharpoonup> flight) \<Rightarrow> (u32 \<rightharpoonup> u32)" where
  "held F r = Option.bind (F r) holding"

fun owed_by :: "cleaning \<Rightarrow> pair list \<Rightarrow> pair list" where
  "owed_by Idle ps = ps"
| "owed_by (Deleting items) ps = items"
| "owed_by (Releasing items) ps = items"

definition owed :: "'w cstate \<Rightarrow> pair list" where
  "owed s = owed_by (cleaner s) (pending (cMapper s))"

definition both :: "'w cstate \<Rightarrow> mappingTable" where
  "both s r = (case held (flights s) r of None \<Rightarrow> table (cMapper s) r | Some f \<Rightarrow> Some \<lparr>mfake = f, lastSeen = 0\<rparr>)"

definition view :: "'w cstate \<Rightarrow> 'w ipMapper" where
  "view s = (cMapper s)\<lparr>table := both s, pending := owed s\<rparr>"

text \<open>A flight that has missed is the only one to enter a mapping of its address.\<close>

definition missed :: "flight \<Rightarrow> bool" where
  "missed x \<longleftrightarrow> (case x of Began \<Rightarrow> False | Landed res \<Rightarrow> False | _ \<Rightarrow> True)"

lemma missed_simps [simp]:
  "\<not> missed Began" "missed Missed" "missed (Leased f)" "missed (Ruled f)" "missed (Refused f e)" "\<not> missed (Landed res)"
  by (simp_all add: missed_def)

definition conc_inv :: "'w cstate \<Rightarrow> bool" where
  "conc_inv s \<longleftrightarrow> mapper_inv (view s) \<and>
     (\<forall>r x. flights s r = Some x \<longrightarrow> missed x \<longrightarrow> fake_of (table (cMapper s)) r = None)"

lemma fake_of_both: "fake_of (both s) = fake_of (table (cMapper s)) ++ held (flights s)"
  by (auto simp: fake_of_def both_def map_add_def fun_eq_iff split: option.splits)

lemma held_upd: "held (F(r \<mapsto> x)) = (held F)(r := holding x)"
  by (auto simp: held_def fun_eq_iff)

lemma held_del: "held (F(r := None)) = (held F)(r := None)"
  by (auto simp: held_def fun_eq_iff)

lemma holding_missed: "holding x = Some f \<Longrightarrow> missed x"
  by (cases x) auto

lemma mapper_inv_cong:
  assumes "mapper_inv m" and "fake_of (table m') = fake_of (table m)" and "pool m' = pool m" and "pending m' = pending m"
  shows "mapper_inv m'"
proof -
  have "dom (table m') = dom (table m)" using assms(2) dom_fake_of by metis
  then show ?thesis using assms by (simp add: mapper_inv_def pending_fakes_def)
qed

text \<open>Giving back the address of a mapping, or of a pair that waits.\<close>

lemma drop_inv:
  assumes "mapper_inv m" and "fake_of (table m) r = Some f" and "fake_of t = (fake_of (table m))(r := None)"
  shows "mapper_inv (m\<lparr>table := t, pool := release f (pool m)\<rparr>)"
proof -
  have "f \<in> leased (pool m)" using assms(1,2) by (rule fake_leased)
  note p = pool.rel_leased [OF mapper_inv_pool [OF assms(1)] this]
  have ft: "fake_of t x = Some g \<longleftrightarrow> fake_of (table m) x = Some g \<and> x \<noteq> r" for x g by (simp add: assms(3))
  have dom: "dom t \<subseteq> dom (table m)"
    using dom_fake_of [of t] dom_fake_of [of "table m"] assms(3) by auto
  have ran: "ran (fake_of t) = ran (fake_of (table m)) - {f}"
    using fakes_distinct [OF assms(1)] assms(2) by (auto simp: ran_def ft)
  have "inj_on (fake_of t) (dom t)"
  proof (rule inj_onI)
    fix x y assume "x \<in> dom t" and eq: "fake_of t x = fake_of t y"
    then obtain g where g: "fake_of t x = Some g" by (auto simp: fake_of_def)
    with eq have "fake_of t y = Some g" by simp
    with g show "x = y" unfolding ft using fakes_distinct [OF assms(1)] by blast
  qed
  moreover have "f \<notin> set (pending_fakes m)" using assms(1,2) by (auto simp: mapper_inv_def ran_def)
  ultimately show ?thesis
    using assms(1) p ran finite_subset [OF dom] by (auto simp: mapper_inv_def pending_fakes_def)
qed

lemma paid_inv:
  assumes "mapper_inv m" and "pending m = p # ps"
  shows "mapper_inv (m\<lparr>pending := ps, pool := release (pfake p) (pool m)\<rparr>)"
proof -
  have "pfake p \<in> leased (pool m)" using assms by (simp add: mapper_inv_def pending_fakes_def)
  note r = pool.rel_leased [OF mapper_inv_pool [OF assms(1)] this]
  show ?thesis using assms r by (auto simp: mapper_inv_def pending_fakes_def)
qed

section \<open>Every step keeps the invariant\<close>

lemma view_simps [simp]:
  "pool (view s) = pool (cMapper s)" "pending (view s) = owed s" "fw (view s) = fw (cMapper s)"
  "fake_of (table (view s)) = fake_of (table (cMapper s)) ++ held (flights s)"
  by (simp_all add: view_def fake_of_both)

lemma conc_free:
  "conc_inv s \<Longrightarrow> flights s r = Some x \<Longrightarrow> missed x \<Longrightarrow> fake_of (table (cMapper s)) r = None"
  by (simp add: conc_inv_def)

text \<open>A step that changes neither what the mapper stands for nor the pool and the pairs.\<close>

lemma conc_inv_same:
  assumes "conc_inv s" and "fake_of (table (cMapper s')) ++ held (flights s') = fake_of (table (cMapper s)) ++ held (flights s)"
    and "pool (cMapper s') = pool (cMapper s)" and "owed s' = owed s"
    and "\<And>r x. flights s' r = Some x \<Longrightarrow> missed x \<Longrightarrow> fake_of (table (cMapper s')) r = None"
  shows "conc_inv s'"
proof -
  have "mapper_inv (view s')"
    by (rule mapper_inv_cong [of "view s"]) (use assms in \<open>simp_all add: conc_inv_def\<close>)
  with assms(5) show ?thesis by (auto simp: conc_inv_def)
qed

lemma map_add_upd_free: "m r = None \<Longrightarrow> m ++ h(r := x) = (m ++ h)(r := x)"
  by (auto simp: map_add_def fun_eq_iff split: option.splits)

lemma c_step_inv:
  assumes "c_step mgr now s s'" and "conc_inv s"
  shows "conc_inv s' \<and> space (pool (cMapper s')) = space (pool (cMapper s))"
proof -
  have inv: "mapper_inv (view s)" using assms(2) by (simp add: conc_inv_def)
  note free = conc_free [OF assms(2)]
  show ?thesis
    using assms(1)
  proof cases
    case (hit r f t)
    with fake_of_tget [OF hit(2)] free show ?thesis
      by (auto intro!: conc_inv_same [OF assms(2)] simp: owed_def split: if_splits)
  next
    case (take_off r)
    have "held ((flights s)(r \<mapsto> Began)) = held (flights s)" using take_off(2) by (auto simp: held_def fun_eq_iff)
    with take_off free show ?thesis
      by (auto intro!: conc_inv_same [OF assms(2)] simp: owed_def split: if_splits)
  next
    case (look_hit r f t)
    have "held ((flights s)(r \<mapsto> Landed (Inr f))) = held (flights s)" using look_hit(2) by (auto simp: held_def fun_eq_iff)
    with look_hit fake_of_tget [OF look_hit(3)] free show ?thesis
      by (auto intro!: conc_inv_same [OF assms(2)] simp: owed_def split: if_splits)
  next
    case (look_miss r t)
    have "held ((flights s)(r \<mapsto> Missed)) = held (flights s)" using look_miss(2) by (auto simp: held_def fun_eq_iff)
    moreover have "fake_of (table (cMapper s)) r = None" using fake_of_tget [OF look_miss(3)] by simp
    ultimately show ?thesis using look_miss free
      by (auto intro!: conc_inv_same [OF assms(2)] simp: owed_def split: if_splits)
  next
    case (full r p)
    have h: "held ((flights s)(r \<mapsto> Landed (Inl errNoFreeIPs))) = held (flights s)"
      using full(2) by (auto simp: held_def fun_eq_iff)
    have al: "allocate (pool (view s)) = (None, p)" using full(3) by simp
    note al = allocate_mapper [OF inv al]
    have "mapper_inv ((view s)\<lparr>pool := p\<rparr>)" using al by (intro mapper_inv_pool_eq inv) simp_all
    then have "mapper_inv (view s')"
      by (rule mapper_inv_cong) (simp_all add: full h owed_def)
    with full al free show ?thesis by (auto simp: conc_inv_def split: if_splits)
  next
    case (lease r f p)
    have al: "allocate (pool (view s)) = (Some f, p)" using lease(3) by simp
    note al = allocate_mapper [OF inv al]
    have n: "fake_of (table (cMapper s)) r = None" using free [OF lease(2)] by simp
    have "held (flights s) r = None" using lease(2) by (simp add: held_def)
    then have "fake_of (table (view s)) r = None" using n by simp
    from mapper_inv_set [OF inv this al(1) al(4) al(5)]
    have "mapper_inv ((view s)\<lparr>pool := p, table := tset now r f (table (view s))\<rparr>)" by simp
    then have "mapper_inv (view s')"
      by (rule mapper_inv_cong) (simp_all add: lease owed_def held_upd)
    with lease al n free show ?thesis by (auto simp: conc_inv_def split: if_splits)
  next
    case (add_ok r f w)
    have "held ((flights s)(r \<mapsto> Ruled f)) = held (flights s)" using add_ok(2) by (auto simp: held_def fun_eq_iff)
    with add_ok free [OF add_ok(2)] free show ?thesis
      by (auto intro!: conc_inv_same [OF assms(2)] simp: owed_def split: if_splits)
  next
    case (add_err r f e w)
    have "held ((flights s)(r \<mapsto> Refused f e)) = held (flights s)" using add_err(2) by (auto simp: held_def fun_eq_iff)
    with add_err free [OF add_err(2)] free show ?thesis
      by (auto intro!: conc_inv_same [OF assms(2)] simp: owed_def split: if_splits)
  next
    case (give_back r f e)
    have n: "fake_of (table (cMapper s)) r = None" using free [OF give_back(2)] by simp
    have h: "held (flights s) r = Some f" using give_back(2) by (simp add: held_def)
    then have vf: "fake_of (table (view s)) r = Some f" by simp
    have "fake_of (both s') = (fake_of (table (view s)))(r := None)"
      using n by (simp add: fake_of_both give_back held_upd map_add_upd_free)
    from drop_inv [OF inv vf this]
    have "mapper_inv ((view s)\<lparr>table := both s', pool := release f (pool (view s))\<rparr>)" .
    then have "mapper_inv (view s')"
      by (rule mapper_inv_cong) (simp_all add: give_back owed_def fake_of_both)
    moreover have "space (release f (pool (cMapper s))) = space (pool (cMapper s))"
      using pool.rel_leased [OF mapper_inv_pool [OF inv] fake_leased [OF inv vf]] by simp
    ultimately show ?thesis using give_back free by (auto simp: conc_inv_def split: if_splits)
  next
    case (enter r f)
    have h: "held (flights s) r = Some f" using enter(2) by (simp add: held_def)
    show ?thesis
      using enter h free
      by (auto intro!: conc_inv_same [OF assms(2)] simp: owed_def held_upd map_add_def fun_eq_iff split: option.splits if_splits)
  next
    case (land r res)
    have "held ((flights s)(r := None)) = held (flights s)" using land(2) by (auto simp: held_def fun_eq_iff)
    with land free show ?thesis
      by (auto intro!: conc_inv_same [OF assms(2)] simp: owed_def split: if_splits)
  next
    case (expire ks ex t)
    note e = expired_fakes [OF expire(3,4)] and d = expired_reals(2) [OF expire(3,4)]
      and rl = expired_reals(1) [OF expire(3,4)]
    have grounded: "held (flights s) (preal p) = None" if "p \<in> set ex" for p
    proof (rule ccontr)
      assume "held (flights s) (preal p) \<noteq> None"
      then obtain x g where "flights s (preal p) = Some x" "holding x = Some g"
        by (auto simp: held_def split: bind_splits)
      with free holding_missed e(4) [OF that] show False by fastforce
    qed
    have "mapper_inv ((view s)\<lparr>table := both s', pending := pending (view s) @ ex\<rparr>)"
    proof (rule move_inv [OF inv d])
      show "fake_of (table (view s)) (preal p) = Some (pfake p)" if "p \<in> set ex" for p
        using e(4) [OF that] grounded [OF that] by (simp add: map_add_def)
      show "fake_of (both s') r = (if r \<in> preal ` set ex then None else fake_of (table (view s)) r)" for r
      proof (cases "r \<in> preal ` set ex")
        case True
        with grounded have "held (flights s) r = None" by auto
        moreover from True rl have "due (now - ttl (cMapper s)) (table (cMapper s)) r" by blast
        ultimately show ?thesis using True e(1) [of r] by (simp add: fake_of_both expire map_add_def)
      next
        case False
        with rl have "\<not> due (now - ttl (cMapper s)) (table (cMapper s)) r" by blast
        with False e(1) [of r] show ?thesis by (simp add: fake_of_both expire map_add_def split: option.split)
      qed
    qed
    then have "mapper_inv (view s')"
      by (rule mapper_inv_cong) (simp_all add: expire owed_def fake_of_both)
    with expire free e(1) show ?thesis by (auto simp: conc_inv_def split: if_splits)
  next
    case nothing
    then show ?thesis using free by (auto intro!: conc_inv_same [OF assms(2)] simp: owed_def split: if_splits)
  next
    case (delete_err items e w)
    then show ?thesis using free by (auto intro!: conc_inv_same [OF assms(2)] simp: owed_def split: if_splits)
  next
    case (delete_ok items w)
    then show ?thesis using free by (auto intro!: conc_inv_same [OF assms(2)] simp: owed_def split: if_splits)
  next
    case (release p ps)
    have o: "pending (view s) = p # ps" using release(2) by (simp add: owed_def)
    from paid_inv [OF inv o]
    have "mapper_inv ((view s)\<lparr>pending := ps, pool := IP_Pool.release (pfake p) (pool (view s))\<rparr>)" .
    then have "mapper_inv (view s')"
      by (rule mapper_inv_cong) (simp_all add: release owed_def)
    moreover have "pfake p \<in> leased (pool (view s))" using inv o by (simp add: mapper_inv_def pending_fakes_def)
    note pool.rel_leased [OF mapper_inv_pool [OF inv] this]
    ultimately show ?thesis using release free by (auto simp: conc_inv_def split: if_splits)
  next
    case finished
    then show ?thesis using free by (auto intro!: conc_inv_same [OF assms(2)] simp: owed_def split: if_splits)
  qed
qed

section \<open>The rules in force, at every step\<close>

text \<open>The rules that flights have added and not entered yet, and those that wait for their deletion.\<close>

definition ruled :: "(u32 \<rightharpoonup> flight) \<Rightarrow> fwMapping set" where
  "ruled F = {rule r f | r f. F r = Some (Ruled f)}"

definition live_rules :: "'w cstate \<Rightarrow> fwMapping set" where
  "live_rules s = rules_for (fake_of (table (cMapper s))) \<union> ruled (flights s)"

definition owed_rules :: "'w cstate \<Rightarrow> fwMapping set" where
  "owed_rules s = (case cleaner s of Releasing ps \<Rightarrow> {} | _ \<Rightarrow> rule_of_pair ` set (owed s))"

lemma ruled_plain:
  "\<forall>g. F r \<noteq> Some (Ruled g) \<Longrightarrow> \<forall>g. x \<noteq> Some (Ruled g) \<Longrightarrow> ruled (F(r := x)) = ruled F"
  by (auto simp: ruled_def split: if_splits)

lemma ruled_new: "\<forall>g. F r \<noteq> Some (Ruled g) \<Longrightarrow> ruled (F(r \<mapsto> Ruled f)) = insert (rule r f) (ruled F)"
  by (auto simp: ruled_def split: if_splits)

lemma ruled_entered: "F r = Some (Ruled f) \<Longrightarrow> \<forall>g. x \<noteq> Ruled g \<Longrightarrow> insert (rule r f) (ruled (F(r \<mapsto> x))) = ruled F"
  by (force simp: ruled_def split: if_splits)

lemma owed_rules_cong:
  "cleaner s' = cleaner s \<Longrightarrow> pending (cMapper s') = pending (cMapper s) \<Longrightarrow> owed_rules s' = owed_rules s"
  by (simp add: owed_rules_def owed_def split: cleaning.split)

lemma live_apart:
  assumes "conc_inv s"
  shows "live_rules s \<subseteq> {x. Fake x \<notin> Fake ` set (map rule_of_pair (owed s))}"
proof -
  have "rule r f \<in> rules_for (fake_of (table (view s)))" if "rule r f \<in> live_rules s" for r f
  proof (cases "held (flights s) r")
    case None
    then have "flights s r \<noteq> Some (Ruled f)" by (auto simp: held_def)
    with that None show ?thesis by (auto simp: live_rules_def ruled_def map_add_def)
  next
    case (Some g)
    then obtain x where x: "flights s r = Some x" "holding x = Some g" by (auto simp: held_def split: bind_splits)
    then have "fake_of (table (cMapper s)) r = None" using assms holding_missed by (auto simp: conc_inv_def)
    with that x Some show ?thesis by (auto simp: live_rules_def ruled_def)
  qed
  then have "live_rules s \<subseteq> rules_for (fake_of (table (view s)))"
    by (auto simp: live_rules_def ruled_def elim!: rules_forE)
  moreover have "mapper_inv ((view s)\<lparr>pending := owed s\<rparr>)"
    using assms by (simp add: conc_inv_def view_def)
  note items_apart [OF this]
  ultimately show ?thesis by blast
qed

context firewall_manager
begin

definition conc_agree :: "fwMapping set \<Rightarrow> 'w cstate \<Rightarrow> bool" where
  "conc_agree S s \<longleftrightarrow> conc_inv s \<and> idle (fw (cMapper s)) \<and> live_rules s \<subseteq> rules (fw (cMapper s)) \<and>
     rules (fw (cMapper s)) \<subseteq> live_rules s \<union> owed_rules s \<union> S"

text \<open>A step that leaves the backend alone and moves rules only between the table, the flights and the pairs.\<close>

lemma conc_agree_quiet:
  assumes "conc_agree S s" and "conc_inv s'" and "fw (cMapper s') = fw (cMapper s)"
    and "live_rules s' \<subseteq> live_rules s" and "live_rules s \<union> owed_rules s \<subseteq> live_rules s' \<union> owed_rules s'"
  shows "conc_agree S s'"
  using assms unfolding conc_agree_def by auto

lemma conc_agree_flight:
  assumes "conc_agree S s" and "conc_inv s'" and "fw (cMapper s') = fw (cMapper s)"
    and "fake_of (table (cMapper s')) = fake_of (table (cMapper s))" and "ruled (flights s') = ruled (flights s)"
    and "cleaner s' = cleaner s" and "pending (cMapper s') = pending (cMapper s)"
  shows "conc_agree S s'"
  by (rule conc_agree_quiet [OF assms(1-3)]) (use assms(4,5) owed_rules_cong [OF assms(6,7)] in \<open>simp_all add: live_rules_def\<close>)

lemma c_step_agree:
  assumes "c_step mgr now s s'" and "conc_agree S s"
  shows "conc_agree S s'"
proof -
  have inv: "conc_inv s" and i: "idle (fw (cMapper s))" and live: "live_rules s \<subseteq> rules (fw (cMapper s))"
    and no: "rules (fw (cMapper s)) \<subseteq> live_rules s \<union> owed_rules s \<union> S"
    using assms(2) by (simp_all add: conc_agree_def)
  have inv': "conc_inv s'" using c_step_inv [OF assms(1) inv] by simp
  note quiet = conc_agree_quiet [OF assms(2) inv'] and flight = conc_agree_flight [OF assms(2) inv']
  show ?thesis
    using assms(1)
  proof cases
    case (hit r f t)
    with fake_of_tget [OF hit(2)] show ?thesis by (intro flight) simp_all
  next
    case (take_off r)
    then show ?thesis by (intro flight) (simp_all add: ruled_plain)
  next
    case (look_hit r f t)
    with fake_of_tget [OF look_hit(3)] show ?thesis by (intro flight) (simp_all add: ruled_plain)
  next
    case (look_miss r t)
    then show ?thesis by (intro flight) (simp_all add: ruled_plain)
  next
    case (full r p)
    then show ?thesis by (intro flight) (simp_all add: ruled_plain)
  next
    case (lease r f p)
    then show ?thesis by (intro flight) (simp_all add: ruled_plain)
  next
    case (add_ok r f w)
    then have l: "live_rules s' = insert (rule r f) (live_rules s)" by (simp add: live_rules_def ruled_new)
    have "mAdd mgr (rule r f) (fw (cMapper s)) = (None, w)" using add_ok(3) by (simp add: rule_def)
    with add_exact [OF i rule_v4 this] add_frame [OF i rule_v4 this] l live no inv' add_ok(1) owed_rules_cong [of s' s] show ?thesis
      by (auto simp: conc_agree_def)
  next
    case (add_err r f e w)
    then have l: "live_rules s' = live_rules s" by (simp add: live_rules_def ruled_plain)
    have "mAdd mgr (rule r f) (fw (cMapper s)) = (Some e, w)" using add_err(3) by (simp add: rule_def)
    with firewall_frame.add_err [OF firewall_frame_axioms i rule_v4 this] add_frame [OF i rule_v4 this] l live no inv' add_err(1)
      owed_rules_cong [of s' s]
    show ?thesis by (auto simp: conc_agree_def)
  next
    case (give_back r f e)
    then show ?thesis by (intro flight) (simp_all add: ruled_plain)
  next
    case (enter r f)
    have "fake_of (table (cMapper s)) r = None" using conc_free [OF inv enter(2)] by simp
    then have "live_rules s' = live_rules s"
      using enter ruled_entered [of "flights s", OF enter(2), of "Landed (Inr f)"] by (auto simp: live_rules_def rules_for_upd)
    with enter(1) owed_rules_cong [of s' s] show ?thesis by (intro quiet) simp_all
  next
    case (land r res)
    then show ?thesis by (intro flight) (simp_all add: ruled_plain)
  next
    case (expire ks ex t)
    with expired_rules [OF expire(3,4)] show ?thesis
      by (intro quiet) (auto simp: live_rules_def owed_rules_def owed_def image_Un)
  next
    case nothing
    then show ?thesis by (intro quiet) (simp_all add: live_rules_def owed_rules_def owed_def)
  next
    case (delete_err items e w)
    have o: "owed s = items" "owed_rules s = rule_of_pair ` set items" using delete_err(2) by (simp_all add: owed_rules_def owed_def)
    note d = delete_frame [OF i rules_of_pairs_v4 delete_err(4)]
    have "live_rules s \<subseteq> rules w" using d live live_apart [OF inv] unfolding o by blast
    moreover have "rules w \<subseteq> live_rules s \<union> rule_of_pair ` set items \<union> S" using d no unfolding o by blast
    ultimately show ?thesis using inv' d delete_err(1) by (simp add: conc_agree_def live_rules_def owed_rules_def owed_def)
  next
    case (delete_ok items w)
    have o: "owed s = items" "owed_rules s = rule_of_pair ` set items" using delete_ok(2) by (simp_all add: owed_rules_def owed_def)
    note d = delete_frame [OF i rules_of_pairs_v4 delete_ok(4)]
      and g = firewall_manager.delete_ok [OF firewall_manager_axioms i rules_of_pairs_v4 delete_ok(4)]
    have "live_rules s \<subseteq> rules w" using d live live_apart [OF inv] unfolding o by blast
    moreover have "rules w \<subseteq> live_rules s \<union> S" using d no g unfolding o set_map by blast
    ultimately show ?thesis using inv' d delete_ok(1) by (simp add: conc_agree_def live_rules_def owed_rules_def owed_def)
  next
    case (release p ps)
    then show ?thesis by (intro quiet) (simp_all add: live_rules_def owed_rules_def owed_def)
  next
    case finished
    then show ?thesis by (intro quiet) (simp_all add: live_rules_def owed_rules_def owed_def)
  qed
qed

lemma c_run_agree: "c_run mgr t0 s0 t s \<Longrightarrow> conc_agree S s0 \<Longrightarrow> conc_agree S s"
  by (induction rule: c_run.induct) (auto intro: c_step_agree)

lemma calm_agree: "agree S m \<Longrightarrow> conc_agree S (calm_start m)"
proof -
  assume a: "agree S m"
  have "held Map.empty = Map.empty" "ruled Map.empty = {}" by (auto simp: held_def ruled_def fun_eq_iff)
  moreover have "mapper_inv (view (calm_start m))"
    by (rule mapper_inv_cong [of m])
      (use a in \<open>simp_all add: agree_def calm_start_def owed_def \<open>held Map.empty = Map.empty\<close>\<close>)
  ultimately show ?thesis
    using a by (simp add: conc_agree_def conc_inv_def agree_def rule_defs calm_start_def live_rules_def owed_rules_def owed_def)
qed

end

lemma c_run_inv:
  "c_run mgr t0 s0 t s \<Longrightarrow> conc_inv s0 \<Longrightarrow> conc_inv s \<and> space (pool (cMapper s)) = space (pool (cMapper s0))"
  by (induction rule: c_run.induct) (auto dest: c_step_inv)

section \<open>What the calls return\<close>

text \<open>
  An address that was returned is still the mapping's while its lifetime since then has not passed; and
  what a landed flight will return is in the history.
\<close>

definition answers_kept :: "time \<Rightarrow> 'w cstate \<Rightarrow> bool" where
  "answers_kept t s \<longleftrightarrow>
     (\<forall>t0 r res. (t0, r, res) \<in> set (answers s) \<longrightarrow> t0 \<le> t \<and>
        (\<forall>f. res = Inr f \<longrightarrow> t < t0 + ttl (cMapper s) \<longrightarrow> used_since t0 r f (cMapper s))) \<and>
     (\<forall>r res. flights s r = Some (Landed res) \<longrightarrow> (\<exists>t0. (t0, r, res) \<in> set (answers s)))"

text \<open>A step leaves the history as it is, or adds what is settled now.\<close>

lemma answers_kept_step:
  assumes "answers_kept t s" and "t \<le> now" and "set (answers s') = set new \<union> set (answers s)"
    and "ttl (cMapper s') = ttl (cMapper s)"
    and "\<And>t0 r f. used_since t0 r f (cMapper s) \<Longrightarrow> t0 \<le> now \<Longrightarrow> now < t0 + ttl (cMapper s) \<Longrightarrow> used_since t0 r f (cMapper s')"
    and "\<And>t0 r res. (t0, r, res) \<in> set new \<Longrightarrow> t0 = now \<and> (\<forall>f. res = Inr f \<longrightarrow> used_since now r f (cMapper s'))"
    and "\<And>r res. flights s' r = Some (Landed res) \<Longrightarrow> flights s r = Some (Landed res) \<or> (now, r, res) \<in> set new"
  shows "answers_kept now s'"
  unfolding answers_kept_def
proof (intro conjI allI impI)
  fix t0 r res f
  assume a: "(t0, r, res) \<in> set (answers s')"
  then have old: "t0 \<le> t" if "(t0, r, res) \<notin> set new" using assms(1,3) that by (auto simp: answers_kept_def)
  then show "t0 \<le> now" using assms(2,6) by force
  assume r: "res = Inr f" and n: "now < t0 + ttl (cMapper s')"
  show "used_since t0 r f (cMapper s')"
  proof (cases "(t0, r, res) \<in> set new")
    case True
    with assms(6) r show ?thesis by blast
  next
    case False
    with a assms(1-4) n r have "used_since t0 r f (cMapper s)" by (auto simp: answers_kept_def)
    then show ?thesis by (rule assms(5)) (use old [OF False] assms(2,4) n in simp_all)
  qed
next
  fix r res assume "flights s' r = Some (Landed res)"
  with assms(7) assms(1,3) show "\<exists>t0. (t0, r, res) \<in> set (answers s')" unfolding answers_kept_def by blast
qed

lemma tget_used: "tget now r (table m) = (Some f, t) \<Longrightarrow> used_since now r f (m\<lparr>table := t\<rparr>)"
  by (auto simp: used_since_def tget_def split: option.splits)

lemma c_step_answers:
  assumes "c_step mgr now s s'" and "conc_inv s" and "answers_kept t s" and "t \<le> now"
  shows "answers_kept now s' \<and> ttl (cMapper s') = ttl (cMapper s)"
proof -
  note quiet = answers_kept_step [OF assms(3,4), where new = "[]" and s' = s']
  note new = answers_kept_step [OF assms(3,4), where s' = s']
  have same: "answers_kept now s' \<and> ttl (cMapper s') = ttl (cMapper s)"
    if "table (cMapper s') = table (cMapper s)" "ttl (cMapper s') = ttl (cMapper s)" "answers s' = answers s"
      "\<And>r res. flights s' r = Some (Landed res) \<Longrightarrow> flights s r = Some (Landed res)"
    by (intro conjI quiet) (use that in \<open>simp_all add: used_since_def\<close>)
  show ?thesis
    using assms(1)
  proof cases
    case (hit r f t1)
    have "used_since t0 r' f' ((cMapper s)\<lparr>table := t1\<rparr>)" if "used_since t0 r' f' (cMapper s)" "t0 \<le> now" for t0 r' f'
      by (rule used_since_tget [OF that hit(2)])
    with hit tget_used [OF hit(2)] show ?thesis
      by (intro conjI new [where new = "[(now, r, Inr f)]"]) simp_all
  next
    case (look_hit r f t1)
    have "used_since t0 r' f' ((cMapper s)\<lparr>table := t1\<rparr>)" if "used_since t0 r' f' (cMapper s)" "t0 \<le> now" for t0 r' f'
      by (rule used_since_tget [OF that look_hit(3)])
    with look_hit tget_used [OF look_hit(3)] show ?thesis
      by (intro conjI new [where new = "[(now, r, Inr f)]"]) (simp_all split: if_splits)
  next
    case (full r p)
    then show ?thesis
      by (intro conjI new [where new = "[(now, r, Inl errNoFreeIPs)]"]) (auto simp: used_since_def split: if_splits)
  next
    case (give_back r f e)
    then show ?thesis
      by (intro conjI new [where new = "[(now, r, Inl e)]"]) (auto simp: used_since_def split: if_splits)
  next
    case (enter r f)
    have "table (cMapper s) r = None" using conc_free [OF assms(2) enter(2)] by (simp add: fake_of_None)
    with enter show ?thesis
      by (intro conjI new [where new = "[(now, r, Inr f)]"]) (auto simp: used_since_def tset_def split: if_splits)
  next
    case (expire ks ex t1)
    have "t1 = (\<lambda>r. if due (now - ttl (cMapper s)) (table (cMapper s)) r then None else table (cMapper s) r)"
      using expired_split(2) [OF expire(3), of now "ttl (cMapper s)"] expire(4) by simp
    with expire show ?thesis by (intro conjI quiet) (auto simp: used_since_def due_def)
  qed (rule same; auto split: if_splits)+
qed

lemma c_run_answers:
  assumes "c_run mgr t0 s0 t s" and "conc_inv s0" and "answers_kept t0 s0"
  shows "answers_kept t s \<and> ttl (cMapper s) = ttl (cMapper s0)"
  using assms
proof (induction rule: c_run.induct)
  case (step t s now s')
  have "conc_inv s" using c_run_inv [OF step.hyps(1)] step.prems by blast
  from c_step_answers [OF step.hyps(3) this _ step.hyps(2)] step show ?case by simp
qed simp

lemma at_rest: "flights s = Map.empty \<Longrightarrow> cleaner s = Idle \<Longrightarrow> mapper_inv (view s) \<Longrightarrow> mapper_inv (cMapper s)"
  by (erule mapper_inv_cong) (simp_all add: owed_def held_def map_add_def)

lemma NewIPMapper_ttl: "NewIPMapper mgr now parsed l w = Inr m \<Longrightarrow> ttl m = l"
proof (erule NewIPMapper_cases)
  fix net bits ex w'
  have "ttl (adoptLoop mgr now ex m) = ttl m" for m :: "'a ipMapper"
    by (induction ex arbitrary: m) (auto split: option.splits prod.splits)
  then show "m = adoptLoop mgr now ex \<lparr>table = newMappingTable, pool = newIPPool net bits, ttl = l, fw = w', pending = []\<rparr> \<Longrightarrow>
    ttl m = l" by simp
qed

text \<open>No fake address belongs to two: neither in the table, nor among what the flights hold.\<close>

lemma view_distinct:
  assumes "conc_inv s"
  shows "inj_on (fake_of (table (cMapper s))) (dom (table (cMapper s))) \<and>
    (\<forall>r f r'. held (flights s) r = Some f \<longrightarrow> fake_of (table (cMapper s)) r' \<noteq> Some f \<and>
       (held (flights s) r' = Some f \<longrightarrow> r' = r))"
proof -
  have v: "mapper_inv (view s)" using assms by (simp add: conc_inv_def)
  have grounded: "fake_of (table (cMapper s)) r = None" if "held (flights s) r = Some g" for r g
  proof -
    from that obtain x where "flights s r = Some x" "holding x = Some g" by (auto simp: held_def split: bind_splits)
    then show ?thesis using conc_free [OF assms] holding_missed by blast
  qed
  have h: "fake_of (table (view s)) r = Some f" if "held (flights s) r = Some f" for r f using that by simp
  have t: "fake_of (table (view s)) r = Some f" if "fake_of (table (cMapper s)) r = Some f" for r f
    using grounded [of r] that by (cases "held (flights s) r") (simp_all add: map_add_def)
  have "inj_on (fake_of (table (cMapper s))) (dom (table (cMapper s)))"
  proof (rule inj_onI)
    fix x y assume "x \<in> dom (table (cMapper s))" and eq: "fake_of (table (cMapper s)) x = fake_of (table (cMapper s)) y"
    then obtain f where "fake_of (table (cMapper s)) x = Some f" by (auto simp: fake_of_def)
    with eq t show "x = y" using fakes_distinct [OF v] by metis
  qed
  moreover have "fake_of (table (cMapper s)) r' \<noteq> Some f \<and> (held (flights s) r' = Some f \<longrightarrow> r' = r)"
    if f: "held (flights s) r = Some f" for r f r'
  proof (intro conjI impI notI)
    assume a: "fake_of (table (cMapper s)) r' = Some f"
    then have "r' = r" using fakes_distinct [OF v t [OF a] h [OF f]] by simp
    with a grounded [OF f] show False by simp
  next
    assume "held (flights s) r' = Some f"
    then show "r' = r" by (rule fakes_distinct [OF v h h [OF f]])
  qed
  ultimately show ?thesis by blast
qed

text \<open>
  C5. However the calls of \<open>Map\<close> and the cleaning rounds interleave, step by step: no two addresses have the
  same fake, not even one that a flight has leased and not entered yet; each mapping of the table has its rule in force, and
  each rule in force is of a mapping, of a flight that will
  enter it, waits for its deletion, or was there before. A fake address that a call returns has its rule in
  force from the instant at which the result is settled (by a hit of the table or by the flight that callers share) until the
  lifetime of a mapping has passed since then, and a flight gives its callers no other
  result than the settled one. When all calls have returned, the
  state is one of the sequential mapper, so that no address is lost.
\<close>

theorem mapper_interleaved:
  assumes "firewall_manager mgr rules idle" and "idle w" and "NewIPMapper mgr t0 parsed l w = Inr m0"
    and "c_run mgr t0 (calm_start m0) t s"
  shows "inj_on (fake_of (table (cMapper s))) (dom (table (cMapper s))) \<and>
    rules_for (fake_of (table (cMapper s))) \<subseteq> rules (fw (cMapper s)) \<and>
    rules (fw (cMapper s)) \<subseteq> live_rules s \<union> owed_rules s \<union> rules w \<and>
    (\<forall>r f r'. held (flights s) r = Some f \<longrightarrow> fake_of (table (cMapper s)) r' \<noteq> Some f \<and>
       (held (flights s) r' = Some f \<longrightarrow> r' = r)) \<and>
    (\<forall>t1 r f. (t1, r, Inr f) \<in> set (answers s) \<and> t < t1 + l \<longrightarrow>
       fake_of (table (cMapper s)) r = Some f \<and> \<lparr>Fake = V4 f, Real = V4 r\<rparr> \<in> rules (fw (cMapper s))) \<and>
    (\<forall>r res. flights s r = Some (Landed res) \<longrightarrow> (\<exists>t1 \<le> t. (t1, r, res) \<in> set (answers s))) \<and>
    (flights s = Map.empty \<and> cleaner s = Idle \<longrightarrow> mapper_inv (cMapper s))"
proof -
  let ?S = "rules (fw m0) - rules_for (fake_of (table m0))"
  have "firewall_manager.agree rules idle ?S m0" and sub: "rules (fw m0) \<subseteq> rules w"
    using firewall_manager.new_agree [OF assms(1-3)] by simp_all
  note start = firewall_manager.calm_agree [OF assms(1) this(1)]
  from firewall_manager.c_run_agree [OF assms(1,4) start]
  have inv: "conc_inv s" and live: "live_rules s \<subseteq> rules (fw (cMapper s))"
    and no: "rules (fw (cMapper s)) \<subseteq> live_rules s \<union> owed_rules s \<union> ?S"
    by (simp_all add: firewall_manager.conc_agree_def [OF assms(1)])
  have "conc_inv (calm_start m0)" using start by (simp add: firewall_manager.conc_agree_def [OF assms(1)])
  moreover have "answers_kept t0 (calm_start m0)" by (simp add: answers_kept_def calm_start_def)
  ultimately have kept: "answers_kept t s" and l: "ttl (cMapper s) = l"
    using c_run_answers [OF assms(4)] NewIPMapper_ttl [OF assms(3)] by (simp_all add: calm_start_def)
  have v: "mapper_inv (view s)" using inv by (simp add: conc_inv_def)
  have answered: "fake_of (table (cMapper s)) r = Some f \<and> \<lparr>Fake = V4 f, Real = V4 r\<rparr> \<in> rules (fw (cMapper s))"
    if "(t1, r, Inr f) \<in> set (answers s)" "t < t1 + l" for t1 r f
  proof -
    have "used_since t1 r f (cMapper s)" using kept that l unfolding answers_kept_def by blast
    then have "fake_of (table (cMapper s)) r = Some f" by (auto simp: used_since_def fake_of_def)
    with live show ?thesis by (auto simp: live_rules_def rules_for_def rule_def)
  qed
  have settled: "\<exists>t1 \<le> t. (t1, r, res) \<in> set (answers s)" if "flights s r = Some (Landed res)" for r res
    using kept that unfolding answers_kept_def by blast
  show ?thesis
    using view_distinct [OF inv] live no sub at_rest [OF _ _ v] answered settled by (auto simp: live_rules_def)
qed

text \<open>A call that maps an address, while another one waits to look at the table.\<close>

lemma demo_lease: "allocate (pool demo0) = (Some 0x0A1E0000, pool demo1)"
  by (simp add: demo0_def demo1_def allocate_def newIPPool_def masked4_def mask_eq_exp_minus_1 cursorLoop.simps Let_def)

lemma demo_add:
  "mAdd demo_mgr \<lparr>Fake = Uint32ToAddr 0x0A1E0000, Real = V4 0x01010101\<rparr> (fw demo0) = (None, fw demo1)"
  by (simp add: demo_mgr_def nftManager_def nftAdd_def memConn_def mem_flush_def demo0_def demo1_def mem_kset_memEmpty)
    (simp add: memEmpty_def batch_keys_def mem_kset_def fun_eq_iff)

lemma mapper_interleaved_witness:
  "\<exists>s. c_run demo_mgr 0 (calm_start demo0) 5 s \<and> flights s 2 = Some Began \<and>
     answers s = [(5, 0x01010101, Inr 0x0A1E0000)] \<and>
     \<lparr>Fake = V4 0x0A1E0000, Real = V4 0x01010101\<rparr> \<in> rules_of (mem_kset (fw (cMapper s)))"
proof -
  let ?r = "0x01010101 :: u32" and ?f = "0x0A1E0000 :: u32"
  let ?run = "c_run demo_mgr 0 (calm_start demo0)"
  let ?at = "\<lambda>m x as. \<lparr>cMapper = m, flights = [2 \<mapsto> Began, ?r \<mapsto> x], cleaner = Idle, answers = as\<rparr>"
  let ?leased = "demo0\<lparr>pool := pool demo1\<rparr>"
  have miss: "tget now r (table demo0) = (None, table demo0)" for now r
    by (simp add: demo0_def newMappingTable_def tget_def)
  have "?run 1 ((calm_start demo0)\<lparr>flights := [2 \<mapsto> Began]\<rparr>)"
    using c_run.step [OF c_run.start _ c_step.take_off [of "calm_start demo0" 2 demo_mgr 1]] by (simp add: calm_start_def)
  from c_run.step [OF this _ c_step.take_off [of _ ?r demo_mgr 2]]
  have "?run 2 (?at demo0 Began [])" by (simp add: calm_start_def)
  from c_run.step [OF this _ c_step.look_miss [of _ ?r 3 "table demo0" demo_mgr]]
  have "?run 3 (?at demo0 Missed [])" by (simp add: miss)
  from c_run.step [OF this _ c_step.lease [of _ ?r ?f "pool demo1" demo_mgr 4]]
  have "?run 4 (?at ?leased (Leased ?f) [])" by (simp add: demo_lease)
  from c_run.step [OF this _ c_step.add_ok [of _ ?r ?f demo_mgr "fw demo1" 4]]
  have "?run 4 (?at (?leased\<lparr>fw := fw demo1\<rparr>) (Ruled ?f) [])" using demo_add by simp
  from c_run.step [OF this _ c_step.enter [of _ ?r ?f demo_mgr 5]]
  obtain s where run: "?run 5 s" and s: "flights s 2 = Some Began" "answers s = [(5, ?r, Inr ?f)]" by fastforce
  have "batch memEmpty = []" by (simp add: memEmpty_def)
  note out = mapper_interleaved [OF demo.firewall_manager_axioms this demo_new run]
  with s have "\<lparr>Fake = V4 ?f, Real = V4 ?r\<rparr> \<in> rules_of (mem_kset (fw (cMapper s)))" by simp
  with run s show ?thesis by blast
qed

end
