(* ===== verification/Cache_Concurrent.thy ===== *)
theory Cache_Concurrent
  imports Dns_Cache
begin

text \<open>
  The cache with many callers at once: \<open>GetResponseLambda\<close> of \<open>src/server/cache/cache.go\<close> with one step
  for each of its parts, and \<open>singleflight.Group\<close> as the map of the flights that are under way. The
  function of a flight is the one of the caller that started it; all who join get its result. The steps
  of different callers come in any order, each at its own instant.
\<close>

section \<open>State and steps\<close>

text \<open>
  A flight runs the function of its first caller, with the caller's request and name, then has a reply to
  store, then a stored one. A caller has missed, waits for the flight of its key, shares the flight's result, or has got its
  reply (with the mark of a hit).
\<close>

datatype cflight = Asking msg bytes | Storing msg duration | Stored msg

datatype caller =
  Missed msg bytes
| Waits msg bytes
| Shares msg bytes "msg option"
| Got msg bytes "msg option" bool

record 'c cstate =
  ccCache :: "'c Cache"
  ccFlights :: "bytes \<rightharpoonup> cflight"
  ccCallers :: "nat \<rightharpoonup> caller"

definition keyable :: "msg \<Rightarrow> bytes \<Rightarrow> bool" where
  "keyable req name \<longleftrightarrow> name \<noteq> [] \<and> length (Question req) = 1"

text \<open>The end of a flight: every caller that waits for its key has the result.\<close>

definition landed :: "bytes \<Rightarrow> msg option \<Rightarrow> (nat \<rightharpoonup> caller) \<Rightarrow> (nat \<rightharpoonup> caller)" where
  "landed key res cs = (\<lambda>i. case cs i of
       Some (Waits req name) \<Rightarrow> if keyOf req name = key then Some (Shares req name res) else cs i
     | x \<Rightarrow> x)"

text \<open>\<open>asks req name res\<close>: the function of a caller with the request \<open>req\<close> for the name \<open>name\<close> may give \<open>res\<close>.\<close>

type_synonym asking = "msg \<Rightarrow> bytes \<Rightarrow> msg option \<times> duration \<times> error option \<Rightarrow> bool"

inductive cc_step :: "'c ttlPkg \<Rightarrow> asking \<Rightarrow> time \<Rightarrow> 'c cstate \<Rightarrow> 'c cstate \<Rightarrow> bool" for pkg asks now where
  direct: "ccCallers s i = None \<Longrightarrow> \<not> keyable req name \<Longrightarrow> asks req name (r, d, err) \<Longrightarrow>
    cc_step pkg asks now s
      (s\<lparr>ccCallers := (ccCallers s)(i \<mapsto> Got req name (if err = None then r else None) False)\<rparr>)"
| hit: "ccCallers s i = None \<Longrightarrow> keyable req name \<Longrightarrow>
    getByKey pkg now req (keyOf req name) (ccCache s) = (Some resp, c) \<Longrightarrow>
    cc_step pkg asks now s (s\<lparr>ccCache := c, ccCallers := (ccCallers s)(i \<mapsto> Got req name (Some resp) True)\<rparr>)"
| miss: "ccCallers s i = None \<Longrightarrow> keyable req name \<Longrightarrow>
    getByKey pkg now req (keyOf req name) (ccCache s) = (None, c) \<Longrightarrow>
    cc_step pkg asks now s (s\<lparr>ccCache := c, ccCallers := (ccCallers s)(i \<mapsto> Missed req name)\<rparr>)"
| lead: "ccCallers s i = Some (Missed req name) \<Longrightarrow> ccFlights s (keyOf req name) = None \<Longrightarrow>
    cc_step pkg asks now s (s\<lparr>ccFlights := (ccFlights s)(keyOf req name \<mapsto> Asking req name),
      ccCallers := (ccCallers s)(i \<mapsto> Waits req name)\<rparr>)"
| join: "ccCallers s i = Some (Missed req name) \<Longrightarrow> ccFlights s (keyOf req name) = Some f \<Longrightarrow>
    cc_step pkg asks now s (s\<lparr>ccCallers := (ccCallers s)(i \<mapsto> Waits req name)\<rparr>)"
| no_answer: "ccFlights s key = Some (Asking req name) \<Longrightarrow> asks req name (r, d, err) \<Longrightarrow> err \<noteq> None \<or> r = None \<Longrightarrow>
    cc_step pkg asks now s (s\<lparr>ccFlights := (ccFlights s)(key := None), ccCallers := landed key None (ccCallers s)\<rparr>)"
| answer: "ccFlights s key = Some (Asking req name) \<Longrightarrow> asks req name (Some r, d, None) \<Longrightarrow>
    cc_step pkg asks now s (s\<lparr>ccFlights := (ccFlights s)(key \<mapsto> Storing r d)\<rparr>)"
| store: "ccFlights s key = Some (Storing r d) \<Longrightarrow>
    cc_step pkg asks now s (s\<lparr>ccCache := setByKey pkg now (r\<lparr>Data := []\<rparr>) key d (ccCache s),
      ccFlights := (ccFlights s)(key \<mapsto> Stored r)\<rparr>)"
| land: "ccFlights s key = Some (Stored r) \<Longrightarrow>
    cc_step pkg asks now s (s\<lparr>ccFlights := (ccFlights s)(key := None),
      ccCallers := landed key (Some r) (ccCallers s)\<rparr>)"
| take: "ccCallers s i = Some (Shares req name res) \<Longrightarrow>
    cc_step pkg asks now s (s\<lparr>ccCallers := (ccCallers s)(i \<mapsto> Got req name (joinFlight req res) False)\<rparr>)"

inductive cc_run :: "'c ttlPkg \<Rightarrow> asking \<Rightarrow> time \<Rightarrow> 'c cstate \<Rightarrow> time \<Rightarrow> 'c cstate \<Rightarrow> bool"
  for pkg asks t0 s0 where
  start: "cc_run pkg asks t0 s0 t0 s0"
| step: "cc_run pkg asks t0 s0 t s \<Longrightarrow> t \<le> now \<Longrightarrow> cc_step pkg asks now s s' \<Longrightarrow> cc_run pkg asks t0 s0 now s'"

definition idle_cache :: "'c Cache \<Rightarrow> 'c cstate" where
  "idle_cache c = \<lparr>ccCache = c, ccFlights = Map.empty, ccCallers = Map.empty\<rparr>"

section \<open>Whose reply it is\<close>

text \<open>A reply that upstream gave to a caller with the key.\<close>

definition answered :: "asking \<Rightarrow> bytes \<Rightarrow> msg \<Rightarrow> bool" where
  "answered asks key r \<longleftrightarrow>
     (\<exists>req name d. keyable req name \<and> keyOf req name = key \<and> asks req name (Some r, d, None))"

definition came :: "asking \<Rightarrow> bytes \<Rightarrow> msg \<Rightarrow> bool" where
  "came asks key m \<longleftrightarrow> (\<exists>r. answered asks key r \<and> m = r\<lparr>Data := []\<rparr>)"

text \<open>
  A reply that is right for the request \<open>req\<close> for the name \<open>name\<close>: it was given to a caller for the same name, with
  a question of the same type and class; it has the identity of the request, and all else is upstream's,
  but for the durations of the records after a hit. A request without a key gets what its own function gave.
\<close>

definition right_reply :: "asking \<Rightarrow> msg \<Rightarrow> bytes \<Rightarrow> msg \<Rightarrow> bool \<Rightarrow> bool" where
  "right_reply asks req name resp hit \<longleftrightarrow>
     (if keyable req name then
        (\<exists>req' r d. length (Question req') = 1 \<and> rrType (hd (Question req')) = rrType (hd (Question req)) \<and>
           hClass (header (hd (Question req'))) = hClass (header (hd (Question req))) \<and>
           asks req' name (Some r, d, None) \<and>
           (if hit then cacheable (r\<lparr>Data := []\<rparr>) \<and> (\<exists>t. served req (r\<lparr>Data := []\<rparr>) t resp)
            else resp = r\<lparr>Data := [], ID := ID req\<rparr>))
      else \<not> hit \<and> (\<exists>d. asks req name (Some resp, d, None)))"

lemma keyOf_question:
  "keyOf req' name' = keyOf req name \<Longrightarrow> name' = name \<and>
     rrType (hd (Question req')) = rrType (hd (Question req)) \<and>
     hClass (header (hd (Question req'))) = hClass (header (hd (Question req)))"
  by (simp add: keyOf_def Let_def cacheKey_injective)

lemma answered_question:
  assumes "answered asks (keyOf req name) r"
  obtains req' d where "length (Question req') = 1" and "rrType (hd (Question req')) = rrType (hd (Question req))"
    and "hClass (header (hd (Question req'))) = hClass (header (hd (Question req)))"
    and "asks req' name (Some r, d, None)"
  using assms keyOf_question unfolding answered_def by (metis keyable_def)

section \<open>The invariant\<close>

fun flight_ok :: "asking \<Rightarrow> bytes \<Rightarrow> cflight \<Rightarrow> bool" where
  "flight_ok asks key (Asking req name) \<longleftrightarrow> keyable req name \<and> keyOf req name = key"
| "flight_ok asks key (Storing r d) \<longleftrightarrow> answered asks key r"
| "flight_ok asks key (Stored r) \<longleftrightarrow> answered asks key r"

fun caller_ok :: "asking \<Rightarrow> (bytes \<rightharpoonup> cflight) \<Rightarrow> caller \<Rightarrow> bool" where
  "caller_ok asks fs (Missed req name) \<longleftrightarrow> keyable req name"
| "caller_ok asks fs (Waits req name) \<longleftrightarrow> keyable req name \<and> fs (keyOf req name) \<noteq> None"
| "caller_ok asks fs (Shares req name res) \<longleftrightarrow>
     keyable req name \<and> (\<forall>r. res = Some r \<longrightarrow> answered asks (keyOf req name) r)"
| "caller_ok asks fs (Got req name res hit) \<longleftrightarrow> (\<forall>r. res = Some r \<longrightarrow> right_reply asks req name r hit)"

definition cc_inv :: "('c \<Rightarrow> bytes \<rightharpoonup> msg \<times> time) \<Rightarrow> asking \<Rightarrow> time \<Rightarrow> 'c cstate \<Rightarrow> bool" where
  "cc_inv items asks now s \<longleftrightarrow> keyed_inv items (came asks) now (ccCache s) \<and>
     (\<forall>key f. ccFlights s key = Some f \<longrightarrow> flight_ok asks key f) \<and>
     (\<forall>i x. ccCallers s i = Some x \<longrightarrow> caller_ok asks (ccFlights s) x)"

lemma caller_ok_flights: "caller_ok asks fs x \<Longrightarrow> dom fs \<subseteq> dom gs \<Longrightarrow> caller_ok asks gs x"
  by (cases x) auto

lemma landed_ok:
  assumes "landed key res cs i = Some x" and "\<And>y. cs i = Some y \<Longrightarrow> caller_ok asks fs y"
    and "\<And>r. res = Some r \<Longrightarrow> answered asks key r"
  shows "caller_ok asks (fs(key := None)) x"
proof (cases "cs i")
  case (Some y)
  note y = assms(2) [OF Some]
  show ?thesis
  proof (cases y)
    case (Waits req name)
    with assms(1) Some y assms(3) show ?thesis by (auto simp: landed_def split: if_splits)
  qed (use assms(1) Some y in \<open>auto simp: landed_def\<close>)
qed (use assms(1) in \<open>simp add: landed_def\<close>)

lemma joined_right:
  assumes "keyable req name" and "answered asks (keyOf req name) r" and "joinFlight req (Some r) = Some resp"
  shows "right_reply asks req name resp False"
proof -
  obtain req' d where "length (Question req') = 1" "rrType (hd (Question req')) = rrType (hd (Question req))"
    "hClass (header (hd (Question req'))) = hClass (header (hd (Question req)))"
    "asks req' name (Some r, d, None)" by (rule answered_question [OF assms(2)])
  moreover have "resp = r\<lparr>Data := [], ID := ID req\<rparr>" using assms(3) by (simp add: joinFlight_def)
  ultimately show ?thesis using assms(1) unfolding right_reply_def by auto
qed

context ttl_cache
begin

lemma hit_right:
  assumes "keyed_inv items (came asks) now c" and "keyable req name"
    and "getByKey pkg now req (keyOf req name) c = (Some resp, c')"
  shows "right_reply asks req name resp True"
proof -
  from getByKey_inv [OF assms(1,3)] obtain m e t where
    "items (cCache c) (keyOf req name) = Some (m, e)" and sv: "served req m t resp" by blast
  with assms(1) have "cacheable m" "came asks (keyOf req name) m" by (auto simp: keyed_inv_def)
  then obtain r where r: "m = r\<lparr>Data := []\<rparr>" "answered asks (keyOf req name) r" "cacheable (r\<lparr>Data := []\<rparr>)"
    by (auto simp: came_def)
  from answered_question [OF r(2)] show ?thesis
    using assms(2) sv r unfolding right_reply_def by metis
qed

lemma cc_step_inv:
  assumes "cc_step pkg asks now s s'" and "cc_inv items asks now s"
  shows "cc_inv items asks now s'"
proof -
  have c: "keyed_inv items (came asks) now (ccCache s)"
    and f: "\<And>key f. ccFlights s key = Some f \<Longrightarrow> flight_ok asks key f"
    and w: "\<And>i x. ccCallers s i = Some x \<Longrightarrow> caller_ok asks (ccFlights s) x"
    using assms(2) by (auto simp: cc_inv_def)
  from assms(1) show ?thesis
  proof cases
    case (direct i req name r d err)
    then show ?thesis using c f w by (auto simp: cc_inv_def right_reply_def)
  next
    case (hit i req name resp c')
    then show ?thesis
      using getByKey_inv [OF c hit(4)] hit_right [OF c hit(3,4)] f w by (auto simp: cc_inv_def)
  next
    case (miss i req name c')
    then show ?thesis using getByKey_inv [OF c miss(4)] f w by (auto simp: cc_inv_def)
  next
    case (lead i req name)
    have "keyable req name" using w [OF lead(2)] by simp
    moreover have "caller_ok asks ((ccFlights s)(keyOf req name \<mapsto> Asking req name)) x" if "ccCallers s j = Some x" for j x
      by (rule caller_ok_flights [OF w [OF that]]) auto
    ultimately show ?thesis using c f by (auto simp: cc_inv_def lead(1) split: if_splits)
  next
    case (join i req name g)
    have "keyable req name" using w [OF join(2)] by simp
    then show ?thesis using c f w join by (auto simp: cc_inv_def)
  next
    case (no_answer key req name r d err)
    have "caller_ok asks ((ccFlights s)(key := None)) x" if "landed key None (ccCallers s) i = Some x" for i x
      by (rule landed_ok [OF that w]) auto
    then show ?thesis using c f by (auto simp: cc_inv_def no_answer(1) split: if_splits)
  next
    case (answer key req name r d)
    have "keyable req name" "keyOf req name = key" using f [OF answer(2)] by auto
    with answer(3) have "answered asks key r" by (auto simp: answered_def)
    moreover have "caller_ok asks ((ccFlights s)(key \<mapsto> Storing r d)) x" if "ccCallers s i = Some x" for i x
      by (rule caller_ok_flights [OF w [OF that]]) auto
    ultimately show ?thesis using c f by (auto simp: cc_inv_def answer(1) split: if_splits)
  next
    case (store key r d)
    have a: "answered asks key r" using f [OF store(2)] by simp
    then have "keyed_inv items (came asks) now (setByKey pkg now (r\<lparr>Data := []\<rparr>) key d (ccCache s))"
      by (intro setByKey_inv [OF c]) (auto simp: came_def)
    moreover have "caller_ok asks ((ccFlights s)(key \<mapsto> Stored r)) x" if "ccCallers s i = Some x" for i x
      by (rule caller_ok_flights [OF w [OF that]]) auto
    ultimately show ?thesis using a f by (auto simp: cc_inv_def store(1) split: if_splits)
  next
    case (land key r)
    have "answered asks key r" using f [OF land(2)] by simp
    then have "caller_ok asks ((ccFlights s)(key := None)) x" if "landed key (Some r) (ccCallers s) i = Some x" for i x
      by (intro landed_ok [OF that w]) auto
    then show ?thesis using c f by (auto simp: cc_inv_def land(1) split: if_splits)
  next
    case (take i req name res)
    have "keyable req name" "\<forall>r. res = Some r \<longrightarrow> answered asks (keyOf req name) r" using w [OF take(2)] by auto
    then have "caller_ok asks (ccFlights s) (Got req name (joinFlight req res) False)"
      by (auto simp: joinFlight_def intro: joined_right [unfolded joinFlight_def])
    then show ?thesis using c f w by (auto simp: cc_inv_def take(1))
  qed
qed

lemma cc_run_inv:
  assumes "cc_run pkg asks t0 s0 t s" and "cc_inv items asks t0 s0"
  shows "cc_inv items asks t s \<and> t0 \<le> t"
  using assms
proof (induction rule: cc_run.induct)
  case (step t s now s')
  then have "cc_inv items asks now s" by (auto simp: cc_inv_def intro: cache_inv_later)
  from cc_step_inv [OF step.hyps(3) this] step show ?case by simp
qed simp

end

section \<open>No caller is stuck\<close>

lemma cc_run_one: "cc_step pkg asks now s s' \<Longrightarrow> cc_run pkg asks now s now s'"
  by (rule cc_run.step [OF cc_run.start order_refl])

lemma cc_run_snoc: "cc_run pkg asks t0 s0 now s \<Longrightarrow> cc_step pkg asks now s s' \<Longrightarrow> cc_run pkg asks t0 s0 now s'"
  by (rule cc_run.step [OF _ order_refl])

lemma flight_lands:
  assumes "ccFlights s key = Some f" and "\<forall>req name. \<exists>res. asks req name res"
  shows "\<exists>s' res. cc_run pkg asks now s now s' \<and> ccCallers s' = landed key res (ccCallers s)"
proof -
  have stored: "\<exists>s'. cc_run pkg asks now u now s' \<and> ccCallers s' = landed key (Some r) (ccCallers u)"
    if "ccFlights u key = Some (Stored r)" for u r
    using cc_run_one [OF cc_step.land [where now = now and pkg = pkg and asks = asks, OF that]] by auto
  have storing: "\<exists>s'. cc_run pkg asks now s now s' \<and> ccCallers s' = landed key (Some r) (ccCallers s)"
    if run: "cc_run pkg asks now s now u" and u: "ccFlights u key = Some (Storing r d)" "ccCallers u = ccCallers s" for u r d
  proof -
    note one = cc_run_snoc [OF run cc_step.store [OF u(1)]]
    from cc_run_snoc [OF one cc_step.land [of _ key r]] show ?thesis by (auto simp: u(2))
  qed
  show ?thesis
  proof (cases f)
    case (Asking req name)
    obtain r d err where res: "asks req name (r, d, err)" using assms(2) by (metis prod.collapse)
    show ?thesis
    proof (cases "err \<noteq> None \<or> r = None")
      case True
      have "cc_run pkg asks now s now (s\<lparr>ccFlights := (ccFlights s)(key := None), ccCallers := landed key None (ccCallers s)\<rparr>)"
        using cc_run_one [OF cc_step.no_answer [where asks = asks, OF assms(1) [unfolded Asking] res True]] .
      then show ?thesis by (intro exI [of _ "s\<lparr>ccFlights := _, ccCallers := _\<rparr>"] exI [of _ None]) auto
    next
      case False
      with res obtain r' where r: "asks req name (Some r', d, None)" by auto
      note run = cc_run_one [OF cc_step.answer [where asks = asks and pkg = pkg and now = now, OF assms(1) [unfolded Asking] r]]
      from storing [OF run] show ?thesis by auto
    qed
  next
    case (Storing r d)
    with storing [OF cc_run.start] assms(1) show ?thesis by blast
  next
    case (Stored r)
    with stored assms(1) show ?thesis by blast
  qed
qed

lemma waiting_served:
  assumes "cc_run pkg asks now s0 now s" and "ccCallers s i = Some (Waits req name)"
    and "ccFlights s (keyOf req name) \<noteq> None" and "\<forall>req name. \<exists>res. asks req name res"
  shows "\<exists>s' res. cc_run pkg asks now s0 now s' \<and> ccCallers s' i = Some (Got req name res False)"
proof -
  have trans: "cc_run pkg asks now s0 now u" if "cc_run pkg asks t s t' u" "t = now" "t' = now" for t t' u
    using that
  proof (induction rule: cc_run.induct)
    case start show ?case by (rule assms(1))
  next
    case (step t1 s1 n s2)
    have "t \<le> t1" using step.hyps(1) by (induction rule: cc_run.induct) auto
    with step have "t1 = now" by simp
    with step show ?case by (auto intro: cc_run_snoc)
  qed
  from flight_lands [OF _ assms(4)] assms(3) obtain u res where
    run: "cc_run pkg asks now s now u" and u: "ccCallers u = landed (keyOf req name) res (ccCallers s)" by blast
  have "ccCallers u i = Some (Shares req name res)" by (simp add: u landed_def assms(2))
  from cc_run_snoc [OF trans [OF run refl refl] cc_step.take [OF this]] show ?thesis by auto
qed

lemma no_caller_stuck:
  assumes "cc_inv items asks now s" and "ccCallers s i = Some x" and "\<forall>req name. \<exists>res. asks req name res"
  shows "\<exists>s' req name res hit. cc_run pkg asks now s now s' \<and> ccCallers s' i = Some (Got req name res hit)"
proof (cases x)
  case (Missed req name)
  show ?thesis
  proof (cases "ccFlights s (keyOf req name)")
    case None
    note run = cc_run_one [OF cc_step.lead [where asks = asks and pkg = pkg and now = now, OF assms(2) [unfolded Missed] None]]
    from waiting_served [OF run, of i req name] assms(3) show ?thesis by fastforce
  next
    case (Some f)
    note run = cc_run_one [OF cc_step.join [where asks = asks and pkg = pkg and now = now, OF assms(2) [unfolded Missed] Some]]
    from waiting_served [OF run, of i req name] assms(3) Some show ?thesis by fastforce
  qed
next
  case (Waits req name)
  with assms(1,2) have "ccFlights s (keyOf req name) \<noteq> None" by (force simp: cc_inv_def)
  from waiting_served [OF cc_run.start _ this assms(3)] Waits assms(2) show ?thesis by blast
next
  case (Shares req name res)
  with cc_run_one [OF cc_step.take] assms(2) show ?thesis by fastforce
next
  case (Got req name res hit)
  with cc_run.start assms(2) show ?thesis by blast
qed

section \<open>One caller alone\<close>

text \<open>The steps of a caller without others make the function \<open>GetResponseLambda\<close> of \<open>Dns_Cache\<close>.\<close>

lemma alone:
  assumes "GetResponseLambda pkg now req name lambda c s = ((resp, hit), c', s')"
    and "asks req name (fst (lambda s))"
  shows "\<exists>u. cc_run pkg asks now (idle_cache c) now u \<and> ccCache u = c' \<and> ccFlights u = Map.empty \<and>
    ccCallers u = [0 \<mapsto> Got req name resp hit]"
proof -
  let ?s = "idle_cache c"
  obtain r d err s1 where l: "lambda s = ((r, d, err), s1)" by (metis prod.collapse)
  with assms(2) have a: "asks req name (r, d, err)" by simp
  have free: "ccCallers ?s 0 = None" by (simp add: idle_cache_def)
  show ?thesis
  proof (cases "keyable req name")
    case False
    then have nk: "name = [] \<or> length (Question req) \<noteq> 1" by (auto simp: keyable_def)
    have "resp = (if err = None then r else None) \<and> \<not> hit \<and> c' = c"
      using assms(1) l nk by (auto simp: GetResponseLambda_def split: option.splits)
    with cc_run_one [OF cc_step.direct [where asks = asks and pkg = pkg and now = now, OF free False a]] show ?thesis
      by (fastforce simp: idle_cache_def)
  next
    case True
    then have k: "name \<noteq> []" "length (Question req) = 1" by (simp_all add: keyable_def)
    let ?key = "keyOf req name"
    obtain g c1 where g: "getByKey pkg now req ?key c = (g, c1)" by (rule prod.exhaust)
    then have g': "getByKey pkg now req ?key (ccCache ?s) = (g, c1)" by (simp add: idle_cache_def)
    show ?thesis
    proof (cases g)
      case (Some x)
      with assms(1) k g have "resp = Some x" "hit" "c' = c1" by (auto simp: GetResponseLambda_def keyOf_def Let_def)
      with cc_run_one [OF cc_step.hit [OF free True g' [unfolded Some], of asks]] show ?thesis
        by (fastforce simp: idle_cache_def)
    next
      case None
      note 1 = cc_run_one [OF cc_step.miss [OF free True g' [unfolded None], of asks]]
      note 2 = cc_run_snoc [OF 1 cc_step.lead [of _ 0 req name]]
      have c2: "\<And>key res. landed key res [0 \<mapsto> Waits req name] =
          (if ?key = key then [0 \<mapsto> Shares req name res] else [0 \<mapsto> Waits req name])"
        by (auto simp: landed_def)
      show ?thesis
      proof (cases "err \<noteq> None \<or> r = None")
        case True
        then have res: "resp = joinFlight req None" "\<not> hit" "c' = c1"
          using assms(1) k g None l by (auto simp: GetResponseLambda_def keyOf_def Let_def split: option.splits)
        note 3 = cc_run_snoc [OF 2 cc_step.no_answer [of _ ?key req name asks r d err]]
        note 4 = cc_run_snoc [OF 3 cc_step.take [of _ 0 req name None]]
        show ?thesis
          by (rule exI, rule conjI, rule 4) (use a True res in \<open>auto simp: idle_cache_def c2\<close>)
      next
        case False
        then obtain m where m: "r = Some m" "err = None" by auto
        with a have am: "asks req name (Some m, d, None)" by simp
        have res: "resp = joinFlight req (Some m)" "\<not> hit" "c' = setByKey pkg now (m\<lparr>Data := []\<rparr>) ?key d c1"
          using assms(1) k g None l m by (auto simp: GetResponseLambda_def keyOf_def Let_def)
        note 3 = cc_run_snoc [OF 2 cc_step.answer [of _ ?key req name asks m d]]
        note 4 = cc_run_snoc [OF 3 cc_step.store [of _ ?key m d]]
        note 5 = cc_run_snoc [OF 4 cc_step.land [of _ ?key m]]
        note 6 = cc_run_snoc [OF 5 cc_step.take [of _ 0 req name "Some m"]]
        show ?thesis
          by (rule exI, rule conjI, rule 6) (use am res in \<open>auto simp: idle_cache_def c2\<close>)
      qed
    qed
  qed
qed

section \<open>The property\<close>

text \<open>
  C14. However the callers of the cache interleave, and whatever upstream answers: every reply that a
  caller gets is one that upstream gave to a caller for the same name and with a question of the same type and class,
  be it from the cache or from a flight that it joined, and it has the caller's own identity. So no reply to another
  name, type or class is ever taken for it. A caller without a key (an empty name, or not one question) gets the reply
  to its own request. And no caller is stuck: from every state that is reached, each one can still get its
  result, in particular one that waits always has a flight under way.
\<close>

theorem cache_interleaved:
  assumes "ttl_cache pkg items" and "items (cCache c) = Map.empty" and "0 < minTTL c" and "minTTL c \<le> maxTTL c"
    and "cc_run pkg asks t0 (idle_cache c) t s" and "\<forall>req name. \<exists>res. asks req name res"
  shows "(\<forall>i req name resp hit. ccCallers s i = Some (Got req name (Some resp) hit) \<longrightarrow>
       right_reply asks req name resp hit) \<and>
    (\<forall>i x. ccCallers s i = Some x \<longrightarrow>
       (\<exists>s' req name res hit. cc_run pkg asks t s t s' \<and> ccCallers s' i = Some (Got req name res hit)))"
proof -
  have "cc_inv items asks t0 (idle_cache c)"
    using assms(2-4) by (simp add: cc_inv_def idle_cache_def keyed_inv_def)
  with ttl_cache.cc_run_inv [OF assms(1,5)] have inv: "cc_inv items asks t s" by blast
  then have "\<forall>i x. ccCallers s i = Some x \<longrightarrow> caller_ok asks (ccFlights s) x" by (simp add: cc_inv_def)
  with no_caller_stuck [OF inv _ assms(6)] show ?thesis by fastforce
qed

text \<open>Two clients ask the same at once: one asks upstream, the other joins and gets its own copy.\<close>

definition emptyCache :: "(bytes \<times> msg \<times> time) list Cache" where
  "emptyCache = \<lparr>cCache = [], minTTL = 60 * seconds, maxTTL = 3600 * seconds\<rparr>"

definition twin_query :: msg where "twin_query = demo_query\<lparr>ID := 8\<rparr>"

definition demo_asks :: asking where "demo_asks req name res \<longleftrightarrow>
     res = (if name = ''example.com'' then Some demo_reply else None, 0, None)"

abbreviation twinKey :: bytes where
  "twinKey \<equiv> keyOf demo_query ''example.com''"

lemma twin_keys:
  "keyable demo_query ''example.com''" "keyable twin_query ''example.com''"
  "keyOf twin_query ''example.com'' = twinKey"
  by (simp_all add: keyable_def twin_query_def keyOf_def demo_query_def)

lemma twin_misses: "getByKey memCache 0 q key emptyCache = (None, emptyCache)"
  by (simp add: getByKey_def emptyCache_def memCache_def)

text \<open>A state of the cache with its flights and callers; and the steps that the two take.\<close>

abbreviation at_state :: "'c Cache \<Rightarrow> (bytes \<rightharpoonup> cflight) \<Rightarrow> (nat \<rightharpoonup> caller) \<Rightarrow> 'c cstate" where
  "at_state c fs cs \<equiv> \<lparr>ccCache = c, ccFlights = fs, ccCallers = cs\<rparr>"

lemma twin_joins:
  "cc_run memCache demo_asks 0 (idle_cache emptyCache) 0 (at_state emptyCache [twinKey \<mapsto> Asking demo_query ''example.com'']
     [0 \<mapsto> Waits demo_query ''example.com'', 1 \<mapsto> Waits twin_query ''example.com''])"
proof -
  let ?run = "cc_run memCache demo_asks 0 (idle_cache emptyCache) 0"
  let ?n = "''example.com''"
  let ?m0 = "Missed demo_query ?n" and ?m1 = "Missed twin_query ?n" and ?w0 = "Waits demo_query ?n"
  have "?run (at_state emptyCache Map.empty [0 \<mapsto> ?m0])"
    using cc_run_one [OF cc_step.miss [of "at_state emptyCache Map.empty Map.empty" 0 demo_query ?n]]
    by (simp add: twin_keys twin_misses idle_cache_def)
  from cc_run_snoc [OF this cc_step.miss [of _ 1 twin_query ?n]]
  have "?run (at_state emptyCache Map.empty [0 \<mapsto> ?m0, 1 \<mapsto> ?m1])"
    by (simp add: twin_keys twin_misses)
  from cc_run_snoc [OF this cc_step.lead [of _ 0 demo_query ?n]]
  have "?run (at_state emptyCache [twinKey \<mapsto> Asking demo_query ''example.com''] [0 \<mapsto> ?w0, 1 \<mapsto> ?m1])"
    by (simp add: fun_upd_twist)
  from cc_run_snoc [OF this cc_step.join [of _ 1 twin_query ?n "Asking demo_query ?n"]]
  show ?thesis by (simp add: twin_keys)
qed

lemma twin_run:
  "\<exists>s. cc_run memCache demo_asks 0 (idle_cache emptyCache) 0 s \<and>
     ccCallers s 1 = Some (Got twin_query ''example.com'' (Some (demo_reply\<lparr>ID := 8\<rparr>)) False) \<and>
     ccCallers s 0 = Some (Shares demo_query ''example.com'' (Some demo_reply))"
proof -
  let ?n = "''example.com''"
  let ?w = "[0 \<mapsto> Waits demo_query ?n, 1 \<mapsto> Waits twin_query ?n]"
  let ?d = "Some demo_reply"
  let ?c = "setByKey memCache 0 (demo_reply\<lparr>Data := []\<rparr>) twinKey 0 emptyCache"
  let ?run = "cc_run memCache demo_asks 0 (idle_cache emptyCache) 0"
  from cc_run_snoc [OF twin_joins cc_step.answer [of _ twinKey demo_query ?n demo_asks demo_reply 0]]
  have "?run (at_state emptyCache [twinKey \<mapsto> Storing demo_reply 0] ?w)" by (simp add: demo_asks_def)
  from cc_run_snoc [OF this cc_step.store [of _ twinKey demo_reply 0]]
  have "?run (at_state ?c [twinKey \<mapsto> Stored demo_reply] ?w)" by simp
  from cc_run_snoc [OF this cc_step.land [of _ twinKey demo_reply]]
  have "?run (at_state ?c Map.empty (landed twinKey ?d ?w))" by simp
  moreover have "landed twinKey ?d ?w = [0 \<mapsto> Shares demo_query ?n ?d, 1 \<mapsto> Shares twin_query ?n ?d]"
    by (auto simp: landed_def twin_keys)
  ultimately have "?run (at_state ?c Map.empty [0 \<mapsto> Shares demo_query ?n ?d, 1 \<mapsto> Shares twin_query ?n ?d])" by simp
  from cc_run_snoc [OF this cc_step.take [of _ 1 twin_query ?n ?d]]
  have "?run (at_state ?c Map.empty [0 \<mapsto> Shares demo_query ?n ?d,
      1 \<mapsto> Got twin_query ?n (joinFlight twin_query ?d) False])" by simp
  moreover have "joinFlight twin_query ?d = Some (demo_reply\<lparr>ID := 8\<rparr>)"
    by (simp add: joinFlight_def twin_query_def demo_reply_def demo_query_def)
  ultimately show ?thesis by (auto intro!: exI)
qed

lemma cache_interleaved_witness:
  "\<exists>s s' req name res hit. cc_run memCache demo_asks 0 (idle_cache emptyCache) 0 s \<and>
     right_reply demo_asks twin_query ''example.com'' (demo_reply\<lparr>ID := 8\<rparr>) False \<and>
     cc_run memCache demo_asks 0 s 0 s' \<and> ccCallers s' 0 = Some (Got req name res hit)"
proof -
  from twin_run obtain s where s: "cc_run memCache demo_asks 0 (idle_cache emptyCache) 0 s"
    "ccCallers s 1 = Some (Got twin_query ''example.com'' (Some (demo_reply\<lparr>ID := 8\<rparr>)) False)"
    "ccCallers s 0 = Some (Shares demo_query ''example.com'' (Some demo_reply))" by blast
  have "map_of (cCache emptyCache) = Map.empty" "0 < minTTL emptyCache" "minTTL emptyCache \<le> maxTTL emptyCache"
    by (simp_all add: emptyCache_def seconds_def)
  moreover have "\<forall>req name. \<exists>res. demo_asks req name res" by (simp add: demo_asks_def)
  ultimately show ?thesis
    using cache_interleaved [OF memCache.ttl_cache_axioms _ _ _ s(1)] s by blast
qed

end
