(* ===== verification/Shared_Records.thy ===== *)
theory Shared_Records
  imports Dns_Handler
begin

text \<open>
  The records of messages as objects in memory. The other theories read a message as a value; in the
  code a section is a slice of pointers, \<open>Msg.Copy\<close> copies the message but not its records, and
  \<open>filterAnswer\<close> works in the slice that it is given. This theory has the operations of
  \<open>src/server/answer.go\<close>, \<open>src/server/cache/cache.go\<close> and \<open>src/server/dns_handler.go\<close> over a memory in
  which a stored reply and the replies made from it share records, and shows that they give the same
  messages as the definitions on values: what is done for one client changes no stored reply and no
  reply of another.

  Every slice of the code begins at the start of its array (\<open>make\<close>, \<open>in[:0]\<close>), so a slice is an array
  with a length. \<open>Msg.Copy\<close> and the unpacking of a message from the wire are parameters. The list of
  parameters of an SVCB record belongs to its object. \<open>Truncate\<close> and the packing of a reply are left to
  the package: they are not part of the model of this theory.
\<close>

section \<open>Memory\<close>

text \<open>The objects are numbered in the order of their allocation.\<close>

record heap =
  objects :: "rr list"
  arrays :: "nat list list"

record slice =
  sArr :: nat
  sLen :: nat

definition nilSlice :: slice where "nilSlice = \<lparr>sArr = 0, sLen = 0\<rparr>"

definition newRR :: "rr \<Rightarrow> heap \<Rightarrow> nat \<times> heap" where
  "newRR x h = (length (objects h), h\<lparr>objects := objects h @ [x]\<rparr>)"

definition putRR :: "nat \<Rightarrow> rr \<Rightarrow> heap \<Rightarrow> heap" where
  "putRR r x h = h\<lparr>objects := (objects h)[r := x]\<rparr>"

definition makeSlice :: "nat list \<Rightarrow> heap \<Rightarrow> slice \<times> heap" where
  "makeSlice rs h = (\<lparr>sArr = length (arrays h), sLen = length rs\<rparr>, h\<lparr>arrays := arrays h @ [rs]\<rparr>)"

definition putElem :: "slice \<Rightarrow> nat \<Rightarrow> nat \<Rightarrow> heap \<Rightarrow> heap" where
  "putElem s i r h = h\<lparr>arrays := (arrays h)[sArr s := (arrays h ! sArr s)[i := r]]\<rparr>"

lemmas heap_defs = newRR_def putRR_def makeSlice_def putElem_def

definition elems :: "heap \<Rightarrow> slice \<Rightarrow> nat list" where
  "elems h s = take (sLen s) (arrays h ! sArr s)"

definition records :: "heap \<Rightarrow> slice \<Rightarrow> rr list" where
  "records h s = map (\<lambda>r. objects h ! r) (elems h s)"

text \<open>
  A message: its fields without the sections (those of \<open>sMsg\<close> are not read), and the sections as
  slices. \<open>view\<close> is its value.
\<close>

record shared =
  sMsg :: msg
  sAns :: slice
  sNs :: slice
  sExt :: slice

definition view :: "heap \<Rightarrow> shared \<Rightarrow> msg" where
  "view h m = (sMsg m)\<lparr>Answer := records h (sAns m), Ns := records h (sNs m), Extra := records h (sExt m)\<rparr>"

section \<open>Operations\<close>

text \<open>\<open>i\<close> counts the elements read, \<open>j\<close> those written; \<open>k\<close> are left.\<close>

fun filterLoop_mem :: "slice \<Rightarrow> nat \<Rightarrow> nat \<Rightarrow> nat \<Rightarrow> heap \<Rightarrow> nat \<times> heap" where
  "filterLoop_mem s 0 i j h = (j, h)"
| "filterLoop_mem s (Suc k) i j h =
     (let r = arrays h ! sArr s ! i
      in case objects h ! r of
           AAAA d a \<Rightarrow> filterLoop_mem s k (Suc i) j h
         | HTTPS d v \<Rightarrow>
             filterLoop_mem s k (Suc i) (Suc j) (putElem s j r (putRR r (HTTPS d (stripParams v)) h))
         | SVCB d v \<Rightarrow>
             filterLoop_mem s k (Suc i) (Suc j) (putElem s j r (putRR r (SVCB d (stripParams v)) h))
         | _ \<Rightarrow> filterLoop_mem s k (Suc i) (Suc j) (putElem s j r h))"

definition filterAnswer_mem :: "slice \<Rightarrow> heap \<Rightarrow> slice \<times> heap" where
  "filterAnswer_mem s h = (case filterLoop_mem s (sLen s) 0 0 h of (n, h) \<Rightarrow> (s\<lparr>sLen := n\<rparr>, h))"

fun remapLoop_mem ::
  "'s Transformer \<Rightarrow> nat list \<Rightarrow> nat \<Rightarrow> nat \<Rightarrow> 's \<Rightarrow> heap \<Rightarrow> (nat list \<times> nat \<times> nat) \<times> 's \<times> heap"
where
  "remapLoop_mem tr [] att failed s h = (([], att, failed), s, h)"
| "remapLoop_mem tr (r # rs) att failed s h =
     (case objects h ! r of
        A d a \<Rightarrow>
          (case tr d a s of
             (Inl err, s) \<Rightarrow> remapLoop_mem tr rs (att + 1) (failed + 1) s h
           | (Inr None, s) \<Rightarrow> remapLoop_mem tr rs (att + 1) failed s h
           | (Inr (Some (d', a')), s) \<Rightarrow>
               (case newRR (A d' a') h of
                  (na, h) \<Rightarrow>
               (case remapLoop_mem tr rs (att + 1) failed s h of
                  ((out, n, f), s, h) \<Rightarrow> ((na # out, n, f), s, h))))
      | _ \<Rightarrow>
          (case remapLoop_mem tr rs att failed s h of
             ((out, n, f), s, h) \<Rightarrow> ((r # out, n, f), s, h)))"

definition remapAnswer_mem ::
  "'s Transformer \<Rightarrow> slice \<Rightarrow> 's \<Rightarrow> heap \<Rightarrow> (slice \<times> nat \<times> nat) \<times> 's \<times> heap"
where
  "remapAnswer_mem tr sl s h =
     (case remapLoop_mem tr (elems h sl) 0 0 s h of
        ((out, att, failed), s, h) \<Rightarrow>
          (case makeSlice out h of (sl, h) \<Rightarrow> ((sl, att, failed), s, h)))"

text \<open>\<open>Clone\<close> makes a new object; the TTL is then written to it.\<close>

fun cloneLoop_mem :: "u32 \<Rightarrow> nat list \<Rightarrow> heap \<Rightarrow> nat list \<times> heap" where
  "cloneLoop_mem t [] h = ([], h)"
| "cloneLoop_mem t (r # rs) h =
     (case newRR (objects h ! r) h of
        (cp, h) \<Rightarrow>
     (case cloneLoop_mem t rs (putRR cp (setTTL t (objects h ! cp)) h) of
        (out, h) \<Rightarrow> (cp # out, h)))"

definition cloneWithTTL_mem :: "slice \<Rightarrow> u32 \<Rightarrow> heap \<Rightarrow> slice \<times> heap" where
  "cloneWithTTL_mem sl t h =
     (if sLen sl = 0 then (sl, h)
      else (case cloneLoop_mem t (elems h sl) h of (out, h) \<Rightarrow> makeSlice out h))"

text \<open>What \<open>getByKey\<close> makes of the stored message when it is still valid.\<close>

definition hit_mem :: "(shared \<Rightarrow> heap \<Rightarrow> shared \<times> heap) \<Rightarrow> u16 \<Rightarrow> u32 \<Rightarrow> shared \<Rightarrow> heap \<Rightarrow> shared \<times> heap" where
  "hit_mem copy q t item h =
     (case copy item h of
        (resp, h) \<Rightarrow>
     (case cloneWithTTL_mem (sAns resp) t h of
        (ans, h) \<Rightarrow>
     (case cloneWithTTL_mem (sNs resp) t h of
        (ns, h) \<Rightarrow>
     (case cloneWithTTL_mem (sExt resp) t h of
        (ext, h) \<Rightarrow> (resp\<lparr>sMsg := (sMsg resp)\<lparr>ID := q\<rparr>, sAns := ans, sNs := ns, sExt := ext\<rparr>, h)))))"

text \<open>
  What the handler's function does with a message of the resolver; what the flight in
  \<open>GetResponseLambda\<close> does with its result, the message that all who wait share and the copy to store;
  and the copy that each of them takes of the shared message.
\<close>

definition filterReply_mem :: "shared \<Rightarrow> heap \<Rightarrow> shared \<times> heap" where
  "filterReply_mem resp h =
     (case filterAnswer_mem (sAns resp) h of
        (ans, h) \<Rightarrow>
     (case filterAnswer_mem (sExt resp) h of
        (ext, h) \<Rightarrow> (resp\<lparr>sMsg := (sMsg resp)\<lparr>Data := []\<rparr>, sAns := ans, sExt := ext\<rparr>, h)))"

definition flight_mem ::
  "(shared \<Rightarrow> heap \<Rightarrow> shared \<times> heap) \<Rightarrow> shared \<Rightarrow> heap \<Rightarrow> (shared \<times> shared) \<times> heap"
where
  "flight_mem copy resp h =
     (case filterReply_mem resp h of
        (r, h) \<Rightarrow>
     (case copy r h of
        (kept, h) \<Rightarrow> ((r, kept\<lparr>sMsg := (sMsg kept)\<lparr>Data := []\<rparr>\<rparr>), h)))"

definition join_mem :: "(shared \<Rightarrow> heap \<Rightarrow> shared \<times> heap) \<Rightarrow> u16 \<Rightarrow> shared \<Rightarrow> heap \<Rightarrow> shared \<times> heap" where
  "join_mem copy q r h =
     (case copy r h of
        (resp, h) \<Rightarrow> (resp\<lparr>sMsg := (sMsg resp)\<lparr>Data := [], ID := q\<rparr>\<rparr>, h))"

definition remapReply_mem :: "'s Transformer \<Rightarrow> shared \<Rightarrow> 's \<Rightarrow> heap \<Rightarrow> shared \<times> 's \<times> heap" where
  "remapReply_mem tr resp s h =
     (case remapAnswer_mem tr (sAns resp) s h of
        ((ans, aAtt, aFail), s, h) \<Rightarrow>
     (case remapAnswer_mem tr (sExt resp) s h of
        ((ext, eAtt, eFail), s, h) \<Rightarrow>
          (let resp = resp\<lparr>sAns := ans, sExt := ext\<rparr>;
               att = aAtt + eAtt
           in if att > 0 \<and> aFail + eFail = att
              then (resp\<lparr>sMsg := (sMsg resp)\<lparr>Rcode := RcodeServerFailure, Data := []\<rparr>,
                         sAns := nilSlice, sNs := nilSlice, sExt := nilSlice\<rparr>, s, h)
              else (resp, s, h))))"

section \<open>Memory that only grows\<close>

definition extends :: "heap \<Rightarrow> heap \<Rightarrow> bool" where
  "extends h h' \<longleftrightarrow> prefix (objects h) (objects h') \<and> prefix (arrays h) (arrays h')"

definition slice_ok :: "heap \<Rightarrow> slice \<Rightarrow> bool" where
  "slice_ok h s \<longleftrightarrow>
     sLen s = 0 \<or>
     sArr s < length (arrays h) \<and> sLen s \<le> length (arrays h ! sArr s) \<and>
     (\<forall>r\<in>set (elems h s). r < length (objects h))"

definition message_ok :: "heap \<Rightarrow> shared \<Rightarrow> bool" where
  "message_ok h m \<longleftrightarrow> slice_ok h (sAns m) \<and> slice_ok h (sNs m) \<and> slice_ok h (sExt m)"

lemma extends_refl [simp]: "extends h h"
  by (simp add: extends_def)

lemma extends_trans [trans]: "extends h h1 \<Longrightarrow> extends h1 h2 \<Longrightarrow> extends h h2"
  by (auto simp: extends_def)

lemma prefix_nth: "prefix xs ys \<Longrightarrow> i < length xs \<Longrightarrow> ys ! i = xs ! i"
  by (auto simp: prefix_def nth_append)

lemma elems_empty [simp]: "sLen s = 0 \<Longrightarrow> elems h s = []"
  by (simp add: elems_def)

lemma slice_ok_bound: "slice_ok h s \<Longrightarrow> r \<in> set (elems h s) \<Longrightarrow> r < length (objects h)"
  by (auto simp: slice_ok_def)

lemma extends_elems: "slice_ok h s \<Longrightarrow> extends h h' \<Longrightarrow> elems h' s = elems h s"
  by (cases "sLen s = 0") (auto simp: slice_ok_def extends_def elems_def prefix_nth)

lemma extends_records:
  assumes "slice_ok h s" and "extends h h'"
  shows "records h' s = records h s"
proof -
  have "objects h' ! r = objects h ! r" if "r \<in> set (elems h s)" for r
    using assms(2) slice_ok_bound [OF assms(1) that] by (simp add: extends_def prefix_nth)
  then show ?thesis by (simp add: records_def extends_elems [OF assms])
qed

lemma extends_slice_ok:
  assumes "slice_ok h s" and "extends h h'"
  shows "slice_ok h' s"
proof (cases "sLen s = 0")
  case False
  note e = assms(2) [unfolded extends_def]
  from False assms(1) have s: "sArr s < length (arrays h)" "sLen s \<le> length (arrays h ! sArr s)"
    "\<forall>r\<in>set (elems h s). r < length (objects h)" by (simp_all add: slice_ok_def)
  moreover have "arrays h' ! sArr s = arrays h ! sArr s" using e s(1) by (simp add: prefix_nth)
  ultimately show ?thesis
    using e prefix_length_le [of "objects h" "objects h'"] prefix_length_le [of "arrays h" "arrays h'"]
    by (auto simp: slice_ok_def extends_elems [OF assms])
qed (simp add: slice_ok_def)

lemma extends_message_ok: "message_ok h m \<Longrightarrow> extends h h' \<Longrightarrow> message_ok h' m"
  by (auto simp: message_ok_def intro: extends_slice_ok)

lemma extends_view: "message_ok h m \<Longrightarrow> extends h h' \<Longrightarrow> view h' m = view h m"
  by (simp add: message_ok_def view_def extends_records)

lemma nilSlice_simps [simp]: "records h nilSlice = []" "slice_ok h nilSlice"
  by (simp_all add: nilSlice_def records_def slice_ok_def)

lemma records_length [simp]: "sLen s = 0 \<Longrightarrow> records h s = []"
  by (simp add: records_def)

lemma newRR_extends: "newRR x h = (r, h') \<Longrightarrow> extends h h' \<and> r = length (objects h) \<and> objects h' = objects h @ [x]"
  by (auto simp: newRR_def extends_def)

lemma makeSlice_new:
  assumes "makeSlice rs h = (s, h')" and "\<forall>r\<in>set rs. r < length (objects h)"
  shows "extends h h' \<and> slice_ok h' s \<and> records h' s = map (\<lambda>r. objects h ! r) rs"
  using assms by (auto simp: makeSlice_def extends_def slice_ok_def elems_def records_def)

section \<open>The operations keep what is there\<close>

lemma cloneLoop_new:
  "cloneLoop_mem t rs h = (out, h') \<Longrightarrow> \<forall>r\<in>set rs. r < length (objects h) \<Longrightarrow>
     extends h h' \<and> (\<forall>r\<in>set out. r < length (objects h')) \<and>
     map (\<lambda>r. objects h' ! r) out = map (\<lambda>r. setTTL t (objects h ! r)) rs"
proof (induction rs arbitrary: h out)
  case (Cons r rs)
  define c where "c = length (objects h)"
  define h1 where "h1 = h\<lparr>objects := objects h @ [setTTL t (objects h ! r)]\<rparr>"
  from Cons.prems(1) obtain out' where l: "cloneLoop_mem t rs h1 = (out', h')" and out: "out = c # out'"
    by (auto simp: heap_defs c_def h1_def split: prod.splits)
  have e1: "extends h h1" by (simp add: extends_def h1_def)
  have "\<forall>r\<in>set rs. r < length (objects h1)" using Cons.prems(2) by (auto simp: h1_def)
  note IH = Cons.IH [OF l this]
  then have e2: "extends h1 h'" by simp
  have c: "c < length (objects h')" "objects h' ! c = setTTL t (objects h ! r)"
    using e2 prefix_nth [of "objects h1" "objects h'" c] prefix_length_le [of "objects h1" "objects h'"]
    by (auto simp: extends_def h1_def c_def)
  have "map (\<lambda>r. setTTL t (objects h1 ! r)) rs = map (\<lambda>r. setTTL t (objects h ! r)) rs"
    using Cons.prems(2) by (auto simp: h1_def nth_append)
  with IH c show ?case by (auto simp: out intro: extends_trans [OF e1])
qed simp

lemma cloneWithTTL_new:
  assumes "cloneWithTTL_mem s t h = (s', h')" and "slice_ok h s"
  shows "extends h h' \<and> slice_ok h' s' \<and> records h' s' = cloneWithTTL (records h s) t"
proof (cases "sLen s = 0")
  case False
  with assms(1) obtain out h1 where l: "cloneLoop_mem t (elems h s) h = (out, h1)"
    and m: "makeSlice out h1 = (s', h')" by (auto simp: cloneWithTTL_mem_def split: prod.splits)
  have "\<forall>r\<in>set (elems h s). r < length (objects h)" using slice_ok_bound [OF assms(2)] by blast
  note c = cloneLoop_new [OF l this]
  with makeSlice_new [OF m] show ?thesis
    by (auto simp: cloneWithTTL_def records_def intro: extends_trans)
qed (use assms in \<open>auto simp: cloneWithTTL_mem_def cloneWithTTL_def\<close>)

lemma remapLoop_new:
  "remapLoop_mem tr rs n f s h = ((out, n', f'), s', h') \<Longrightarrow> \<forall>r\<in>set rs. r < length (objects h) \<Longrightarrow>
     extends h h' \<and> (\<forall>r\<in>set out. r < length (objects h')) \<and>
     remapLoop tr (map (\<lambda>r. objects h ! r) rs) n f s = ((map (\<lambda>r. objects h' ! r) out, n', f'), s')"
proof (induction rs arbitrary: n f s h out)
  case (Cons r rs)
  have r: "r < length (objects h)" and rs: "\<forall>r\<in>set rs. r < length (objects h)" using Cons.prems(2) by simp_all
  show ?case
  proof (cases "addressOf (objects h ! r)")
    case None
    with Cons.prems(1) obtain out' where l: "remapLoop_mem tr rs n f s h = ((out', n', f'), s', h')"
      and out: "out = r # out'"
      by (cases "objects h ! r") (auto split: prod.splits)
    note IH = Cons.IH [OF l rs]
    then have "r < length (objects h') \<and> objects h' ! r = objects h ! r"
      using r prefix_length_le [of "objects h" "objects h'"] by (auto simp: extends_def prefix_nth)
    with IH None show ?thesis by (cases "objects h ! r") (auto simp: out)
  next
    case (Some a)
    then obtain d where x: "objects h ! r = A d a" by (cases "objects h ! r") auto
    obtain res s1 where t: "tr d a s = (res, s1)" by (rule prod.exhaust)
    show ?thesis
    proof (cases "\<exists>d' a'. res = Inr (Some (d', a'))")
      case True
      then obtain d' a' where res: "res = Inr (Some (d', a'))" by blast
      define c where "c = length (objects h)"
      define h1 where "h1 = h\<lparr>objects := objects h @ [A d' a']\<rparr>"
      from Cons.prems(1) x t res obtain out' where
        l: "remapLoop_mem tr rs (n + 1) f s1 h1 = ((out', n', f'), s', h')" and out: "out = c # out'"
        by (auto simp: heap_defs c_def h1_def split: prod.splits)
      have e1: "extends h h1" by (simp add: extends_def h1_def)
      have "\<forall>r\<in>set rs. r < length (objects h1)" using rs by (auto simp: h1_def)
      note IH = Cons.IH [OF l this]
      then have e2: "extends h1 h'" by simp
      have c: "c < length (objects h')" "objects h' ! c = A d' a'"
        using e2 prefix_nth [of "objects h1" "objects h'" c] prefix_length_le [of "objects h1" "objects h'"]
        by (auto simp: extends_def h1_def c_def)
      have "map (\<lambda>r. objects h1 ! r) rs = map (\<lambda>r. objects h ! r) rs"
        using rs by (auto simp: h1_def nth_append)
      with IH c x t res show ?thesis by (auto simp: out intro: extends_trans [OF e1])
    next
      case False
      then have "(\<exists>e. res = Inl e) \<or> res = Inr None"
        by (cases res) (auto, metis not_None_eq surj_pair)
      with Cons.prems(1) t x obtain m where l: "remapLoop_mem tr rs (n + 1) m s1 h = ((out, n', f'), s', h')"
        and v: "remapLoop tr (map (\<lambda>r. objects h ! r) (r # rs)) n f s =
          remapLoop tr (map (\<lambda>r. objects h ! r) rs) (n + 1) m s1" by auto
      from Cons.IH [OF l rs] show ?thesis unfolding v .
    qed
  qed
qed simp

lemma remapAnswer_new:
  assumes "remapAnswer_mem tr sl s h = ((out, n, f), s', h')" and "slice_ok h sl"
  shows "extends h h' \<and> slice_ok h' out \<and> remapAnswer tr (records h sl) s = ((records h' out, n, f), s')"
proof -
  from assms(1) obtain rs h1 where l: "remapLoop_mem tr (elems h sl) 0 0 s h = ((rs, n, f), s', h1)"
    and m: "makeSlice rs h1 = (out, h')" by (auto simp: remapAnswer_mem_def split: prod.splits)
  have "\<forall>r\<in>set (elems h sl). r < length (objects h)" using slice_ok_bound [OF assms(2)] by blast
  note c = remapLoop_new [OF l this]
  with makeSlice_new [OF m] show ?thesis
    by (auto simp: remapAnswer_def records_def intro: extends_trans)
qed

lemma remapReply_new:
  assumes "remapReply_mem tr m s h = (m', s', h')" and "message_ok h m"
  shows "extends h h' \<and> message_ok h' m' \<and> remapReply tr (view h m) s = (view h' m', s')"
proof -
  obtain ans n f s1 h1 where a: "remapAnswer_mem tr (sAns m) s h = ((ans, n, f), s1, h1)"
    by (metis prod.collapse)
  obtain ext n' f' s2 h2 where e: "remapAnswer_mem tr (sExt m) s1 h1 = ((ext, n', f'), s2, h2)"
    by (metis prod.collapse)
  have 1: "extends h h1" "slice_ok h1 ans" "remapAnswer tr (records h (sAns m)) s = ((records h1 ans, n, f), s1)"
    using remapAnswer_new [OF a] assms(2) by (simp_all add: message_ok_def)
  have ok1: "message_ok h1 m" using extends_message_ok [OF assms(2) 1(1)] .
  then have 2: "extends h1 h2" "slice_ok h2 ext"
    "remapAnswer tr (records h1 (sExt m)) s1 = ((records h2 ext, n', f'), s2)"
    using remapAnswer_new [OF e] by (simp_all add: message_ok_def)
  have 3: "records h1 (sExt m) = records h (sExt m)" "records h2 ans = records h1 ans" "slice_ok h2 ans"
    "extends h h2"
    using extends_records [of h "sExt m" h1] extends_records [of h1 ans h2] extends_slice_ok [of h1 ans h2]
      assms(2) 1 2 extends_trans by (auto simp: message_ok_def)
  have 4: "records h2 (sNs m) = records h (sNs m)" "slice_ok h2 (sNs m)"
    using extends_records [of h "sNs m" h2] extends_slice_ok [of h "sNs m" h2] assms(2) 3(4)
    by (auto simp: message_ok_def)
  show ?thesis
    using assms(1) a e 1(3) 2(2,3) 3 4
    by (auto simp: remapReply_mem_def remapReply_def view_def message_ok_def Let_def split: if_splits)
qed

section \<open>The filter in place\<close>

text \<open>What the filter leaves of a record, and which records it drops.\<close>

fun stripped :: "rr \<Rightarrow> rr" where
  "stripped (HTTPS d v) = HTTPS d (stripParams v)"
| "stripped (SVCB d v) = SVCB d (stripParams v)"
| "stripped x = x"

fun isAAAA :: "rr \<Rightarrow> bool" where
  "isAAAA (AAAA _ _) = True"
| "isAAAA _ = False"

lemma stripped_idem [simp]: "stripped (stripped x) = stripped x"
  by (cases x) (simp_all add: stripParams_def)

lemma isAAAA_stripped [simp]: "isAAAA (stripped x) = isAAAA x"
  by (cases x) simp_all

lemma filterAnswer_map: "filterAnswer rrs = map stripped (filter (\<lambda>x. \<not> isAAAA x) rrs)"
  by (induction rrs rule: filterAnswer.induct) simp_all

lemma putRR_same: "x = objects h ! r \<Longrightarrow> putRR r x h = h"
  by (simp add: putRR_def)

lemma filterLoop_Suc:
  "filterLoop_mem s (Suc k) i j h =
     (let r = arrays h ! sArr s ! i;
          h1 = putRR r (stripped (objects h ! r)) h
      in if isAAAA (objects h ! r) then filterLoop_mem s k (Suc i) j h1
         else filterLoop_mem s k (Suc i) (Suc j) (putElem s j r h1))"
  by (cases "objects h ! (arrays h ! sArr s ! i)") (simp_all add: Let_def putRR_same)

lemma drop_take_Suc: "i < length xs \<Longrightarrow> drop i (take (i + Suc k) xs) = xs ! i # drop (Suc i) (take (Suc i + k) xs)"
  by (metis Cons_nth_drop_Suc add.commute add_Suc_right add_Suc_shift drop_take
      diff_add_inverse take_Suc_Cons)

lemma filterLoop_result:
  "filterLoop_mem s k i j h = (n, h') \<Longrightarrow> sArr s < length (arrays h) \<Longrightarrow> arrays h ! sArr s = xs \<Longrightarrow>
   rs = drop i (take (i + k) xs) \<Longrightarrow> j \<le> i \<Longrightarrow> i + k \<le> length xs \<Longrightarrow> \<forall>r\<in>set rs. r < length (objects h) \<Longrightarrow>
     take n (arrays h' ! sArr s) = take j xs @ filter (\<lambda>r. \<not> isAAAA (objects h ! r)) rs \<and>
     n \<le> i + k \<and> length (arrays h' ! sArr s) = length xs \<and>
     arrays h' = (arrays h)[sArr s := arrays h' ! sArr s] \<and> length (objects h') = length (objects h) \<and>
     (\<forall>q. objects h' ! q = (if q \<in> set rs then stripped (objects h ! q) else objects h ! q))"
proof (induction k arbitrary: i j h xs rs)
  case (Suc k)
  define r where "r = xs ! i"
  define h1 where "h1 = putRR r (stripped (objects h ! r)) h"
  define rest where "rest = drop (Suc i) (take (Suc i + k) xs)"
  have i: "i < length xs" using Suc.prems(6) by simp
  have rs: "rs = r # rest"
    using drop_take_Suc [OF i, of k] Suc.prems(4) by (simp only: r_def rest_def)
  have r: "r < length (objects h)" and rest: "\<forall>r\<in>set rest. r < length (objects h)"
    using Suc.prems(7) rs by simp_all
  have h1: "arrays h1 = arrays h" "length (objects h1) = length (objects h)"
    by (simp_all add: h1_def putRR_def)
  have obj: "objects h1 ! q = (if q = r then stripped (objects h ! r) else objects h ! q)" for q
    using r by (auto simp: h1_def putRR_def)
  have aaaa: "isAAAA (objects h1 ! q) = isAAAA (objects h ! q)" for q by (simp add: obj)
  have i': "Suc i + k \<le> length xs" "j \<le> Suc i" using Suc.prems(5,6) by simp_all
  show ?case
  proof (cases "isAAAA (objects h ! r)")
    case True
    with Suc.prems(1,3) have l: "filterLoop_mem s k (Suc i) j h1 = (n, h')"
      by (simp add: filterLoop_Suc Let_def h1_def r_def del: filterLoop_mem.simps)
    have "sArr s < length (arrays h1)" "arrays h1 ! sArr s = xs" "\<forall>r\<in>set rest. r < length (objects h1)"
      using Suc.prems(2,3) rest by (simp_all add: h1)
    from Suc.IH [OF l this(1,2) rest_def i'(2,1) this(3)] True show ?thesis
      by (simp only: aaaa) (auto simp: rs obj h1)
  next
    case False
    define h2 where "h2 = putElem s j r h1"
    define ys where "ys = xs[j := r]"
    have h2: "arrays h2 = (arrays h)[sArr s := ys]" "objects h2 = objects h1"
      by (simp_all add: h2_def putElem_def h1(1) ys_def Suc.prems(3))
    from False Suc.prems(1,3) have l: "filterLoop_mem s k (Suc i) (Suc j) h2 = (n, h')"
      by (simp add: filterLoop_Suc Let_def h1_def h2_def r_def del: filterLoop_mem.simps)
    have ys: "rest = drop (Suc i) (take (Suc i + k) ys)" "take (Suc j) ys = take j xs @ [r]"
      "length ys = length xs"
      using Suc.prems(5) i by (simp_all add: ys_def rest_def take_update_swap take_Suc_conv_app_nth list_update_append)
    have pre: "sArr s < length (arrays h2)" "arrays h2 ! sArr s = ys" "Suc j \<le> Suc i"
      "Suc i + k \<le> length ys" "\<forall>r\<in>set rest. r < length (objects h2)"
      using Suc.prems(2,5) i'(1) rest by (simp_all add: h1(2) h2 ys(3))
    from Suc.IH [OF l pre(1,2) ys(1) pre(3-5)] False show ?thesis
      by (simp only: h2(2) aaaa) (auto simp: rs obj h1(2) h2(1) ys(2,3))
  qed
qed auto

text \<open>
  A section that was allocated after the memory \<open>h0\<close>: the filter gives the message's value without
  the dropped records, writes nothing of \<open>h0\<close>, and leaves a section with other objects alone.
\<close>

definition newer :: "heap \<Rightarrow> heap \<Rightarrow> slice \<Rightarrow> bool" where
  "newer h0 h s \<longleftrightarrow>
     sLen s = 0 \<or> length (arrays h0) \<le> sArr s \<and> (\<forall>r\<in>set (elems h s). length (objects h0) \<le> r)"

definition apart :: "heap \<Rightarrow> slice \<Rightarrow> slice \<Rightarrow> bool" where
  "apart h s t \<longleftrightarrow>
     sLen s = 0 \<or> sLen t = 0 \<or> sArr s \<noteq> sArr t \<and> set (elems h s) \<inter> set (elems h t) = {}"

lemma prefix_update: "prefix xs ys \<Longrightarrow> length xs \<le> i \<Longrightarrow> prefix xs (ys[i := y])"
  by (auto simp: prefix_def list_update_append)

lemma prefix_nthI:
  assumes "length xs \<le> length ys" and "\<And>i. i < length xs \<Longrightarrow> ys ! i = xs ! i"
  shows "prefix xs ys"
proof -
  have "xs = take (length xs) ys" using assms by (intro nth_equalityI) auto
  then show ?thesis by (metis take_is_prefix)
qed

lemma filterAnswer_mem_result:
  assumes "filterAnswer_mem s h = (s', h')" and "slice_ok h s"
  shows "slice_ok h' s'" and "records h' s' = filterAnswer (records h s)"
    and "sArr s' = sArr s \<and> sLen s' \<le> sLen s \<and> set (elems h' s') \<subseteq> set (elems h s)"
    and "extends h0 h \<Longrightarrow> newer h0 h s \<Longrightarrow> extends h0 h'"
    and "slice_ok h t \<Longrightarrow> apart h s t \<Longrightarrow> slice_ok h' t \<and> elems h' t = elems h t \<and> records h' t = records h t"
proof -
  have "slice_ok h' s' \<and> records h' s' = filterAnswer (records h s) \<and> (sArr s' = sArr s \<and> sLen s' \<le> sLen s \<and> set (elems h' s') \<subseteq> set (elems h s)) \<and>
    (extends h0 h \<longrightarrow> newer h0 h s \<longrightarrow> extends h0 h') \<and>
    (slice_ok h t \<longrightarrow> apart h s t \<longrightarrow> slice_ok h' t \<and> elems h' t = elems h t \<and> records h' t = records h t)"
  proof (cases "sLen s = 0")
    case True
    with assms(1) have "h' = h" "s' = s" by (auto simp: filterAnswer_mem_def)
    with True assms(2) show ?thesis by simp
  next
    case False
    from assms(1) obtain n where l: "filterLoop_mem s (sLen s) 0 0 h = (n, h')" and s': "s' = s\<lparr>sLen := n\<rparr>"
      by (auto simp: filterAnswer_mem_def split: prod.splits)
    from assms(2) False have ok: "sArr s < length (arrays h)" "sLen s \<le> length (arrays h ! sArr s)"
      "\<forall>r\<in>set (elems h s). r < length (objects h)" by (simp_all add: slice_ok_def)
    have "elems h s = drop 0 (take (0 + sLen s) (arrays h ! sArr s))" by (simp add: elems_def)
    from filterLoop_result [OF l ok(1) refl this] ok(2,3)
    have r: "elems h' s' = filter (\<lambda>r. \<not> isAAAA (objects h ! r)) (elems h s)" "n \<le> sLen s"
      "length (arrays h' ! sArr s) = length (arrays h ! sArr s)"
      and a: "arrays h' = (arrays h)[sArr s := arrays h' ! sArr s]" and lo: "length (objects h') = length (objects h)"
      and o: "\<And>q. objects h' ! q = (if q \<in> set (elems h s) then stripped (objects h ! q) else objects h ! q)"
      by (simp_all add: elems_def s')
    have "length (arrays h') = length (arrays h)" by (subst a) simp
    with r ok lo have 1: "slice_ok h' s'" by (auto simp: slice_ok_def s')
    have 2: "records h' s' = filterAnswer (records h s)"
      by (auto simp: records_def r(1) filterAnswer_map filter_map comp_def o)
    have 3: "extends h0 h'" if e: "extends h0 h" and nw: "newer h0 h s"
    proof -
      from nw False have "length (arrays h0) \<le> sArr s" "\<forall>r\<in>set (elems h s). length (objects h0) \<le> r"
        by (simp_all add: newer_def)
      moreover have "prefix (objects h0) (objects h')"
        using e calculation(2) prefix_length_le [of "objects h0" "objects h"]
        by (intro prefix_nthI) (auto simp: extends_def lo o prefix_nth)
      ultimately show ?thesis using e a by (metis extends_def prefix_update)
    qed
    have 4: "slice_ok h' t \<and> elems h' t = elems h t \<and> records h' t = records h t"
      if t: "slice_ok h t" "apart h s t"
    proof (cases "sLen t = 0")
      case nz: False
      with t(2) False have d: "sArr s \<noteq> sArr t" "set (elems h s) \<inter> set (elems h t) = {}"
        by (simp_all add: apart_def)
      have at: "arrays h' ! sArr t = arrays h ! sArr t" using d(1) by (subst a) simp
      then have et: "elems h' t = elems h t" by (simp add: elems_def)
      have "\<forall>r\<in>set (elems h t). objects h' ! r = objects h ! r" using d(2) by (auto simp: o)
      with et t(1) at lo \<open>length (arrays h') = length (arrays h)\<close> show ?thesis
        by (simp add: slice_ok_def records_def)
    qed (simp add: slice_ok_def)
    have "sArr s' = sArr s \<and> sLen s' \<le> sLen s \<and> set (elems h' s') \<subseteq> set (elems h s)"
      using r(1,2) by (auto simp: s')
    with 1 2 3 4 show ?thesis by blast
  qed
  then show "slice_ok h' s'" and "records h' s' = filterAnswer (records h s)"
    and "sArr s' = sArr s \<and> sLen s' \<le> sLen s \<and> set (elems h' s') \<subseteq> set (elems h s)"
    and "extends h0 h \<Longrightarrow> newer h0 h s \<Longrightarrow> extends h0 h'"
    and "slice_ok h t \<Longrightarrow> apart h s t \<Longrightarrow> slice_ok h' t \<and> elems h' t = elems h t \<and> records h' t = records h t"
    by blast+
qed

section \<open>Stored replies and replies under way\<close>

text \<open>
  What is relied on of the package. The copy is shallow: its sections have the records of the
  original, whether their arrays are shared or copied. A message from the wire has objects of its own,
  none of them in two of its sections.
\<close>

definition shallowCopy :: "(shared \<Rightarrow> heap \<Rightarrow> shared \<times> heap) \<Rightarrow> bool" where
  "shallowCopy copy \<longleftrightarrow>
     (\<forall>m h m' h'. message_ok h m \<longrightarrow> copy m h = (m', h') \<longrightarrow>
        extends h h' \<and> message_ok h' m' \<and> sMsg m' = sMsg m \<and> elems h' (sAns m') = elems h (sAns m) \<and>
        elems h' (sNs m') = elems h (sNs m) \<and> elems h' (sExt m') = elems h (sExt m))"

definition ownObjects :: "(msg \<Rightarrow> heap \<Rightarrow> shared \<times> heap) \<Rightarrow> bool" where
  "ownObjects unpack \<longleftrightarrow>
     (\<forall>v h m h'. unpack v h = (m, h') \<longrightarrow>
        extends h h' \<and> message_ok h' m \<and> view h' m = v \<and>
        newer h h' (sAns m) \<and> newer h h' (sExt m) \<and>
        apart h' (sAns m) (sNs m) \<and> apart h' (sAns m) (sExt m) \<and> apart h' (sExt m) (sNs m))"

text \<open>
  The memory, the messages that are shared (the results of flights and the stored replies), the replies
  that are not yet sent, and the state \<open>world\<close> of the transformers. The events: a flight ends with a
  message of the resolver; one who waits for a flight takes the \<open>i\<close>-th shared message, for a request
  with the ID \<open>q\<close>; a request is answered with the \<open>i\<close>-th shared message from the cache; the \<open>i\<close>-th reply
  under way is remapped.
\<close>

record 's sharing =
  memory :: heap
  kept :: "shared list"
  replies :: "shared list"
  world :: 's

datatype 's event = Arrive msg | Join nat u16 | Hit nat u16 u32 | Remap nat "'s Transformer"

fun share_step ::
  "(msg \<Rightarrow> heap \<Rightarrow> shared \<times> heap) \<Rightarrow> (shared \<Rightarrow> heap \<Rightarrow> shared \<times> heap) \<Rightarrow> 's event \<Rightarrow> 's sharing \<Rightarrow> 's sharing"
where
  "share_step unpack copy (Arrive v) S =
     (case unpack v (memory S) of
        (m, h) \<Rightarrow>
     (case flight_mem copy m h of
        ((r, k), h) \<Rightarrow> S\<lparr>memory := h, kept := kept S @ [r, k]\<rparr>))"
| "share_step unpack copy (Join i q) S =
     (if i < length (kept S)
      then (case join_mem copy q (kept S ! i) (memory S) of
              (r, h) \<Rightarrow> S\<lparr>memory := h, replies := replies S @ [r]\<rparr>)
      else S)"
| "share_step unpack copy (Hit i q t) S =
     (if i < length (kept S)
      then (case hit_mem copy q t (kept S ! i) (memory S) of
              (r, h) \<Rightarrow> S\<lparr>memory := h, replies := replies S @ [r]\<rparr>)
      else S)"
| "share_step unpack copy (Remap i tr) S =
     (if i < length (replies S)
      then (case remapReply_mem tr (replies S ! i) (world S) (memory S) of
              (r, s, h) \<Rightarrow> S\<lparr>memory := h, replies := (replies S)[i := r], world := s\<rparr>)
      else S)"

text \<open>The same events on values, with the definitions of the other theories.\<close>

record 's valued =
  vKept :: "msg list"
  vReplies :: "msg list"
  vWorld :: 's

definition filterReply :: "msg \<Rightarrow> msg" where
  "filterReply m = m\<lparr>Answer := filterAnswer (Answer m), Extra := filterAnswer (Extra m), Data := []\<rparr>"

definition hitReply :: "u16 \<Rightarrow> u32 \<Rightarrow> msg \<Rightarrow> msg" where
  "hitReply q t m = m\<lparr>ID := q, Answer := cloneWithTTL (Answer m) t, Ns := cloneWithTTL (Ns m) t,
     Extra := cloneWithTTL (Extra m) t\<rparr>"

fun value_step :: "'s event \<Rightarrow> 's valued \<Rightarrow> 's valued" where
  "value_step (Arrive v) V = V\<lparr>vKept := vKept V @ [filterReply v, filterReply v]\<rparr>"
| "value_step (Join i q) V =
     (if i < length (vKept V) then V\<lparr>vReplies := vReplies V @ [(vKept V ! i)\<lparr>Data := [], ID := q\<rparr>]\<rparr> else V)"
| "value_step (Hit i q t) V =
     (if i < length (vKept V) then V\<lparr>vReplies := vReplies V @ [hitReply q t (vKept V ! i)]\<rparr> else V)"
| "value_step (Remap i tr) V =
     (if i < length (vReplies V)
      then (case remapReply tr (vReplies V ! i) (vWorld V) of
              (m, s) \<Rightarrow> V\<lparr>vReplies := (vReplies V)[i := m], vWorld := s\<rparr>)
      else V)"

text \<open>These are the values that the resolver's function and the cache give.\<close>

lemma resolveLambda_filterReply:
  assumes "resolveLambda net timeout r st = ((Some m, t, err), st')"
  obtains resp rs where "Resolve net (WithTimeout net timeout Background (fst (snd st))) r (fst st) (snd st) = (Inr resp, rs)"
    and "m = filterReply resp"
  using assms by (auto simp: resolveLambda_def filterReply_def split: prod.splits sum.splits)

lemma getByKey_hitReply:
  assumes "getByKey pkg now req key c = (Some resp, c')"
  obtains m e cc where "tcGet pkg key now (cCache c) = (Some (m, e), cc)"
    and "resp = hitReply (ID req) (word_of_int ((e - now) div seconds)) m"
  using assms by (auto simp: getByKey_def hitReply_def Let_def split: prod.splits option.splits if_splits)

section \<open>The messages are those of the values\<close>

definition values_of :: "'s sharing \<Rightarrow> 's valued" where
  "values_of S = \<lparr>vKept = map (view (memory S)) (kept S), vReplies = map (view (memory S)) (replies S),
     vWorld = world S\<rparr>"

definition sharing_ok :: "'s sharing \<Rightarrow> bool" where
  "sharing_ok S \<longleftrightarrow> list_all (message_ok (memory S)) (kept S @ replies S)"

lemma messages_kept:
  assumes "list_all (message_ok h) ms" and "extends h h'"
  shows "list_all (message_ok h') ms \<and> map (view h') ms = map (view h) ms"
  using assms by (auto simp: list_all_iff extends_message_ok extends_view)

lemma copy_view:
  assumes "shallowCopy copy" and "message_ok h m" and "copy m h = (m', h')"
  shows "extends h h' \<and> message_ok h' m' \<and> sMsg m' = sMsg m \<and> view h' m' = view h m"
proof -
  from assms have c: "extends h h'" "message_ok h' m'" "sMsg m' = sMsg m"
    "elems h' (sAns m') = elems h (sAns m)" "elems h' (sNs m') = elems h (sNs m)"
    "elems h' (sExt m') = elems h (sExt m)" unfolding shallowCopy_def by blast+
  have "records h' t' = records h t" if "slice_ok h t" "elems h' t' = elems h t" for t t'
    using extends_records [OF that(1) c(1)] extends_elems [OF that(1) c(1)] that(2) by (simp add: records_def)
  with c assms(2) show ?thesis by (simp add: view_def message_ok_def)
qed

lemma hit_result:
  assumes "shallowCopy copy" and "message_ok h m" and "hit_mem copy q t m h = (m', h')"
  shows "extends h h' \<and> message_ok h' m' \<and> view h' m' = hitReply q t (view h m)"
proof -
  obtain r h1 where c: "copy m h = (r, h1)" by (rule prod.exhaust)
  obtain ans h2 where a: "cloneWithTTL_mem (sAns r) t h1 = (ans, h2)" by (rule prod.exhaust)
  obtain ns h3 where n: "cloneWithTTL_mem (sNs r) t h2 = (ns, h3)" by (rule prod.exhaust)
  obtain ext h4 where e: "cloneWithTTL_mem (sExt r) t h3 = (ext, h4)" by (rule prod.exhaust)
  from assms(3) c a n e have r: "m' = r\<lparr>sMsg := (sMsg r)\<lparr>ID := q\<rparr>, sAns := ans, sNs := ns, sExt := ext\<rparr>"
    and h': "h' = h4" by (simp_all add: hit_mem_def)
  note 1 = copy_view [OF assms(1,2) c]
  have ok1: "message_ok h1 r" using 1 by blast
  note 2 = cloneWithTTL_new [OF a] 
  have x2: "extends h1 h2" "slice_ok h2 ans" "records h2 ans = cloneWithTTL (records h1 (sAns r)) t"
    using 2 ok1 by (simp_all add: message_ok_def)
  note ok2 = extends_message_ok [OF ok1 x2(1)]
  have x3: "extends h2 h3" "slice_ok h3 ns" "records h3 ns = cloneWithTTL (records h2 (sNs r)) t"
    using cloneWithTTL_new [OF n] ok2 by (simp_all add: message_ok_def)
  note ok3 = extends_message_ok [OF ok2 x3(1)]
  have x4: "extends h3 h4" "slice_ok h4 ext" "records h4 ext = cloneWithTTL (records h3 (sExt r)) t"
    using cloneWithTTL_new [OF e] ok3 by (simp_all add: message_ok_def)
  have x24: "extends h2 h4" "extends h1 h3" using x2(1) x3(1) x4(1) by (blast intro: extends_trans)+
  have s: "records h2 (sNs r) = records h1 (sNs r)" "records h3 (sExt r) = records h1 (sExt r)"
    using extends_records [OF _ x2(1)] extends_records [OF _ x24(2)] ok1 by (simp_all add: message_ok_def)
  have "records h4 ans = records h2 ans" "slice_ok h4 ans" "records h4 ns = records h3 ns" "slice_ok h4 ns"
    using extends_records [OF x2(2) x24(1)] extends_slice_ok [OF x2(2) x24(1)]
      extends_records [OF x3(2) x4(1)] extends_slice_ok [OF x3(2) x4(1)] by simp_all
  moreover have "extends h h4" using 1 x2(1) x24(1) by (blast intro: extends_trans)
  moreover have "hitReply q t (view h m) = hitReply q t (view h1 r)" using 1 by simp
  ultimately show ?thesis
    using x2(3) x3(3) x4(2,3) s by (simp add: r h' message_ok_def view_def hitReply_def)
qed

lemma view_sMsg:
  "view h (m\<lparr>sMsg := (sMsg m)\<lparr>Data := []\<rparr>\<rparr>) = (view h m)\<lparr>Data := []\<rparr>"
  "view h (m\<lparr>sMsg := (sMsg m)\<lparr>Data := [], ID := q\<rparr>\<rparr>) = (view h m)\<lparr>Data := [], ID := q\<rparr>"
  by (simp_all add: view_def)

lemma message_ok_sMsg [simp]: "message_ok h (m\<lparr>sMsg := x\<rparr>) = message_ok h m"
  by (simp add: message_ok_def)

lemma join_result:
  assumes "shallowCopy copy" and "message_ok h m" and "join_mem copy q m h = (r, h')"
  shows "extends h h' \<and> message_ok h' r \<and> view h' r = (view h m)\<lparr>Data := [], ID := q\<rparr>"
proof -
  obtain r' h1 where c: "copy m h = (r', h1)" by (rule prod.exhaust)
  with assms(3) have r: "r = r'\<lparr>sMsg := (sMsg r')\<lparr>Data := [], ID := q\<rparr>\<rparr>" and h': "h' = h1"
    by (simp_all add: join_mem_def)
  have "view h' r = (view h m)\<lparr>Data := [], ID := q\<rparr>"
    unfolding r h' view_sMsg using copy_view [OF assms(1,2) c] by simp
  with copy_view [OF assms(1,2) c] show ?thesis by (simp add: r h')
qed

lemma flight_result:
  assumes "shallowCopy copy" and "extends h0 h" and "message_ok h m"
    and nw: "newer h0 h (sAns m)" "newer h0 h (sExt m)"
    and ap: "apart h (sAns m) (sNs m)" "apart h (sAns m) (sExt m)" "apart h (sExt m) (sNs m)"
    and "flight_mem copy m h = ((r, k), h')"
  shows "extends h0 h' \<and> list_all (message_ok h') [r, k] \<and>
    map (view h') [r, k] = [filterReply (view h m), filterReply (view h m)]"
proof -
  obtain ans h1 where a: "filterAnswer_mem (sAns m) h = (ans, h1)" by (rule prod.exhaust)
  obtain ext h2 where e: "filterAnswer_mem (sExt m) h1 = (ext, h2)" by (rule prod.exhaust)
  define f where "f = m\<lparr>sMsg := (sMsg m)\<lparr>Data := []\<rparr>, sAns := ans, sExt := ext\<rparr>"
  obtain k' h3 where c: "copy f h2 = (k', h3)" by (rule prod.exhaust)
  from assms(9) a e c have k: "k = k'\<lparr>sMsg := (sMsg k')\<lparr>Data := []\<rparr>\<rparr>" and r: "r = f" and h': "h' = h3"
    by (simp_all add: flight_mem_def filterReply_mem_def f_def)
  have ok: "slice_ok h (sAns m)" "slice_ok h (sNs m)" "slice_ok h (sExt m)"
    using assms(3) by (simp_all add: message_ok_def)
  note A = filterAnswer_mem_result [OF a ok(1)]
  have ns1: "slice_ok h1 (sNs m)" "elems h1 (sNs m) = elems h (sNs m)" "records h1 (sNs m) = records h (sNs m)"
    using A(5) [OF ok(2) ap(1)] by blast+
  have ext1: "slice_ok h1 (sExt m)" "elems h1 (sExt m) = elems h (sExt m)" "records h1 (sExt m) = records h (sExt m)"
    using A(5) [OF ok(3) ap(2)] by blast+
  note E = filterAnswer_mem_result [OF e ext1(1)]
  have "apart h1 (sExt m) ans" using ap(2) A(3) unfolding apart_def ext1(2) by force
  then have ans2: "slice_ok h2 ans" "records h2 ans = records h1 ans" using E(5) [OF A(1)] by blast+
  have "apart h1 (sExt m) (sNs m)" using ap(3) by (simp add: apart_def ext1(2) ns1(2))
  then have ns2: "slice_ok h2 (sNs m)" "records h2 (sNs m) = records h (sNs m)"
    using E(5) [OF ns1(1)] ns1(3) by simp_all
  have "newer h0 h1 (sExt m)" using nw(2) by (simp add: newer_def ext1(2))
  then have x2: "extends h0 h2" using A(4) [OF assms(2) nw(1)] E(4) by blast
  have okf: "message_ok h2 f" using ans2 ns2 E(1) by (simp add: f_def message_ok_def)
  have vf: "view h2 f = filterReply (view h m)"
    using ans2(2) ns2(2) A(2) E(2) ext1(3) by (simp add: f_def view_def filterReply_def)
  note K = copy_view [OF assms(1) okf c]
  have "message_ok h3 f" "view h3 f = view h2 f" using extends_message_ok [OF okf] extends_view [OF okf] K by blast+
  moreover have "view h3 k = view h2 f"
    unfolding k view_sMsg using K by (simp add: vf filterReply_def)
  moreover have "extends h0 h3" using x2 K by (blast intro: extends_trans)
  ultimately show ?thesis using K vf by (simp add: k r h')
qed

lemma share_step_values:
  assumes "ownObjects unpack" and "shallowCopy copy" and "sharing_ok S"
  shows "sharing_ok (share_step unpack copy e S) \<and>
    values_of (share_step unpack copy e S) = value_step e (values_of S)"
proof -
  define h where "h = memory S"
  have ok: "list_all (message_ok h) (kept S)" "list_all (message_ok h) (replies S)"
    using assms(3) by (simp_all add: sharing_ok_def h_def)
  show ?thesis
  proof (cases e)
    case (Arrive v)
    obtain m h1 where u: "unpack v h = (m, h1)" by (rule prod.exhaust)
    obtain r k h2 where s: "flight_mem copy m h1 = ((r, k), h2)" by (metis prod.collapse)
    have U: "extends h h1" "message_ok h1 m" "view h1 m = v" "newer h h1 (sAns m)" "newer h h1 (sExt m)"
      "apart h1 (sAns m) (sNs m)" "apart h1 (sAns m) (sExt m)" "apart h1 (sExt m) (sNs m)"
      using assms(1) u unfolding ownObjects_def by blast+
    note M = flight_result [OF assms(2) U(1,2,4-8) s]
    have "extends h h2" using M by blast
    note keep = messages_kept [OF ok(1) this] messages_kept [OF ok(2) this]
    show ?thesis using M U(3) u s keep by (simp add: Arrive sharing_ok_def values_of_def h_def)
  next
    case (Join i q)
    show ?thesis
    proof (cases "i < length (kept S)")
      case True
      obtain r h1 where s: "join_mem copy q (kept S ! i) h = (r, h1)" by (rule prod.exhaust)
      have "message_ok h (kept S ! i)" using ok(1) True by (simp add: list_all_length)
      note M = join_result [OF assms(2) this s]
      have "extends h h1" using M by blast
      note keep = messages_kept [OF ok(1) this] messages_kept [OF ok(2) this]
      show ?thesis using M True s keep by (simp add: Join sharing_ok_def values_of_def h_def)
    qed (use assms(3) Join in \<open>simp add: values_of_def\<close>)
  next
    case (Hit i q t)
    show ?thesis
    proof (cases "i < length (kept S)")
      case True
      obtain r h1 where s: "hit_mem copy q t (kept S ! i) h = (r, h1)" by (rule prod.exhaust)
      have "message_ok h (kept S ! i)" using ok(1) True by (simp add: list_all_length)
      note M = hit_result [OF assms(2) this s]
      have "extends h h1" using M by blast
      note keep = messages_kept [OF ok(1) this] messages_kept [OF ok(2) this]
      show ?thesis using M True s keep by (simp add: Hit sharing_ok_def values_of_def h_def)
    qed (use assms(3) Hit in \<open>simp add: values_of_def\<close>)
  next
    case (Remap i tr)
    show ?thesis
    proof (cases "i < length (replies S)")
      case True
      obtain r w h1 where s: "remapReply_mem tr (replies S ! i) (world S) h = (r, w, h1)"
        by (metis prod.collapse)
      have "message_ok h (replies S ! i)" using ok(2) True by (simp add: list_all_length)
      note M = remapReply_new [OF s this]
      have "extends h h1" using M by blast
      note keep = messages_kept [OF ok(1) this] messages_kept [OF ok(2) this]
      have "list_all (message_ok h1) ((replies S)[i := r])"
        using M keep(2) set_update_subset_insert [of "replies S" i r] by (auto simp: list_all_iff)
      moreover have "map (view h1) ((replies S)[i := r]) = (map (view h) (replies S))[i := view h1 r]"
        using keep(2) by (simp only: map_update)
      ultimately show ?thesis using M True s keep(1)
        by (simp add: Remap sharing_ok_def values_of_def h_def)
    qed (use assms(3) Remap in \<open>simp add: values_of_def\<close>)
  qed
qed

lemma share_run_values:
  assumes "ownObjects unpack" and "shallowCopy copy" and "sharing_ok S"
  shows "sharing_ok (fold (share_step unpack copy) es S) \<and>
    values_of (fold (share_step unpack copy) es S) = fold value_step es (values_of S)"
  using assms(3)
proof (induction es arbitrary: S)
  case (Cons e es)
  show ?case using Cons.IH share_step_values [OF assms(1,2) Cons.prems, of e] by simp
qed simp

definition emptySharing :: "'s \<Rightarrow> 's sharing" where
  "emptySharing w = \<lparr>memory = \<lparr>objects = [], arrays = []\<rparr>, kept = [], replies = [], world = w\<rparr>"

lemma emptySharing_simps [simp]:
  "sharing_ok (emptySharing w)" "values_of (emptySharing w) = \<lparr>vKept = [], vReplies = [], vWorld = w\<rparr>"
  by (simp_all add: emptySharing_def sharing_ok_def values_of_def)

lemma vKept_grows: "prefix (vKept V) (vKept (fold value_step es V))"
proof (induction es arbitrary: V)
  case (Cons e es)
  have "prefix (vKept V) (vKept (value_step e V))" by (cases e) (auto split: prod.splits)
  with Cons.IH show ?case by (auto intro: prefix_order.trans)
qed simp

section \<open>A message package\<close>

text \<open>The simplest package with the laws: every record is a new object, and a copy shares the arrays.\<close>

definition newSection :: "rr list \<Rightarrow> heap \<Rightarrow> slice \<times> heap" where
  "newSection rrs h =
     (\<lparr>sArr = length (arrays h), sLen = length rrs\<rparr>,
      \<lparr>objects = objects h @ rrs,
       arrays = arrays h @ [[length (objects h) ..< length (objects h) + length rrs]]\<rparr>)"

definition newMessage :: "msg \<Rightarrow> heap \<Rightarrow> shared \<times> heap" where
  "newMessage v h =
     (case newSection (Answer v) h of
        (ans, h) \<Rightarrow>
     (case newSection (Ns v) h of
        (ns, h) \<Rightarrow>
     (case newSection (Extra v) h of
        (ext, h) \<Rightarrow> (\<lparr>sMsg = v, sAns = ans, sNs = ns, sExt = ext\<rparr>, h))))"

definition shareMsg :: "shared \<Rightarrow> heap \<Rightarrow> shared \<times> heap" where
  "shareMsg m h = (m, h)"

lemma shareMsg_shallow: "shallowCopy shareMsg"
  by (simp add: shallowCopy_def shareMsg_def)

lemma newSection_new:
  assumes "newSection rrs h = (s, h')"
  shows "extends h h' \<and> slice_ok h' s \<and> records h' s = rrs \<and> sArr s = length (arrays h) \<and>
    sArr s < length (arrays h') \<and>
    set (elems h' s) = {length (objects h) ..< length (objects h')}"
  using assms
  by (auto simp: newSection_def extends_def slice_ok_def records_def elems_def nth_append intro!: nth_equalityI)

lemma newMessage_own: "ownObjects newMessage"
  unfolding ownObjects_def
proof (intro allI impI)
  fix v h m h'
  assume "newMessage v h = (m, h')"
  then obtain ans ns ext h1 h2 where a: "newSection (Answer v) h = (ans, h1)"
    and n: "newSection (Ns v) h1 = (ns, h2)" and e: "newSection (Extra v) h2 = (ext, h')"
    and m: "m = \<lparr>sMsg = v, sAns = ans, sNs = ns, sExt = ext\<rparr>"
    by (auto simp: newMessage_def split: prod.splits)
  note A = newSection_new [OF a] and N = newSection_new [OF n] and E = newSection_new [OF e]
  have x: "extends h1 h'" "extends h2 h'" "extends h h'" using A N E by (blast intro: extends_trans)+
  have A': "slice_ok h' ans" "records h' ans = Answer v" "elems h' ans = elems h1 ans"
    using A x(1) extends_slice_ok extends_records extends_elems by metis+
  have N': "slice_ok h' ns" "records h' ns = Ns v" "elems h' ns = elems h2 ns"
    using N x(2) extends_slice_ok extends_records extends_elems by metis+
  have le: "length (objects h) \<le> length (objects h1)" "length (objects h1) \<le> length (objects h2)"
    "length (arrays h) \<le> length (arrays h1)" "length (arrays h1) \<le> length (arrays h2)"
    using A N by (auto simp: extends_def dest: prefix_length_le)
  have "apart h' ans ns" "apart h' ans ext" "apart h' ext ns"
    using A N E le by (auto simp: apart_def A'(3) N'(3))
  moreover have "newer h h' ans" "newer h h' ext" using A E le by (auto simp: newer_def A'(3))
  ultimately show "extends h h' \<and> message_ok h' m \<and> view h' m = v \<and> newer h h' (sAns m) \<and> newer h h' (sExt m) \<and>
      apart h' (sAns m) (sNs m) \<and> apart h' (sAns m) (sExt m) \<and> apart h' (sExt m) (sNs m)"
    using x(3) A' N' E by (simp add: m message_ok_def view_def)
qed

section \<open>The property\<close>

lemma kept_values: "vKept (values_of S) = map (view (memory S)) (kept S)"
  by (simp add: values_of_def)

text \<open>
  C15. Sharing records is harmless. Whatever replies arrive, are stored, handed to all who wait for the
  same flight, answered from the cache and remapped, in any order, with copies that share the records:
  the shared messages and the replies under way are at every time those that the definitions on values
  give, and no message that is once stored or handed out by a flight is ever changed by what is done
  later, for any transformers of records.
\<close>

theorem copies_do_not_interfere:
  assumes "ownObjects unpack" and "shallowCopy copy"
    and "S = fold (share_step unpack copy) es (emptySharing w)"
    and "S' = fold (share_step unpack copy) es' S"
  shows "values_of S = fold value_step es \<lparr>vKept = [], vReplies = [], vWorld = w\<rparr> \<and>
    prefix (map (view (memory S)) (kept S)) (map (view (memory S')) (kept S'))"
proof -
  from share_run_values [OF assms(1,2), of "emptySharing w" es]
  have S: "sharing_ok S" "values_of S = fold value_step es \<lparr>vKept = [], vReplies = [], vWorld = w\<rparr>"
    by (simp_all add: assms(3))
  have "prefix (vKept (values_of S)) (vKept (values_of S'))"
    unfolding assms(4) using share_run_values [OF assms(1,2) S(1), of es'] vKept_grows [of "values_of S" es'] by metis
  with S(2) show ?thesis unfolding kept_values by blast
qed

text \<open>
  A flight ends with a reply with an A, an AAAA and an HTTPS record; the replies to two who wait for it
  are taken and one is remapped, and two more clients are answered from the cache, the first of them
  with all A records dropped: the stored reply keeps its address and its TTL.
\<close>

definition shareH :: "u32 \<Rightarrow> hdr" where "shareH t = \<lparr>hName = ''a.'', hTTL = t, hClass = 1\<rparr>"

definition shareAddr :: addr where "shareAddr = AddrFrom4 [CHR 0x0A, CHR 0x00, CHR 0x00, CHR 0x01]"

definition shareReply :: msg where
  "shareReply = \<lparr>ID = 5, Response = True, Rcode = 0, Truncated = False, UDPSize = 512, Question = [],
     Answer = [A (shareH 300) shareAddr, AAAA (shareH 300) blackholeAddr,
       HTTPS (shareH 300) \<lparr>svPriority = 1, svTarget = ''.'', Value = [DOHPATH ''/q'']\<rparr>],
     Ns = [], Extra = [], Data = [CHR ''x'']\<rparr>"

definition shareEvents :: "unit event list" where
  "shareEvents = [Arrive shareReply, Join 0 6, Join 0 7, Remap 1 blackholeTransform, Hit 1 8 60,
     Remap 2 (\<lambda>h a s. (Inr None, s)), Hit 1 9 59]"

lemma copies_do_not_interfere_witness:
  "let S = fold (share_step newMessage shareMsg) shareEvents (emptySharing ());
       S' = fold (share_step newMessage shareMsg) [Remap 3 (\<lambda>h a s. (Inr None, s))] S;
       sv = \<lparr>svPriority = 1, svTarget = ''.'', Value = []\<rparr>;
       msg = shareReply\<lparr>Data := [], Answer := [A (shareH 300) shareAddr, HTTPS (shareH 300) sv]\<rparr>
   in map (view (memory S)) (kept S) = [msg, msg] \<and>
      vReplies (values_of S) =
        [msg\<lparr>ID := 6\<rparr>,
         msg\<lparr>ID := 7, Answer := [A (shareH 300) blackholeAddr, HTTPS (shareH 300) sv]\<rparr>,
         msg\<lparr>ID := 8, Answer := [HTTPS (shareH 60) sv]\<rparr>,
         msg\<lparr>ID := 9, Answer := [A (shareH 59) shareAddr, HTTPS (shareH 59) sv]\<rparr>] \<and>
      prefix [msg, msg] (map (view (memory S')) (kept S'))"
proof -
  define S where "S = fold (share_step newMessage shareMsg) shareEvents (emptySharing ())"
  define S' where "S' = fold (share_step newMessage shareMsg) [Remap 3 (\<lambda>h a s. (Inr None, s))] S"
  note P = copies_do_not_interfere [OF newMessage_own shareMsg_shallow S_def S'_def]
  have V: "fold value_step shareEvents \<lparr>vKept = [], vReplies = [], vWorld = ()\<rparr> = values_of S"
    using P by simp
  show ?thesis
    using P unfolding S_def [symmetric] Let_def S'_def [symmetric] kept_values [symmetric] V [symmetric]
    by (simp add: shareEvents_def shareReply_def shareH_def filterReply_def stripParams_def hitReply_def
        cloneWithTTL_def remapReply_def remapAnswer_def blackholeTransform_def)
qed

end
