(* ===== verification/Rebuild_Answers.thy ===== *)
theory Rebuild_Answers
  imports Router
begin

text \<open>
  From the content of the sources to the answers: what \<open>Rebuild\<close> and \<open>LoadCached\<close> of
  \<open>src/server/router/router.go\<close> make of what is fetched, of the runs on the disk and of the saved
  matcher, when the disk works. The theory \<open>Router\<close> shows what holds when it does not.
\<close>

section \<open>What a refresh leaves on the disk\<close>

text \<open>What the server of a source has to offer for the state that the store has: new entries, or none.\<close>

definition fetched ::
  "names \<Rightarrow> 're regexpPkg \<Rightarrow> world \<Rightarrow> 're Source \<Rightarrow> Validator \<Rightarrow> (Validator \<times> Entry list) option"
where
  "fetched nm pkg W src prev =
     (case fetch W (SrcFetcher src) prev of
        Inl err \<Rightarrow> None
      | Inr res \<Rightarrow>
          if NotModified res then None
          else (case parse nm pkg src (resReader res) of
              (entries, Some err) \<Rightarrow> None
            | (entries, None) \<Rightarrow>
                if entries = [] then None
                else Some ((resValidator res)\<lparr>Fingerprint := SrcFingerprint src\<rparr>, entries)))"

definition prevOf :: "store \<Rightarrow> 're Source \<Rightarrow> fs \<Rightarrow> Validator" where
  "prevOf st src s =
     (case fst (LoadValidator st (Name src) s) of (v, err) \<Rightarrow> knownValidator v err (SrcFingerprint src))"

definition news :: "names \<Rightarrow> 're regexpPkg \<Rightarrow> world \<Rightarrow> store \<Rightarrow> fs \<Rightarrow> 're Source \<Rightarrow> (Validator \<times> Entry list) option" where
  "news nm pkg W st s src = fetched nm pkg W src (prevOf st src s)"

text \<open>The records of the run of a source, if it has one; the run is one that was written within the bounds of the format.\<close>

definition holds :: "store \<Rightarrow> fs \<Rightarrow> 're Source \<Rightarrow> Record list option \<Rightarrow> bool" where
  "holds st s src out \<longleftrightarrow>
     (case out of
        None \<Rightarrow> lookupFile s (runsDir st, runFile (Name src)) = None
      | Some recs \<Rightarrow> stored st s src recs)"

text \<open>What it is after a refresh: the new entries, which are within the bounds of the format, or what it was.\<close>

definition brings ::
  "names \<Rightarrow> 're regexpPkg \<Rightarrow> world \<Rightarrow> store \<Rightarrow> fs \<Rightarrow> 're Source \<Rightarrow> Record list option \<Rightarrow> bool"
where
  "brings nm pkg W st s src out \<longleftrightarrow>
     (case news nm pkg W st s src of
        Some (v, entries) \<Rightarrow> short v \<and> good_records (toRecords entries) \<and> out = Some (toRecords entries)
      | None \<Rightarrow> holds st s src out)"

definition held_rules :: "'re Source list \<Rightarrow> Record list option list \<Rightarrow> RunSource list" where
  "held_rules srcs outs =
     concat (map2 (\<lambda>src out. case out of None \<Rightarrow> [] | Some recs \<Rightarrow> [run_rules src recs]) srcs outs)"

lemma calm_id: "fsFaults s = [] \<Longrightarrow> calm s = s"
  by (simp add: calm_def)

lemma LoadValidator_calm:
  "fsFaults s = [] \<Longrightarrow> LoadValidator st name s = (fst (LoadValidator st name s), s)"
  by (auto simp: LoadValidator_def openFile_def sysCall_calm split: prod.splits option.splits)

lemma LoadValidator_cong:
  "fsFaults s = [] \<Longrightarrow> fsFaults t = [] \<Longrightarrow>
   lookupFile t (runsDir st, runFile name) = lookupFile s (runsDir st, runFile name) \<Longrightarrow>
     fst (LoadValidator st name t) = fst (LoadValidator st name s)"
  by (auto simp: LoadValidator_def openFile_def sysCall_calm split: prod.splits option.splits)

lemma holds_cong:
  "lookupFile t (runsDir st, runFile (Name src)) = lookupFile s (runsDir st, runFile (Name src)) \<Longrightarrow>
     holds st t src out = holds st s src out"
  by (simp add: holds_def stored_def split: option.split)

lemma brings_cong:
  assumes "fsFaults s = []" and "fsFaults t = []"
    and "lookupFile t (runsDir st, runFile (Name src)) = lookupFile s (runsDir st, runFile (Name src))"
  shows "news nm pkg W st t src = news nm pkg W st s src"
    and "brings nm pkg W st t src out = brings nm pkg W st s src out"
  using holds_cong [OF assms(3)] LoadValidator_cong [OF assms]
  by (simp_all add: brings_def news_def prevOf_def split: option.splits)

lemma refresh_roomy:
  assumes "roomy st (Suc n) s" and "brings nm pkg W st s src out" and "refresh nm pkg W st src s = ((res, err), t)"
  shows "roomy st n t \<and> holds st t src out \<and> (res = refreshUpdated \<longleftrightarrow> news nm pkg W st s src \<noteq> None)"
proof -
  have calm: "fsFaults s = []" using assms(1) by (simp add: roomy_def)
  obtain v lerr where lv: "LoadValidator st (Name src) s = ((v, lerr), s)"
    using LoadValidator_calm [OF calm] by (metis prod.collapse)
  have prev: "prevOf st src s = knownValidator v lerr (SrcFingerprint src)" by (simp add: prevOf_def lv)
  have from': "refreshFrom nm pkg W st src (lerr = None) (prevOf st src s) s = ((res, err), t)"
    using assms(3) by (simp add: refresh_def lv prev)
  show ?thesis
  proof (cases "news nm pkg W st s src")
    case None
    then have "res \<noteq> refreshUpdated \<and> t = s"
      using from' unfolding news_def fetched_def refreshFrom_def
      by (auto simp: fallBack_def split: sum.splits if_splits prod.splits option.splits)
    moreover have "holds st s src out" using assms(2) None by (simp add: brings_def)
    ultimately show ?thesis using assms(1) None by (auto simp: roomy_def)
  next
    case (Some ve)
    obtain v' entries where ve: "ve = (v', entries)" by force
    obtain u where w: "WriteRun st (Name src) v' (toRecords entries) s = (None, u)" and room: "roomy st n u"
      using WriteRun_roomy [OF assms(1)] by blast
    have "res = refreshUpdated \<and> t = u"
      using from' Some w ve unfolding news_def fetched_def refreshFrom_def
      by (auto split: sum.splits if_splits prod.splits option.splits)
    moreover have "stored st u src (toRecords entries)"
      using assms(2) Some ve WriteRun_done [OF w] unfolding brings_def stored_def by auto
    ultimately show ?thesis using room Some assms(2) ve by (simp add: holds_def brings_def)
  qed
qed

lemma refreshAll_roomy:
  assumes "list_all2 (brings nm pkg W st s0) srcs outs" and "refreshAll nm pkg W st srcs s = (rs, t)"
    and "roomy st (length srcs + n) s" and "fsFaults s0 = []"
    and "distinct (map (\<lambda>src. runFile (Name src)) srcs)"
    and "\<forall>src \<in> set srcs. lookupFile s (runsDir st, runFile (Name src)) = lookupFile s0 (runsDir st, runFile (Name src))"
  shows "roomy st n t \<and> list_all2 (holds st t) srcs outs \<and>
    (refreshUpdated \<in> fst ` set rs \<longleftrightarrow> (\<exists>src \<in> set srcs. news nm pkg W st s0 src \<noteq> None))"
  using assms
proof (induction srcs outs arbitrary: s rs rule: list_all2_induct)
  case (Cons src srcs out outs)
  obtain res err s1 where r: "refresh nm pkg W st src s = ((res, err), s1)" by (metis prod.collapse)
  obtain rs' where rest: "refreshAll nm pkg W st srcs s1 = (rs', t)" and rs: "rs = (res, err) # rs'"
    using Cons.prems(1) r by (auto split: prod.splits)
  have calm: "fsFaults s = []" using Cons.prems(2) by (simp add: roomy_def)
  have here: "lookupFile s (runsDir st, runFile (Name src)) = lookupFile s0 (runsDir st, runFile (Name src))"
    using Cons.prems(5) by simp
  note same = brings_cong [OF Cons.prems(3) calm here]
  have "roomy st (Suc (length srcs + n)) s" using Cons.prems(2) by simp
  from refresh_roomy [OF this _ r] Cons.hyps(1) same
  have 1: "roomy st (length srcs + n) s1" "holds st s1 src out"
    "res = refreshUpdated \<longleftrightarrow> news nm pkg W st s0 src \<noteq> None" by auto
  have ref: "refreshed nm pkg W st src res s s1" using refresh_refreshed [OF r] by blast
  have other: "lookupFile s1 (runsDir st, runFile (Name x)) = lookupFile s0 (runsDir st, runFile (Name x))"
    if "x \<in> set srcs" for x
  proof -
    have "runFile (Name x) \<noteq> runFile (Name src)" using Cons.prems(4) that by (auto dest: image_eqI)
    from refreshed_other [OF ref this] Cons.prems(5) that show ?thesis by simp
  qed
  have dist: "distinct (map (\<lambda>src. runFile (Name src)) srcs)"
    and new: "runFile (Name src) \<notin> (\<lambda>src. runFile (Name src)) ` set srcs" using Cons.prems(4) by auto
  note IH = Cons.IH [OF rest 1(1) Cons.prems(3) dist]
  have "lookupFile t (runsDir st, runFile (Name src)) = lookupFile s1 (runsDir st, runFile (Name src))"
    using refreshAll_kept [OF rest dist] new by blast
  from holds_cong [OF this] 1(2) have "holds st t src out" by simp
  moreover have "roomy st n t" "list_all2 (holds st t) srcs outs"
    "refreshUpdated \<in> fst ` set rs' \<longleftrightarrow> (\<exists>src \<in> set srcs. news nm pkg W st s0 src \<noteq> None)"
    using IH other by blast+
  ultimately show ?case using 1(3) by (auto simp: rs)
qed (auto simp: roomy_def)

section \<open>What is compiled\<close>

lemma OpenRun_missing:
  "fsFaults s = [] \<Longrightarrow> lookupFile s (runsDir st, runFile name) = None \<Longrightarrow>
     OpenRun st name s = ((noValidator, None, Some errNotExist), s)"
  by (simp add: OpenRun_def openFile_def sysCall_calm)

lemma openRuns_held:
  assumes "list_all2 (holds st s) srcs outs" and "fsFaults s = []"
  shows "openRuns st srcs s = (held_rules srcs outs, s) \<and> (\<forall>x \<in> set (held_rules srcs outs). proper x)"
  using assms(1)
proof (induction rule: list_all2_induct)
  case (Cons src srcs out outs)
  show ?case
  proof (cases out)
    case None
    with Cons OpenRun_missing [OF assms(2)] show ?thesis by (simp add: held_rules_def holds_def)
  next
    case (Some recs)
    with Cons.hyps(1) have "stored st s src recs" by (simp add: holds_def)
    then have one: "list_all2 (stored st s) [src] [recs]" by simp
    have "fst (openRuns st (src # srcs) s) = run_rules src recs # fst (openRuns st srcs s) \<and>
        snd (openRuns st (src # srcs) s) = snd (openRuns st srcs s)"
    proof -
      from openRuns_written [OF one] have "openRuns st [src] s = ([run_rules src recs], s)"
        by (simp add: calm_id assms(2))
      then show ?thesis by (auto split: prod.splits option.splits)
    qed
    moreover have "proper (run_rules src recs)"
      using \<open>stored st s src recs\<close> by (simp add: stored_def run_rules_proper)
    ultimately show ?thesis using Cons.IH Some
      by (simp add: held_rules_def prod_eq_iff del: openRuns.simps)
  qed
qed (simp add: held_rules_def)

text \<open>The runs that no source is configured for, which \<open>Retain\<close> removes.\<close>

definition orphans :: "('re, 'f) Router \<Rightarrow> fs \<Rightarrow> string set" where
  "orphans r s = {n. lookupFile s (runsDir (rstore r), n) \<noteq> None \<and> suffix runSuffix n \<and> n \<notin> runFile ` set (sourceNames r)}"

lemma refreshAll_other:
  assumes "refreshAll nm pkg W st srcs s = (rs, t)" and "\<forall>src \<in> set srcs. q \<noteq> (runsDir st, runFile (Name src))"
    and "\<not> suffix tmpSuffix (snd q)"
  shows "lookupFile t q = lookupFile s q"
  using assms
proof (induction srcs arbitrary: s rs)
  case (Cons src srcs)
  obtain res err s1 where r: "refresh nm pkg W st src s = ((res, err), s1)" by (metis prod.collapse)
  then obtain rs' where rest: "refreshAll nm pkg W st srcs s1 = (rs', t)"
    using Cons.prems(1) by (auto split: prod.splits)
  have "refreshed nm pkg W st src res s s1" using refresh_refreshed [OF r] by blast
  moreover have "q \<noteq> (runsDir st, runFile (Name src))" using Cons.prems(2) by simp
  ultimately have "lookupFile s1 q = lookupFile s q"
    using Cons.prems(3) unfolding refreshed_def Let_def by blast
  with Cons.IH [OF rest] Cons.prems(2,3) show ?case by simp
qed simp

lemma refreshAll_orphans:
  assumes "refreshAll nm pkg W (rstore r) (sources r) s = (rs, t)"
  shows "orphans r t = orphans r s"
proof -
  have "lookupFile t (runsDir (rstore r), n) = lookupFile s (runsDir (rstore r), n)"
    if "suffix runSuffix n" "n \<notin> runFile ` set (sourceNames r)" for n
    using that run_not_temp by (intro refreshAll_other [OF assms]) (auto simp: sourceNames_def)
  then show ?thesis by (auto simp: orphans_def)
qed

lemma finite_orphans [simp]: "finite (orphans r s)"
proof (rule finite_subset)
  show "orphans r s \<subseteq> snd ` dom (map_of (fsFiles s))" by (force simp: orphans_def lookupFile_def dom_def)
qed (simp add: finite_dom_map_of)

text \<open>When a rebuild has reason to compile.\<close>

definition stirred :: "names \<Rightarrow> 're regexpPkg \<Rightarrow> world \<Rightarrow> ('re, 'f) Router \<Rightarrow> fs \<Rightarrow> bool" where
  "stirred nm pkg W r s \<longleftrightarrow>
     (\<exists>src \<in> set (sources r). news nm pkg W (rstore r) s src \<noteq> None) \<or> orphans r s \<noteq> {} \<or> rM r = None"

lemma rebuild_phases:
  assumes "roomy (rstore r) (length (sources r)) s"
    and "distinct (map (\<lambda>src. runFile (Name src)) (sources r))"
    and "list_all2 (brings nm pkg W (rstore r) s) (sources r) outs"
  obtains results s1 s2 where "refreshAll nm pkg W (rstore r) (sources r) s = (results, s1)"
    and "Retain (rstore r) (sourceNames r) s1 = (Inr (card (orphans r s)), s2)" and "fsFaults s2 = []"
    and "list_all2 (holds (rstore r) s2) (sources r) outs"
    and "refreshUpdated \<in> fst ` set results \<longleftrightarrow> (\<exists>src \<in> set (sources r). news nm pkg W (rstore r) s src \<noteq> None)"
proof -
  obtain results s1 where rf: "refreshAll nm pkg W (rstore r) (sources r) s = (results, s1)" by (rule prod.exhaust)
  obtain res s2 where rt: "Retain (rstore r) (sourceNames r) s1 = (res, s2)" by (rule prod.exhaust)
  have "roomy (rstore r) (length (sources r) + 0) s" "fsFaults s = []" using assms(1) by (simp_all add: roomy_def)
  from refreshAll_roomy [OF assms(3) rf this assms(2)]
  have 1: "roomy (rstore r) 0 s1" "list_all2 (holds (rstore r) s1) (sources r) outs"
    "refreshUpdated \<in> fst ` set results \<longleftrightarrow> (\<exists>src \<in> set (sources r). news nm pkg W (rstore r) s src \<noteq> None)"
    by blast+
  note R = Retain_roomy [OF 1(1) rt]
  have res: "res = Inr (card (orphans r s))"
    using R(2) refreshAll_orphans [OF rf] by (simp add: orphans_def)
  have "holds (rstore r) s2 src out" if "src \<in> set (sources r)" "holds (rstore r) s1 src out" for src out
    using that holds_cong [OF Retain_configured [OF rt, of "Name src"], of out] by (simp add: sourceNames_def)
  with 1(2) have "list_all2 (holds (rstore r) s2) (sources r) outs"
    by (auto simp: list_all2_conv_all_nth)
  moreover have "fsFaults s2 = []" using R(1) by (simp add: roomy_def)
  ultimately show thesis using that rf rt res 1(3) by blast
qed

section \<open>Properties\<close>

text \<open>
  C8. From the content of the sources to the answers. On a disk that works, a rebuild that has a reason
  (a source with new content, a run of a source that is no longer configured, or no matcher yet)
  leaves a router that answers every domain by the merged rules of the sources: those of the new
  entries where a source had some, and those of its last run where its server said nothing new,
  could not be reached, or sent nothing usable; a source without either is left out. Only if the FST's builder
  fails, which is reported, the old matcher stays, as it does without a reason. All this within the store's
  format: keys are not empty and below 64 KiB (a longer one comes back cut short), a run's section and a validator's
  texts are below 4 GiB, and an old run was written so. The runs have different file names, and the disk has no
  fault, no temporary file left over, and a free name for one per source.
\<close>

theorem rebuild_serves:
  assumes "Rebuild nm pkg vp W r s = ((err, r'), t)" and "vellum_pkg vp content"
    and "roomy (rstore r) (length (sources r)) s"
    and "distinct (map (\<lambda>src. runFile (Name src)) (sources r))"
    and "list_all2 (brings nm pkg W (rstore r) s) (sources r) outs"
  shows "if stirred nm pkg W r s
    then (\<forall>d. Lookup vp r' d = answer_of (held_rules (sources r) outs) d) \<or>
      (backend r \<noteq> MatcherRadix \<and> err \<noteq> None \<and> rM r' = rM r)
    else rM r' = rM r"
proof -
  from rebuild_phases [OF assms(3-5)] obtain results s1 s2 where
    rf: "refreshAll nm pkg W (rstore r) (sources r) s = (results, s1)"
    and rt: "Retain (rstore r) (sourceNames r) s1 = (Inr (card (orphans r s)), s2)" and calm: "fsFaults s2 = []"
    and held: "list_all2 (holds (rstore r) s2) (sources r) outs"
    and upd: "refreshUpdated \<in> fst ` set results \<longleftrightarrow> (\<exists>src \<in> set (sources r). news nm pkg W (rstore r) s src \<noteq> None)" .
  have st: "stirred nm pkg W r s \<longleftrightarrow>
      refreshUpdated \<in> fst ` set results \<or> card (orphans r s) > 0 \<or> rM r = None"
    by (simp add: stirred_def upd card_gt_0_iff)
  obtain c s3 where c: "compile vp r s2 = (c, s3)" by (rule prod.exhaust)
  have opened: "openRuns (rstore r) (sources r) s2 = (held_rules (sources r) outs, s2)"
    and proper: "\<forall>x \<in> set (held_rules (sources r) outs). proper x"
    using openRuns_held [OF held calm] by simp_all
  show ?thesis
  proof (cases "stirred nm pkg W r s")
    case True
    show ?thesis
    proof (cases c)
      case (Inl cerr)
      have "backend r \<noteq> MatcherRadix"
        using c Inl BuildRadix_insertAll [OF proper] by (auto simp: compile_def opened)
      moreover have "rM r' = rM r \<and> err \<noteq> None"
        using assms(1) rf rt c Inl True st by (auto simp: Rebuild_def Let_def joined_def split: if_splits)
      ultimately show ?thesis using True by simp
    next
      case (Inr b)
      obtain box data n where b: "b = (box, data, n)" by (metis prod.collapse)
      have "r' = r\<lparr>rM := Some box\<rparr>"
        using assms(1) rf rt c Inr b True st by (auto simp: Rebuild_def Let_def split: if_splits)
      moreover have "boxLookup vp box d = answer_of (held_rules (sources r) outs) d" for d
        by (rule compile_opened(1) [OF opened proper assms(2) c [unfolded Inr b]])
      ultimately show ?thesis using True by (simp add: Lookup_def)
    qed
  next
    case False
    then have "r' = r" using assms(1) rf rt st by (auto simp: Rebuild_def Let_def split: if_splits)
    with False show ?thesis by simp
  qed
qed

text \<open>
  C29. A start with the FST backend takes the saved matcher, whatever the runs on the disk hold, and
  as long as no source has new content and none is removed, no rebuild replaces it. So a process that
  stopped after it had written a run and before it had saved the matcher (or one whose save failed,
  which is only logged) answers after its restart by the rules of before the update, until the next
  change of a source. The disk has no fault here, and the runs on it are missing or were written within the
  bounds of the format.
\<close>

theorem saved_matcher_stays:
  assumes "lookupFile s (dir (rstore r), fstName) = Some \<lparr>fdata = fstBytes data, fdisk = disk\<rparr>"
    and "length data < 2 ^ 32" and "LoadFST vp data = Inr f" and "backend r \<noteq> MatcherRadix"
    and "roomy (rstore r) (length (sources r)) s"
    and "distinct (map (\<lambda>src. runFile (Name src)) (sources r))"
    and "list_all2 (holds (rstore r) s) (sources r) outs"
    and "\<forall>src \<in> set (sources r). news nm pkg W (rstore r) s src = None" and "orphans r s = {}"
  shows "\<exists>r1 err t. LoadCached vp (r\<lparr>rM := None\<rparr>) s = ((length data, r1), s) \<and>
    Rebuild nm pkg vp W r1 s = ((err, r1), t) \<and> rM r1 = Some (FSTBox f)"
proof -
  let ?r1 = "r\<lparr>rM := Some (FSTBox f)\<rparr>"
  have "fsFaults s = []" using assms(5) by (simp add: roomy_def)
  then have "loadFSTData (rstore r) s = (Inr data, s)"
    using loadFSTData_saved [OF assms(1,2)] by (simp add: calm_id)
  with assms(3,4) have load: "LoadCached vp (r\<lparr>rM := None\<rparr>) s = ((length data, ?r1), s)"
    by (simp add: LoadCached_def Let_def)
  have brs: "list_all2 (brings nm pkg W (rstore ?r1) s) (sources ?r1) outs"
    using assms(7,8) by (auto simp: list_all2_conv_all_nth brings_def)
  show ?thesis
  proof (rule rebuild_phases [of ?r1 s nm pkg W outs])
    show "roomy (rstore ?r1) (length (sources ?r1)) s" "distinct (map (\<lambda>src. runFile (Name src)) (sources ?r1))"
      "list_all2 (brings nm pkg W (rstore ?r1) s) (sources ?r1) outs" using assms(5,6) brs by simp_all
  next
    fix results s1 s2
    assume rf: "refreshAll nm pkg W (rstore ?r1) (sources ?r1) s = (results, s1)"
      and rt: "Retain (rstore ?r1) (sourceNames ?r1) s1 = (Inr (card (orphans ?r1 s)), s2)"
      and upd: "refreshUpdated \<in> fst ` set results \<longleftrightarrow> (\<exists>src \<in> set (sources ?r1). news nm pkg W (rstore ?r1) s src \<noteq> None)"
    have "orphans ?r1 s = {}" using assms(9) by (simp add: orphans_def sourceNames_def)
    moreover have "refreshUpdated \<notin> fst ` set results" using upd assms(8) by simp
    ultimately obtain err where "Rebuild nm pkg vp W ?r1 s = ((err, ?r1), s2)"
      using rf rt by (auto simp: Rebuild_def Let_def)
    with load show ?thesis by fastforce
  qed
qed

section \<open>An example\<close>

lemma demo_news:
  "news demo_names demo_regexp demo_world demo_store demo_fs demo_source =
     Some (noValidator\<lparr>MTime := 7, Size := 9, Fingerprint := ''f''\<rparr>, [\<lparr>Domain = ''example.com'', Subdomains = True\<rparr>])"
proof -
  have "prevOf demo_store demo_source demo_fs = noValidator"
    by (simp add: prevOf_def LoadValidator_def openFile_def sysCall_def demo_fs_def lookupFile_def knownValidator_def)
  moreover have "parse demo_names demo_regexp demo_source \<lparr>rest = unlines demo_lines, atEnd = EOF\<rparr> =
     ([\<lparr>Domain = ''example.com'', Subdomains = True\<rparr>], None)"
    using parse_unlines [of demo_source True demo_lines demo_names demo_regexp] demo_line demo_entries
    by (simp add: demo_source_def)
  ultimately show ?thesis
    by (simp add: news_def fetched_def demo_fetch) (simp add: demo_source_def)
qed

lemma demo_toRecords: "toRecords [\<lparr>Domain = ''example.com'', Subdomains = True\<rparr>] = demo_recs"
  using ReverseLabels_dotted [of "[''example'', ''com'']"]
  by (simp add: toRecords_def toRecord_def demo_recs_def label_def)

lemma demo_short: "short (noValidator\<lparr>MTime := 7, Size := 9, Fingerprint := ''f''\<rparr>)"
  by (simp add: short_def noValidator_def)

lemma demo_good: "good_records demo_recs"
  by (simp add: good_records_def demo_recs_def written_def dataLen_def recordHeaderLen_def)

lemma rebuild_serves_witness:
  "\<exists>err r' t. Rebuild demo_names demo_regexp memVellum demo_world (demo_router MatcherRadix) demo_fs = ((err, r'), t) \<and>
     Lookup memVellum r' ''www.example.com'' = ActionRemap"
proof -
  let ?r = "demo_router MatcherRadix :: (bytes, (bytes \<times> u64) list) Router"
  obtain err r' t where
    r: "Rebuild demo_names demo_regexp memVellum demo_world ?r demo_fs = ((err, r'), t)"
    by (metis prod.collapse)
  have room: "roomy (rstore ?r) (length (sources ?r)) demo_fs"
    by (simp add: roomy_def demo_router_def demo_fs_def demo_store_def lookupFile_def)
  have dist: "distinct (map (\<lambda>src. runFile (Name src)) (sources ?r))" by (simp add: demo_router_def)
  have "list_all2 (brings demo_names demo_regexp demo_world (rstore ?r) demo_fs) (sources ?r) [Some demo_recs]"
    by (simp add: demo_router_def brings_def demo_news demo_toRecords demo_short demo_good)
  from rebuild_serves [OF r memVellum.vellum_pkg_axioms room dist this]
  have "Lookup memVellum r' ''www.example.com'' = ActionRemap"
    using demo_answer by (simp add: demo_router_def held_rules_def demo_run_rules stirred_def)
  with r show ?thesis by blast
qed

text \<open>
  The disk after a process that wrote the run of a source with the name \<open>example.com\<close> and stopped
  before it saved its new matcher: the saved one is of before, with a rule for another name.
\<close>

definition old_rules :: "(bytes \<times> u64) list" where
  "old_rules = [(''com.other'', fstValue ActionRemap MatchPrefix)]"

definition crashed_fs :: fs where
  "crashed_fs = demo_fs\<lparr>fsFiles :=
     [((runsDir demo_store, runFile ''hosts''),
       (let b = runBytes (noValidator\<lparr>MTime := 7, Size := 9, Fingerprint := ''f''\<rparr>) demo_recs in \<lparr>fdata = b, fdisk = b\<rparr>)),
      ((dir demo_store, fstName), \<lparr>fdata = fstBytes (memData old_rules), fdisk = fstBytes (memData old_rules)\<rparr>)]\<rparr>"

lemma crashed_stored: "stored demo_store crashed_fs demo_source demo_recs"
proof -
  have "lookupFile crashed_fs (runsDir demo_store, runFile (Name demo_source)) =
      Some \<lparr>fdata = runBytes (noValidator\<lparr>MTime := 7, Size := 9, Fingerprint := ''f''\<rparr>) demo_recs,
        fdisk = runBytes (noValidator\<lparr>MTime := 7, Size := 9, Fingerprint := ''f''\<rparr>) demo_recs\<rparr>"
    by (simp add: crashed_fs_def lookupFile_def Let_def demo_source_def)
  with demo_short demo_good show ?thesis unfolding stored_def by blast
qed

lemma crashed_news: "news demo_names demo_regexp demo_world demo_store crashed_fs demo_source = None"
proof -
  let ?v = "noValidator\<lparr>MTime := 7, Size := 9, Fingerprint := ''f''\<rparr>"
  have l: "lookupFile crashed_fs (runsDir demo_store, runFile ''hosts'') =
      Some \<lparr>fdata = runBytes ?v demo_recs, fdisk = runBytes ?v demo_recs\<rparr>"
    by (simp add: crashed_fs_def lookupFile_def Let_def)
  have "dataLen (written demo_recs) < 2 ^ 32" using demo_good by (simp add: good_records_def)
  from OpenRun_written(2) [OF l demo_short this]
  have "LoadValidator demo_store ''hosts'' crashed_fs = ((?v, None), crashed_fs)"
    by (simp add: calm_id crashed_fs_def demo_fs_def)
  then have "prevOf demo_store demo_source crashed_fs = ?v"
    by (simp add: prevOf_def demo_source_def knownValidator_def)
  then show ?thesis
    by (simp add: news_def fetched_def) (simp add: demo_source_def demo_world_def fileFetch_def notModified_def)
qed

lemma saved_matcher_stays_witness:
  "\<exists>r1 err t. LoadCached memVellum (demo_router ''fst'') crashed_fs = ((27, r1), crashed_fs) \<and>
     Rebuild demo_names demo_regexp memVellum demo_world r1 crashed_fs = ((err, r1), t) \<and>
     Lookup memVellum r1 ''www.example.com'' = ActionPass \<and>
     answer_of [run_rules demo_source demo_recs] ''www.example.com'' = ActionRemap"
proof -
  let ?r = "demo_router ''fst'' :: (bytes, (bytes \<times> u64) list) Router"
  have saved: "lookupFile crashed_fs (dir (rstore ?r), fstName) =
      Some \<lparr>fdata = fstBytes (memData old_rules), fdisk = fstBytes (memData old_rules)\<rparr>"
    by (simp add: crashed_fs_def lookupFile_def demo_router_def demo_store_def)
  have len: "length (memData old_rules) = 27" by (simp add: memData_def memBlock_def old_rules_def)
  have load: "LoadFST memVellum (memData old_rules) = Inr old_rules" by (simp add: LoadFST_def memParse_data)
  have fst': "backend ?r \<noteq> MatcherRadix" "?r\<lparr>rM := None\<rparr> = ?r" by (simp_all add: demo_router_def MatcherRadix_def)
  have tmp: "\<not> suffix tmpSuffix fstName" by (simp add: suffix_to_prefix tmpSuffix_def fstName_def)
  have none: "lookupFile crashed_fs (d, n) \<noteq> None \<longleftrightarrow>
      (d = ''/var/azg/runs'' \<and> n = runFile ''hosts'') \<or> (d = ''/var/azg'' \<and> n = fstName)" for d n
    by (auto simp: crashed_fs_def lookupFile_def demo_store_def)
  have "lookupFile crashed_fs q = None" if "suffix tmpSuffix (snd q)" for q
    using none [of "fst q" "snd q"] that tmp run_not_temp [OF runFile_suffix, of "''hosts''"] by auto
  then have room: "roomy (rstore ?r) (length (sources ?r)) crashed_fs"
    by (simp add: roomy_def demo_router_def crashed_fs_def demo_fs_def demo_store_def del: split_paired_All)
  have orph: "orphans ?r crashed_fs = {}"
    using none by (auto simp: orphans_def demo_router_def demo_store_def sourceNames_def demo_source_def)
  have old: "fstLookup memVellum old_rules ''www.example.com'' = ActionPass"
  proof -
    have "ReverseLabels ''www.example.com'' = ''com.example.www''"
      using ReverseLabels_dotted [of "[''www'', ''example'', ''com'']"] by (simp add: label_def)
    then show ?thesis by (simp add: fstLookup_def old_rules_def numeral_nat)
  qed
  from saved_matcher_stays [OF saved _ load fst'(1) room, of "[Some demo_recs]" demo_names demo_regexp demo_world]
  obtain r1 err t where "LoadCached memVellum ?r crashed_fs = ((27, r1), crashed_fs)"
    "Rebuild demo_names demo_regexp memVellum demo_world r1 crashed_fs = ((err, r1), t)" "rM r1 = Some (FSTBox old_rules)"
    using orph len crashed_stored crashed_news unfolding fst'(2)
    by (auto simp: demo_router_def holds_def)
  with old demo_answer show ?thesis by (auto simp: Lookup_def demo_run_rules)
qed

end
