(* ===== verification/Spec2Isabelle.thy ===== *)
theory Spec2Isabelle
  imports Program Mapper_Concurrent Cache_Concurrent Shared_Records Rebuild_Answers
begin

text \<open>
  A verification library for \<open>antizapret-go\<close>, a DNS server that lets clients reach chosen domains
  through a gateway. For a domain that is to be remapped it replaces each real address of a reply by a
  fake one from a private range, and programs the kernel to translate the fake address back to the real
  one; other domains pass, are answered by a blackhole address, or do not exist. The theories model
  the program under \<open>src/\<close>, and this header says which theory models what, how the parts work
  together, what is proved, and what is left out.

  \<^bold>\<open>The parts and how they interact.\<close> \<open>cmd/antizapret-go.go\<close> reads the configuration, makes the firewall
  backend and the server, starts two loops and the listeners, and waits for the end. A query goes to
  \<open>DNSHandler\<close>: the name is brought into normal form, the router gives its action, the cache is asked
  and, on a miss, the upstreams; their reply is filtered, kept in the cache, and its addresses are
  replaced by the mapper, which takes an address of the pool and adds a rule to the backend. One loop
  expires mappings that were not used for their lifetime, the other fetches the lists of domains,
  writes them to the store, merges them, and swaps the matcher.

  \<^bold>\<open>Theories and sources.\<close> In the order of their imports, with the files under \<open>src/\<close>:

    \<^item> \<open>AZ_Prelude\<close>: bytes, words, errors as values (\<open>Err\<close>, \<open>Wrap\<close>, \<open>Join\<close>, and \<open>Panic\<close> for a
      run-time panic), big-endian and decimal numbers, and the lemmas on lists that the others share.
    \<^item> \<open>Addr\<close>: \<open>netip.Addr\<close> and \<open>utils/net.go\<close>.
    \<^item> \<open>Lease_Pool\<close>: the interface between the table and the pool as a locale. \<open>IP_Pool\<close>: \<open>server/mapper/pool.go\<close>,
      the record \<open>ipPool\<close> with its cursor and its queue of freed addresses. \<open>Mapping_Table\<close>:
      \<open>server/mapper/table.go\<close>, a map from real addresses to \<open>mapping\<close>.
    \<^item> \<open>Firewall\<close>: the interface \<open>firewall.Manager\<close> as the record \<open>manager\<close>, its contract as the locales
      \<open>firewall_frame\<close> and \<open>firewall_manager\<close>, and the backend that does nothing.
    \<^item> \<open>IP_Mapper\<close>, \<open>Mapper_Rules\<close>, \<open>Mapper_Properties\<close>: \<open>server/mapper/ipmap.go\<close>, the record \<open>ipMapper\<close>; its
      invariant, its agreement with the kernel, and its properties over runs of \<open>Map\<close> and \<open>Clean\<close>.
      \<open>Mapper_Concurrent\<close>: the same with one step for each part that a lock makes atomic, in any order.
    \<^item> \<open>Nft_Manager\<close>, \<open>Nft_Init\<close>: \<open>server/firewall/nft/nft.go\<close>; the operations on the elements of the set, and the
      start with the one rule that translates, down to what the kernel does with a packet.
      \<open>Ipt_Manager\<close>: \<open>server/firewall/iptables/iptables.go\<close>.
    \<^item> \<open>Labels\<close>, \<open>Radix\<close>, \<open>Lookup_Spec\<close>, \<open>Merge\<close>, \<open>Matcher\<close>: \<open>server/router/matcher\<close>; reversed names as keys, the
      radix tree, the answer that a list of rules stands for, the merge of sorted sources by
      priority with pruning, and the two matchers.
    \<^item> \<open>Byte_Writer\<close>, \<open>Store_Format\<close>, \<open>File_System\<close>, \<open>Sha256\<close>, \<open>Utf8\<close>, \<open>Store\<close>: \<open>server/router/store\<close>; the files of
      the store byte by byte, a file system on which every call may fail and which may lose
      what was not synced, and the store over it.
    \<^item> \<open>Domain\<close>: \<open>utils/domain.go\<close>. \<open>Sources\<close>: \<open>parser.go\<close>, \<open>filter.go\<close>, \<open>fetcher.go\<close> and \<open>source.go\<close> of
      \<open>server/router\<close>. \<open>Router\<close>: \<open>router.go\<close>. \<open>Rebuild_Answers\<close>: both together on a disk that works, from the content of the
      sources to the answers.
    \<^item> \<open>Answer\<close>: \<open>server/answer.go\<close> with the messages of the package \<open>dns\<close>. \<open>Dns_Cache\<close>: \<open>server/cache/cache.go\<close>.
      \<open>Cache_Concurrent\<close>: the same with one step for each part of \<open>GetResponseLambda\<close> and the flights of \<open>singleflight\<close>, in any order.
      \<open>Metrics\<close>: \<open>metrics/metrics.go\<close>. \<open>Resolver\<close>: \<open>server/resolver\<close>. \<open>Config\<close>: \<open>cfg\<close>.
    \<^item> \<open>Server\<close>: \<open>server/server.go\<close>. \<open>Dns_Handler\<close>, \<open>Handler_Properties\<close>: \<open>server/dns_handler.go\<close>.
      \<open>Shared_Records\<close>: the parts of \<open>answer.go\<close>, \<open>cache.go\<close> and \<open>dns_handler.go\<close> that work on records, over a memory with slices
      and records that messages share.
      \<open>Service\<close>: the running server as a step relation. \<open>Program\<close>: \<open>cmd/antizapret-go.go\<close> and \<open>log/log.go\<close>,
      the start and the phases of the process as a step relation that refines that of \<open>Service\<close>.

  \<^bold>\<open>State and operations.\<close> A structure of the code is a record, an operation a function that takes the
  state and returns its result with the new state; an error is \<open>Inl\<close> or \<open>Some\<close>. An operation that holds a
  mutex is one step. A clock is an argument \<open>now\<close>, and durations are in nanoseconds like the code's.
  Integers have the code's width where they can wrap: addresses, keys and lengths in files, TTLs of
  records, the position in the ring of upstreams. A loop is recursion over what is left, with a measure where that is not
  structural. The one loop with fuel reads the records of a run (\<open>drainRun\<close>): a record takes three bytes or more, so the fuel is
  a third of the length of the section and one, and \<open>run_drain_terminates\<close> shows that this is enough.

  \<^bold>\<open>Parameters.\<close> Code that is not under \<open>src/\<close> is an argument: the packages \<open>dns\<close> (exchange, \<open>Len\<close>, \<open>Truncate\<close>),
  \<open>ttlcache\<close>, \<open>nftables\<close>, \<open>go-iptables\<close>, \<open>vellum\<close>, \<open>idna\<close>, the validator's formats and the YAML reader; of the standard
  library \<open>regexp\<close>, \<open>net/url\<close>, \<open>net/http\<close> and \<open>compress/gzip\<close>. What the code relies on is a locale
  (\<open>ttl_cache\<close>, \<open>nft_conn\<close>, \<open>nft_live\<close>, \<open>nft_setup\<close>, \<open>nft_answers\<close>, \<open>ipt_pkg\<close>, \<open>ipt_chain\<close>, and others), and each
  is interpreted on an instance that computes, on which the witnesses run.

  \<^bold>\<open>What is proved.\<close> The promise of the whole is in \<open>Service\<close> and \<open>Program\<close>: a fake address that a client got keeps its rule
  for as long as the reply's duration says, whatever else happens, and the invariant of the service
  holds from the command line to the exit, with the configuration's part discharged by its validation.
  Under it are: for the mapper, that fakes are unique, that table and kernel agree after every sequence of operations and
  faults and under every interleaving of calls, that an address that a call returns has its rule for the lifetime from then on, and that a restart keeps the mappings; for the backends, that they keep the contract
  of the interface, and that the kernel then translates exactly the mapped addresses; for the
  handler, that no record leads a client past the remapping, that a failure is never an empty success, and
  what is counted; for the cache, what a hit serves and for how long, that callers at the same time never get the reply of another question and none is stuck, and
  that messages may be read as values although copies share their records: no reply that is made changes another one; for the resolver, that it fails over; for the
  matchers, that both give the action of the merged rules, which is the one that the configuration's order and
  modes ask for; for the store, that files appear whole or not at all, also after a loss of power, and are read back as
  written; for the sources and the router, that a failure keeps the last good lists and the last
  good matcher, and that without failures a rebuild answers by what the sources hold (and when a start does not); for the configuration, that what is accepted never runs into an internal error.

  \<^bold>\<open>Not modelled.\<close> The steps of the server take a query as one unit, with \<open>singleflight\<close> as the call of its function. What the interleaving of
  calls does is shown for the two states that queries and the cleaning share, in \<open>Mapper_Concurrent\<close> and in
  \<open>Cache_Concurrent\<close>, not for whole handlers. The goroutines of
  \<open>Rebuild\<close> run one after the other; they share nothing but the store, in which each has its own files.
  Log lines, the encoder of the log, the help texts and buckets of the metrics, the timeouts of the metrics' HTTP server and
  \<open>debug.FreeOSMemory\<close> have no effect on the state. \<open>ShowVersion\<close> is text. The listeners and the shutdown of
  the package \<open>dns\<close> are steps that may happen at any time. Buffers and pools that are reused (\<open>sync.Pool\<close> in
  \<open>radix.go\<close>) are left out. IPv6 texts are left open where the program only hands them on.
\<close>

end
